(* ===== verification/Pt_Prelude.thy ===== *)
theory Pt_Prelude
  imports Main "HOL-Library.Word" "HOL-Library.Monad_Syntax" "HOL-Library.Stream"
begin

text \<open>
  Shared vocabulary of the development.

  \<^item> The widths of the C integers as type synonyms, the configuration constants of
    \<^verbatim>\<open>config.h\<close> and the ABI sizes the code takes with \<^verbatim>\<open>sizeof\<close> (LP64, little-endian
    Linux).
  \<^item> The error codes of \<^verbatim>\<open>errors.h\<close>.
  \<^item> A model of object memory: a pointer to bytes is the list of the bytes that can be
    reached from it inside its object, an array is a list. Every access is checked and has
    type \<open>option\<close>: \<open>None\<close> is undefined behaviour (an access outside the object) or a
    loop that does not end, so \<open>\<exists>r. f x = Some r\<close> says that the C function runs without
    either.
  \<^item> A counting loop with its invariant rule, and the list lemmas the component theories
    share. The collection \<open>mem_simps\<close> evaluates reads and writes at known places.
\<close>

unbundle bit_operations_syntax

named_theorems mem_simps
named_theorems codec_simps

section \<open>Integer widths and constants\<close>

type_synonym u8 = "8 word"
type_synonym u16 = "16 word"
type_synonym u32 = "32 word"
type_synonym u64 = "64 word"

text \<open>\<^verbatim>\<open>config.h\<close>.\<close>

abbreviation (input) PROTOCOL_VERSION :: u16 where "PROTOCOL_VERSION \<equiv> 1"
abbreviation (input) MESSAGE_RETRY_INTERVAL :: u64 where "MESSAGE_RETRY_INTERVAL \<equiv> 10000"
abbreviation (input) MESSAGE_RETRY_ATTEMPTS :: u16 where "MESSAGE_RETRY_ATTEMPTS \<equiv> 3"
abbreviation (input) MESSAGE_RUMOR_FACTOR :: nat where "MESSAGE_RUMOR_FACTOR \<equiv> 3"
abbreviation (input) MESSAGE_MAX_SIZE :: nat where "MESSAGE_MAX_SIZE \<equiv> 512"
abbreviation (input) MAX_OUTPUT_MESSAGES :: nat where "MAX_OUTPUT_MESSAGES \<equiv> 100"
abbreviation (input) GOSSIP_TICK_INTERVAL :: u64 where "GOSSIP_TICK_INTERVAL \<equiv> 1000"
abbreviation (input) DATA_LOG_SIZE :: nat where "DATA_LOG_SIZE \<equiv> 25"

text \<open>
  Sizes of C objects: \<^verbatim>\<open>sizeof(struct sockaddr_storage)\<close>, \<^verbatim>\<open>sizeof(cluster_member_t)\<close>,
  the size of a pointer, and the range of \<^verbatim>\<open>size_t\<close>.
\<close>

abbreviation (input) sizeof_sockaddr_storage :: nat where "sizeof_sockaddr_storage \<equiv> 128"
abbreviation (input) sizeof_cluster_member :: nat where "sizeof_cluster_member \<equiv> 24"
abbreviation (input) sizeof_pointer :: nat where "sizeof_pointer \<equiv> 8"

section \<open>Error codes (\<^verbatim>\<open>errors.h\<close>)\<close>

datatype pittacus_error =
    PITTACUS_ERR_NONE
  | PITTACUS_ERR_INIT_FAILED
  | PITTACUS_ERR_ALLOCATION_FAILED
  | PITTACUS_ERR_BAD_STATE
  | PITTACUS_ERR_INVALID_MESSAGE
  | PITTACUS_ERR_BUFFER_NOT_ENOUGH
  | PITTACUS_ERR_NOT_FOUND
  | PITTACUS_ERR_WRITE_FAILED
  | PITTACUS_ERR_READ_FAILED

text \<open>
  The code tests results with \<^verbatim>\<open>< 0\<close>; \<open>err_code\<close> gives the number behind a code. A
  function that returns a byte count or an error code has a result of the sum type
  \<open>pittacus_error + nat\<close>.
\<close>

fun err_code :: "pittacus_error \<Rightarrow> int" where
  "err_code PITTACUS_ERR_NONE = 0"
| "err_code PITTACUS_ERR_INIT_FAILED = -1"
| "err_code PITTACUS_ERR_ALLOCATION_FAILED = -2"
| "err_code PITTACUS_ERR_BAD_STATE = -3"
| "err_code PITTACUS_ERR_INVALID_MESSAGE = -4"
| "err_code PITTACUS_ERR_BUFFER_NOT_ENOUGH = -5"
| "err_code PITTACUS_ERR_NOT_FOUND = -6"
| "err_code PITTACUS_ERR_WRITE_FAILED = -7"
| "err_code PITTACUS_ERR_READ_FAILED = -8"

section \<open>Memory\<close>

text \<open>Reading and writing \<open>n\<close> bytes at an offset of an object, and array elements.\<close>

definition mem_read :: "u8 list \<Rightarrow> nat \<Rightarrow> nat \<Rightarrow> u8 list option" where
  "mem_read p off n = (if off + n \<le> length p then Some (take n (drop off p)) else None)"

definition mem_write :: "u8 list \<Rightarrow> nat \<Rightarrow> u8 list \<Rightarrow> u8 list option" where
  "mem_write p off bs =
     (if off + length bs \<le> length p
      then Some (take off p @ bs @ drop (off + length bs) p) else None)"

definition arr_get :: "'a list \<Rightarrow> nat \<Rightarrow> 'a option" where
  "arr_get xs i = (if i < length xs then Some (xs ! i) else None)"

definition arr_set :: "'a list \<Rightarrow> nat \<Rightarrow> 'a \<Rightarrow> 'a list option" where
  "arr_set xs i v = (if i < length xs then Some (xs[i := v]) else None)"

text \<open>\<^verbatim>\<open>memcmp(p, q, n) == 0\<close> for two pointers, either of which may be \<^verbatim>\<open>NULL\<close> (\<open>None\<close>).\<close>

definition memcmp_eq :: "u8 list option \<Rightarrow> u8 list option \<Rightarrow> nat \<Rightarrow> bool option" where
  "memcmp_eq p q n = do {
     a \<leftarrow> p;
     b \<leftarrow> q;
     x \<leftarrow> mem_read a 0 n;
     y \<leftarrow> mem_read b 0 n;
     Some (x = y)
   }"

text \<open>The conversion of a pointer difference to \<^verbatim>\<open>size_t\<close>: negative differences wrap.\<close>

definition size_of_diff :: "int \<Rightarrow> nat" where
  "size_of_diff d = nat (d mod 2 ^ 64)"

lemma size_of_diff_nonneg [simp]: "0 \<le> d \<Longrightarrow> d < 2 ^ 64 \<Longrightarrow> size_of_diff d = nat d"
  by (simp add: size_of_diff_def)

lemma size_of_diff_neg: "d < 0 \<Longrightarrow> - (2 ^ 64) \<le> d \<Longrightarrow> size_of_diff d = nat (2 ^ 64 + d)"
proof -
  assume d: "d < 0" "- (2 ^ 64) \<le> d"
  have "d mod 2 ^ 64 = (2 ^ 64 + d) mod 2 ^ 64" by simp
  also have "\<dots> = 2 ^ 64 + d" using d by (intro mod_pos_pos_trivial) auto
  finally show ?thesis by (simp add: size_of_diff_def)
qed

lemma mem_read_Some_iff:
  "mem_read p off n = Some bs \<longleftrightarrow> off + n \<le> length p \<and> bs = take n (drop off p)"
  by (auto simp: mem_read_def)

lemma mem_read_length: "mem_read p off n = Some bs \<Longrightarrow> length bs = n"
  by (auto simp: mem_read_def split: if_splits)

lemma mem_read_append [mem_simps]:
  "off = length xs \<Longrightarrow> n = length ys \<Longrightarrow> mem_read (xs @ ys @ zs) off n = Some ys"
  by (simp add: mem_read_def)

lemma mem_read_prefix [mem_simps]: "n = length ys \<Longrightarrow> mem_read (ys @ zs) 0 n = Some ys"
  by (simp add: mem_read_def)

lemma mem_write_append [mem_simps]:
  "off = length xs \<Longrightarrow> length bs \<le> length zs \<Longrightarrow>
     mem_write (xs @ zs) off bs = Some (xs @ bs @ drop (length bs) zs)"
  by (simp add: mem_write_def)

text \<open>Writing piece after piece is writing the pieces at once.\<close>

lemma mem_write_mem_write [mem_simps]:
  "k = off + length bs \<Longrightarrow>
     mem_write p off bs \<bind> (\<lambda>q. mem_write q k cs) = mem_write p off (bs @ cs)"
  by (auto simp: mem_write_def ac_simps)

lemma mem_write_bind [mem_simps]:
  "k = off + length bs \<Longrightarrow>
     mem_write p off bs \<bind> (\<lambda>q. mem_write q k cs \<bind> f) = mem_write p off (bs @ cs) \<bind> f"
  by (auto simp: mem_write_def ac_simps)

lemma mem_write_Some_length: "mem_write p off bs = Some q \<Longrightarrow> length q = length p"
  by (auto simp: mem_write_def split: if_splits)

lemma mem_write_Some_iff:
  "mem_write p off bs = Some q \<longleftrightarrow>
     off + length bs \<le> length p \<and> q = take off p @ bs @ drop (off + length bs) p"
  by (auto simp: mem_write_def)

lemma arr_get_Some_iff [simp]: "arr_get xs i = Some v \<longleftrightarrow> i < length xs \<and> v = xs ! i"
  by (auto simp: arr_get_def)

lemma arr_set_Some_iff [simp]: "arr_set xs i v = Some ys \<longleftrightarrow> i < length xs \<and> ys = xs[i := v]"
  by (auto simp: arr_set_def)

lemma arr_get_in [mem_simps]: "i < length xs \<Longrightarrow> arr_get xs i = Some (xs ! i)"
  by simp

lemma arr_set_in [mem_simps]: "i < length xs \<Longrightarrow> arr_set xs i v = Some (xs[i := v])"
  by simp

lemma memcmp_eq_Some [mem_simps]:
  "n \<le> length a \<Longrightarrow> n \<le> length b \<Longrightarrow>
     memcmp_eq (Some a) (Some b) n = Some (take n a = take n b)"
  by (simp add: memcmp_eq_def mem_read_def)

section \<open>Counting loops\<close>

text \<open>
  \<^verbatim>\<open>for (i = start; i < n; ++i) body\<close>. The body sees the index and the state and may fail.
\<close>

function for_loop :: "nat \<Rightarrow> nat \<Rightarrow> (nat \<Rightarrow> 's \<Rightarrow> 's option) \<Rightarrow> 's \<Rightarrow> 's option" where
  "for_loop i n body s =
     (if i < n then body i s \<bind> for_loop (Suc i) n body else Some s)"
  by pat_completeness auto
termination
  by (relation "measure (\<lambda>(i, n, body, s). n - i)") auto

declare for_loop.simps [simp del]

lemma for_loop_done [simp]: "n \<le> i \<Longrightarrow> for_loop i n body s = Some s"
  by (simp add: for_loop.simps)

lemma for_loop_step: "i < n \<Longrightarrow> for_loop i n body s = body i s \<bind> for_loop (Suc i) n body"
  by (simp add: for_loop.simps)

text \<open>
  The invariant rule, for total correctness: from an invariant that holds at the start
  and that the body keeps without failing, the loop ends in a state with the invariant at
  the bound.
\<close>

lemma for_loop_total:
  assumes "I i s" and "i \<le> n"
    and step: "\<And>k t. i \<le> k \<Longrightarrow> k < n \<Longrightarrow> I k t \<Longrightarrow> \<exists>t'. body k t = Some t' \<and> I (Suc k) t'"
  shows "\<exists>s'. for_loop i n body s = Some s' \<and> I n s'"
  using assms
proof (induction i n body s rule: for_loop.induct)
  case (1 i n body s)
  show ?case
  proof (cases "i < n")
    case True
    then obtain t where t: "body i s = Some t" "I (Suc i) t"
      using "1.prems" by blast
    then have "\<exists>s'. for_loop (Suc i) n body t = Some s' \<and> I n s'"
      using True "1.prems"(3) by (intro "1.IH") auto
    then show ?thesis using True t by (simp add: for_loop_step)
  next
    case False
    with "1.prems" show ?thesis by auto
  qed
qed

text \<open>
  \<^verbatim>\<open>for (i = start; i < n; ++i) if (test) break;\<close>: the first index that passes the test,
  if there is one. Reading during the test may fail.
\<close>

function find_loop :: "nat \<Rightarrow> nat \<Rightarrow> (nat \<Rightarrow> bool option) \<Rightarrow> nat option option" where
  "find_loop i n test =
     (if i < n then test i \<bind> (\<lambda>b. if b then Some (Some i) else find_loop (Suc i) n test)
      else Some None)"
  by pat_completeness auto
termination
  by (relation "measure (\<lambda>(i, n, test). n - i)") auto

declare find_loop.simps [simp del]

lemma find_loop_eq_find:
  "(\<And>k. i \<le> k \<Longrightarrow> k < n \<Longrightarrow> test k = Some (P k)) \<Longrightarrow>
     find_loop i n test = Some (List.find P [i..<n])"
proof (induction i n test rule: find_loop.induct)
  case (1 i n test)
  show ?case
  proof (cases "i < n")
    case True
    have "\<not> P i \<Longrightarrow> find_loop (Suc i) n test = Some (List.find P [Suc i..<n])"
      using True "1.prems" by (intro "1.IH") auto
    then show ?thesis
      using True "1.prems" [of i] by (simp add: find_loop.simps [of i] upt_conv_Cons)
  next
    case False
    then show ?thesis by (simp add: find_loop.simps)
  qed
qed

lemma find_upt_Some_iff:
  "List.find P [i..<n] = Some k \<longleftrightarrow> i \<le> k \<and> k < n \<and> P k \<and> (\<forall>j. i \<le> j \<and> j < k \<longrightarrow> \<not> P j)"
proof
  assume "List.find P [i..<n] = Some k"
  then obtain m where m: "m < n - i" "P (i + m)" "k = i + m" and before: "\<forall>j<m. \<not> P (i + j)"
    by (auto simp: find_Some_iff)
  have "\<not> P j" if "i \<le> j" "j < k" for j
    using before [rule_format, of "j - i"] that m(3) by simp
  with m show "i \<le> k \<and> k < n \<and> P k \<and> (\<forall>j. i \<le> j \<and> j < k \<longrightarrow> \<not> P j)" by auto
next
  assume k: "i \<le> k \<and> k < n \<and> P k \<and> (\<forall>j. i \<le> j \<and> j < k \<longrightarrow> \<not> P j)"
  show "List.find P [i..<n] = Some k"
    unfolding find_Some_iff using k by (intro exI [of _ "k - i"]) auto
qed

lemma find_upt_None_iff: "List.find P [i..<n] = None \<longleftrightarrow> (\<forall>k. i \<le> k \<and> k < n \<longrightarrow> \<not> P k)"
  by (auto simp: find_None_iff)

lemma find_None_map: "List.find (\<lambda>i. f i = k) xs = None \<longleftrightarrow> k \<notin> set (map f xs)"
  by (induction xs) auto

section \<open>Lists\<close>

lemma take_Suc_update: "i < length xs \<Longrightarrow> take (Suc i) (xs[i := v]) = take i xs @ [v]"
  by (simp add: take_Suc_conv_app_nth)

lemma nth_append_replicate_update:
  "i < k \<Longrightarrow> (xs @ replicate k x)[length xs := v] = xs @ v # replicate (k - 1) x"
  by (cases k) (simp_all add: list_update_append)

lemma map_ext_Some: "(\<And>k v. f k = Some v \<longleftrightarrow> g k = Some v) \<Longrightarrow> f = g"
  by (rule ext) (metis option.exhaust)

lemma map_nth_upt_take: "n \<le> length xs \<Longrightarrow> map ((!) xs) [0..<n] = take n xs"
  by (rule nth_equalityI) auto

lemma map_of_eq_Some_distinct:
  "distinct (map fst xs) \<Longrightarrow> i < length xs \<Longrightarrow> map_of xs (fst (xs ! i)) = Some (snd (xs ! i))"
  by (metis map_of_eq_Some_iff nth_mem prod.collapse)

end
