(* ===== verification/Pt_Utils.thy ===== *)
theory Pt_Utils
  imports Pt_Prelude
begin

text \<open>
  The helpers of \<^verbatim>\<open>utils.c\<close> and the environment of the process.

  What the code asks the C library and the kernel for (does \<^verbatim>\<open>malloc\<close> succeed, what does
  \<^verbatim>\<open>random\<close> return, what time is it, does \<^verbatim>\<open>sendto\<close> succeed) is an \<^emph>\<open>input\<close> of the
  model: the record \<open>env\<close> holds one stream of answers for each, and every call takes
  the next one. Statements about the model therefore hold for every behaviour of these calls.
  The field \<open>env_wire\<close> collects what \<^verbatim>\<open>sendto\<close> took from the process, destination address
  and bytes, and \<open>env_app\<close> the payloads the application printed.

  Integers travel in network byte order. The code swaps the bytes of the host's
  (little-endian) representation and copies them; the lemmas show that the result is the
  big-endian encoding, that decoding inverts it, and that it uses exactly 2 or 4 bytes.
\<close>

section \<open>The environment\<close>

text \<open>
  What \<^verbatim>\<open>recvfrom\<close> answers: a negative result, or a datagram with the address of its sender and
  the length of this address.
\<close>

datatype recv_answer = Recv_Error | Recv_Datagram "u8 list" "u8 list" u32

record env =
  env_allocs :: "bool stream"
  env_randoms :: "u32 stream"
  env_clock :: "(int \<times> int) stream"
  env_sends :: "int stream"
  env_recvs :: "recv_answer stream"
  env_wire :: "(u8 list \<times> u8 list) list"
  env_app :: "u8 list list"

definition malloc :: "env \<Rightarrow> bool \<times> env" where
  "malloc e = (shd (env_allocs e), e\<lparr>env_allocs := stl (env_allocs e)\<rparr>)"

text \<open>\<^verbatim>\<open>pt_time\<close> turns the \<^verbatim>\<open>timeval\<close> of \<^verbatim>\<open>gettimeofday\<close> into milliseconds.\<close>

definition pt_time :: "env \<Rightarrow> u64 \<times> env" where
  "pt_time e =
     (case shd (env_clock e) of (tv_sec, tv_usec) \<Rightarrow>
        (word_of_int (tv_sec * 1000 + tv_usec div 1000), e\<lparr>env_clock := stl (env_clock e)\<rparr>))"

definition pt_random :: "env \<Rightarrow> u32 \<times> env" where
  "pt_random e = (shd (env_randoms e), e\<lparr>env_randoms := stl (env_randoms e)\<rparr>)"

section \<open>Byte order\<close>

text \<open>The bytes of an integer in the memory of a little-endian host, and back.\<close>

definition mem_of_word :: "'a::len word \<Rightarrow> u8 list" where
  "mem_of_word n = map (\<lambda>i. ucast (drop_bit (8 * i) n)) [0..<LENGTH('a) div 8]"

fun word_of_mem :: "u8 list \<Rightarrow> 'a::len word" where
  "word_of_mem [] = 0"
| "word_of_mem (b # bs) = ucast b OR push_bit 8 (word_of_mem bs)"

text \<open>
  \<^verbatim>\<open>htons\<close> and \<^verbatim>\<open>htonl\<close> of such a host swap the bytes; \<^verbatim>\<open>ntohs\<close> and \<^verbatim>\<open>ntohl\<close> are the
  same functions.
\<close>

definition PT_HTONS :: "u16 \<Rightarrow> u16" where
  "PT_HTONS n = word_of_mem (rev (mem_of_word n))"

definition PT_HTONL :: "u32 \<Rightarrow> u32" where
  "PT_HTONL n = word_of_mem (rev (mem_of_word n))"

text \<open>
  \<^verbatim>\<open>uint16_encode\<close> and its kin read or write at a place \<open>off\<close> of the buffer they get.
\<close>

definition uint16_decode :: "u8 list \<Rightarrow> nat \<Rightarrow> u16 option" where
  "uint16_decode buffer off = do {
     bs \<leftarrow> mem_read buffer off 2;
     Some (PT_HTONS (word_of_mem bs))
   }"

definition uint16_encode :: "u16 \<Rightarrow> u8 list \<Rightarrow> nat \<Rightarrow> u8 list option" where
  "uint16_encode n buffer off = mem_write buffer off (mem_of_word (PT_HTONS n))"

definition uint32_decode :: "u8 list \<Rightarrow> nat \<Rightarrow> u32 option" where
  "uint32_decode buffer off = do {
     bs \<leftarrow> mem_read buffer off 4;
     Some (PT_HTONL (word_of_mem bs))
   }"

definition uint32_encode :: "u32 \<Rightarrow> u8 list \<Rightarrow> nat \<Rightarrow> u8 list option" where
  "uint32_encode n buffer off = mem_write buffer off (mem_of_word (PT_HTONL n))"

section \<open>Facts about the byte order\<close>

text \<open>The big-endian reference encoding: the most significant byte first.\<close>

definition be_bytes :: "'a::len word \<Rightarrow> u8 list" where
  "be_bytes n = rev (map (\<lambda>i. ucast (drop_bit (8 * i) n)) [0..<LENGTH('a) div 8])"

abbreviation (input) be16 :: "u16 \<Rightarrow> u8 list" where "be16 \<equiv> be_bytes"
abbreviation (input) be32 :: "u32 \<Rightarrow> u8 list" where "be32 \<equiv> be_bytes"

lemma length_mem_of_word [simp]: "length (mem_of_word (n :: 'a::len word)) = LENGTH('a) div 8"
  by (simp add: mem_of_word_def)

lemma length_be_bytes [simp]: "length (be_bytes (n :: 'a::len word)) = LENGTH('a) div 8"
  by (simp add: be_bytes_def)

lemma bit_word_of_mem:
  "bit (word_of_mem bs :: 'a::len word) k \<longleftrightarrow>
     k < LENGTH('a) \<and> k div 8 < length bs \<and> bit (bs ! (k div 8)) (k mod 8)"
proof (induction bs arbitrary: k)
  case Nil
  then show ?case by simp
next
  case (Cons b bs)
  show ?case
  proof (cases "k < 8")
    case True
    then show ?thesis by (auto simp: bit_simps)
  next
    case False
    then have "k div 8 = Suc ((k - 8) div 8)" "(k - 8) mod 8 = k mod 8" "8 \<le> k"
      by (simp_all add: le_div_geq le_mod_geq)
    moreover have "\<not> bit (ucast b :: 'a word) k"
      using False by (auto simp: bit_simps dest: bit_imp_le_length)
    ultimately show ?thesis by (auto simp: bit_simps Cons.IH)
  qed
qed

lemma word_of_mem_of_word [codec_simps]:
  assumes "8 dvd LENGTH('a)"
  shows "word_of_mem (mem_of_word n) = (n :: 'a::len word)"
proof (rule bit_word_eqI)
  fix k assume k: "k < LENGTH('a)"
  then have "k div 8 < LENGTH('a) div 8" using assms by (simp add: div_less_dividend less_mult_imp_div_less)
  with k show "bit (word_of_mem (mem_of_word n) :: 'a word) k = bit n k"
    by (simp add: bit_word_of_mem mem_of_word_def bit_simps)
qed

lemma mem_of_word_of_mem [codec_simps]:
  assumes "8 * length bs = LENGTH('a)"
  shows "mem_of_word (word_of_mem bs :: 'a::len word) = bs"
proof (rule nth_equalityI)
  have len: "LENGTH('a) div 8 = length bs"
    using assms by (metis nonzero_mult_div_cancel_left zero_neq_numeral)
  then show "length (mem_of_word (word_of_mem bs :: 'a word)) = length bs" by simp
  fix i assume "i < length (mem_of_word (word_of_mem bs :: 'a word))"
  then have i: "i < length bs" using len by simp
  show "mem_of_word (word_of_mem bs :: 'a word) ! i = bs ! i"
  proof (rule bit_word_eqI)
    fix k assume k: "k < LENGTH(8)"
    then have "8 * i + k < LENGTH('a)" using i assms by simp
    with i k show "bit (mem_of_word (word_of_mem bs :: 'a word) ! i) k = bit (bs ! i) k"
      by (simp add: mem_of_word_def bit_simps bit_word_of_mem len)
  qed
qed

lemma be_bytes_eq: "be_bytes n = rev (mem_of_word n)"
  by (simp add: be_bytes_def mem_of_word_def)

lemma mem_of_htons: "mem_of_word (PT_HTONS n) = be16 n"
  by (simp add: PT_HTONS_def mem_of_word_of_mem be_bytes_eq)

lemma mem_of_htonl: "mem_of_word (PT_HTONL n) = be32 n"
  by (simp add: PT_HTONL_def mem_of_word_of_mem be_bytes_eq)

lemma htons_of_be: "PT_HTONS (word_of_mem (be16 n)) = n"
  by (simp add: PT_HTONS_def mem_of_word_of_mem word_of_mem_of_word be_bytes_eq)

lemma htonl_of_be: "PT_HTONL (word_of_mem (be32 n)) = n"
  by (simp add: PT_HTONL_def mem_of_word_of_mem word_of_mem_of_word be_bytes_eq)

lemma uint16_encode_be [codec_simps]: "uint16_encode n buffer off = mem_write buffer off (be16 n)"
  by (simp add: uint16_encode_def mem_of_htons)

lemma uint32_encode_be [codec_simps]: "uint32_encode n buffer off = mem_write buffer off (be32 n)"
  by (simp add: uint32_encode_def mem_of_htonl)

text \<open>Reading back: skip what lies before the place, then take the encoded integer.\<close>

lemma mem_read_skip [codec_simps]:
  "length xs \<le> off \<Longrightarrow> mem_read (xs @ ys) off n = mem_read ys (off - length xs) n"
  by (auto simp: mem_read_def)

lemma uint16_decode_skip [codec_simps]:
  "length xs \<le> off \<Longrightarrow> uint16_decode (xs @ ys) off = uint16_decode ys (off - length xs)"
  by (simp add: uint16_decode_def mem_read_skip)

lemma uint32_decode_skip [codec_simps]:
  "length xs \<le> off \<Longrightarrow> uint32_decode (xs @ ys) off = uint32_decode ys (off - length xs)"
  by (simp add: uint32_decode_def mem_read_skip)

lemma decode_Cons_skip [codec_simps]:
  "0 < off \<Longrightarrow> mem_read (x # ys) off n = mem_read ys (off - 1) n"
  "0 < off \<Longrightarrow> uint16_decode (x # ys) off = uint16_decode ys (off - 1)"
  "0 < off \<Longrightarrow> uint32_decode (x # ys) off = uint32_decode ys (off - 1)"
  using mem_read_skip [of "[x]" off ys n] uint16_decode_skip [of "[x]" off ys]
    uint32_decode_skip [of "[x]" off ys] by auto

lemma uint16_decode_be [codec_simps]: "uint16_decode (be16 n @ zs) 0 = Some n"
  by (simp add: uint16_decode_def mem_read_prefix htons_of_be)

lemma uint32_decode_be [codec_simps]: "uint32_decode (be32 n @ zs) 0 = Some n"
  by (simp add: uint32_decode_def mem_read_prefix htonl_of_be)

lemma uint16_decode_defined: "off + 2 \<le> length p \<Longrightarrow> \<exists>n. uint16_decode p off = Some n"
  by (simp add: uint16_decode_def mem_read_def)

lemma uint32_decode_defined: "off + 4 \<le> length p \<Longrightarrow> \<exists>n. uint32_decode p off = Some n"
  by (simp add: uint32_decode_def mem_read_def)

text \<open>The number that stands at a place of a buffer, in network byte order, as what it is worth.\<close>

definition u16_at :: "u8 list \<Rightarrow> nat \<Rightarrow> nat" where
  "u16_at buf i = horner_sum unat 256 (rev (take 2 (drop i buf)))"

definition u32_at :: "u8 list \<Rightarrow> nat \<Rightarrow> nat" where
  "u32_at buf i = horner_sum unat 256 (rev (take 4 (drop i buf)))"

lemma horner_bytes_less: "horner_sum unat 256 (bs :: u8 list) < 256 ^ length bs"
proof (induction bs)
  case (Cons b bs)
  have "unat b < 256" using unsigned_less [of b] by simp
  with Cons show ?case by simp
qed simp

lemma unat_word_of_mem:
  "8 * length bs \<le> LENGTH('a::len) \<Longrightarrow> unat (word_of_mem bs :: 'a word) = horner_sum unat 256 bs"
proof (induction bs)
  case (Cons b bs)
  let ?w = "word_of_mem bs :: 'a word"
  have le: "256 ^ length (b # bs) \<le> (2 :: nat) ^ LENGTH('a)"
    using Cons.prems power_increasing [of "8 * length bs + 8" "LENGTH('a)" "2 :: nat"]
    by (simp add: power_add power_mult)
  then have small: "unat ?w * 256 < 2 ^ LENGTH('a)"
    using Cons horner_bytes_less [of bs] le by simp
  have "(ucast b :: 'a word) AND push_bit 8 ?w = 0"
    by (rule bit_word_eqI) (auto simp: bit_simps dest: bit_imp_le_length)
  then have "word_of_mem (b # bs) = (ucast b :: 'a word) + push_bit 8 ?w"
    by (simp add: disjunctive_add_eq_or)
  moreover have "push_bit 8 ?w = of_nat (unat ?w * 256)" by (simp add: push_bit_eq_mult)
  moreover have "(ucast b :: 'a word) = of_nat (unat b)" by simp
  ultimately have "word_of_mem (b # bs) = (of_nat (unat b + unat ?w * 256) :: 'a word)" by (simp only: of_nat_add)
  moreover have "unat b + unat ?w * 256 < 2 ^ LENGTH('a)"
    using horner_bytes_less [of "b # bs"] le Cons by simp
  ultimately have "unat (word_of_mem (b # bs) :: 'a word) = unat b + unat ?w * 256"
    by (simp only: unat_of_nat mod_less)
  then show ?case using Cons by simp
qed simp

lemma uint16_decode_at:
  assumes "i + 2 \<le> length buf"
  shows "\<exists>k. uint16_decode buf i = Some k \<and> unat k = u16_at buf i"
  using assms by (simp add: uint16_decode_def mem_read_def PT_HTONS_def mem_of_word_of_mem unat_word_of_mem u16_at_def)

lemma uint32_decode_at:
  assumes "i + 4 \<le> length buf"
  shows "\<exists>k. uint32_decode buf i = Some k \<and> unat k = u32_at buf i"
  using assms by (simp add: uint32_decode_def mem_read_def PT_HTONL_def mem_of_word_of_mem unat_word_of_mem u32_at_def)

lemma at_decode:
  "uint16_decode buf i = Some k \<Longrightarrow> u16_at buf i = unat k" "uint32_decode buf i = Some l \<Longrightarrow> u32_at buf i = unat l"
  using uint16_decode_at [of i buf] uint32_decode_at [of i buf]
  by (auto simp: uint16_decode_def uint32_decode_def mem_read_def split: if_splits)

lemma u32_at_drop [simp]: "u32_at (drop c buf) i = u32_at buf (c + i)"
  by (simp add: u32_at_def add.commute)

section \<open>Properties\<close>

text \<open>Encoding a 32-bit integer in a buffer with room for it writes its four bytes, the most
  significant first, changes nothing else, and decoding at the same place gives the integer back.\<close>

lemma uint32_roundtrip:
  assumes "off + 4 \<le> length buffer"
  shows "\<exists>b. uint32_encode n buffer off = Some b \<and> uint32_decode b off = Some n
           \<and> b = take off buffer @ be_bytes n @ drop (off + 4) buffer"
proof -
  let ?b = "take off buffer @ be_bytes n @ drop (off + 4) buffer"
  have "uint32_decode ?b off = Some n"
    using assms by (simp add: codec_simps)
  then show ?thesis using assms by (simp add: uint32_encode_be mem_write_def)
qed

end
