(* ===== verification/Pt_Member.thy ===== *)
theory Pt_Member
  imports Pt_Utils
begin

text \<open>
  \<^verbatim>\<open>member.c\<close>: a member of the cluster, its wire format, and the growing array of members
  a node knows.

  A \<open>cluster_member\<close> points to the bytes of its socket address (\<open>None\<close> is \<^verbatim>\<open>NULL\<close>). A
  \<open>cluster_member_set\<close> is an array of pointers, \<open>ms_capacity\<close> long, of which the first
  \<open>ms_size\<close> are in use. The list \<open>ms_list\<close> of the members in use and their keys
  (\<open>member_key\<close>: what \<^verbatim>\<open>cluster_member_equals\<close> compares) are the abstraction in which the
  lemmas are stated: \<^verbatim>\<open>put\<close> adds the keys that are missing, in order; removal by address
  deletes the first match; the reservoir sample has distinct positions.
\<close>

section \<open>Members\<close>

record cluster_member =
  version :: u16
  uid :: u32
  address_len :: u32
  address :: "u8 list option"

abbreviation (input) CLUSTER_MEMBER_SIZE :: nat where
  "CLUSTER_MEMBER_SIZE \<equiv> 2 + 4 + 4 + sizeof_sockaddr_storage"

definition cluster_member_init ::
  "env \<Rightarrow> u8 list \<Rightarrow> u32 \<Rightarrow> (pittacus_error \<times> cluster_member \<times> env) option" where
  "cluster_member_init e addr len =
     (let (now, e) = pt_time e;
          result = \<lparr>version = PROTOCOL_VERSION, uid = ucast (now div 1000), address_len = len,
                    address = None\<rparr>;
          (ok, e) = malloc e
      in if \<not> ok then Some (PITTACUS_ERR_ALLOCATION_FAILED, result, e)
         else do {
           bs \<leftarrow> mem_read addr 0 (unat len);
           Some (PITTACUS_ERR_NONE, result\<lparr>address := Some bs\<rparr>, e)
         })"

definition cluster_member_copy ::
  "env \<Rightarrow> cluster_member \<Rightarrow> (pittacus_error \<times> cluster_member \<times> env) option" where
  "cluster_member_copy e src =
     (let dst = src\<lparr>address := None\<rparr>;
          (ok, e) = malloc e
      in if \<not> ok then Some (PITTACUS_ERR_ALLOCATION_FAILED, dst, e)
         else do {
           a \<leftarrow> address src;
           bs \<leftarrow> mem_read a 0 (unat (address_len src));
           Some (PITTACUS_ERR_NONE, dst\<lparr>address := Some bs\<rparr>, e)
         })"

definition cluster_member_equals :: "cluster_member \<Rightarrow> cluster_member \<Rightarrow> bool option" where
  "cluster_member_equals first second =
     (if uid first = uid second \<and> version first = version second
         \<and> address_len first = address_len second
      then memcmp_eq (address first) (address second) (unat (address_len first))
      else Some False)"

text \<open>After \<^verbatim>\<open>free\<close> the address can no longer be followed.\<close>

definition cluster_member_destroy :: "cluster_member \<Rightarrow> cluster_member" where
  "cluster_member_destroy m = m\<lparr>address := None\<rparr>"

text \<open>
  The decoded member does not own its address: it points into the buffer, so what can be
  read through it is the rest of the buffer. Moving the cursor past the end of the buffer's
  object is undefined.
\<close>

definition cluster_member_decode ::
  "u8 list \<Rightarrow> nat \<Rightarrow> (pittacus_error + nat \<times> cluster_member) option" where
  "cluster_member_decode buffer buffer_size =
     (if buffer_size < 2 * 4 + 2 then Some (Inl PITTACUS_ERR_BUFFER_NOT_ENOUGH)
      else do {
        v \<leftarrow> uint16_decode buffer 0;
        u \<leftarrow> uint32_decode buffer 2;
        l \<leftarrow> uint32_decode buffer 6;
        let cursor = 10 + unat l;
        if cursor \<le> length buffer
        then Some (Inr (cursor,
               \<lparr>version = v, uid = u, address_len = l, address = Some (drop 10 buffer)\<rparr>))
        else None
      })"

definition cluster_member_encode ::
  "cluster_member \<Rightarrow> u8 list \<Rightarrow> nat \<Rightarrow> nat \<Rightarrow> ((pittacus_error + nat) \<times> u8 list) option" where
  "cluster_member_encode member buffer cur buffer_size =
     (if buffer_size < 2 * 4 + 2 + unat (address_len member)
      then Some (Inl PITTACUS_ERR_BUFFER_NOT_ENOUGH, buffer)
      else do {
        buffer \<leftarrow> uint16_encode (version member) buffer cur;
        buffer \<leftarrow> uint32_encode (uid member) buffer (cur + 2);
        buffer \<leftarrow> uint32_encode (address_len member) buffer (cur + 6);
        a \<leftarrow> address member;
        bs \<leftarrow> mem_read a 0 (unat (address_len member));
        buffer \<leftarrow> mem_write buffer (cur + 10) bs;
        Some (Inr (10 + unat (address_len member)), buffer)
      })"

section \<open>The set of members\<close>

record cluster_member_set =
  ms_set :: "cluster_member option list"
  ms_size :: nat
  ms_capacity :: nat

abbreviation (input) MEMBERS_INITIAL_CAPACITY :: nat where "MEMBERS_INITIAL_CAPACITY \<equiv> 32"
abbreviation (input) MEMBERS_EXTENSION_FACTOR :: nat where "MEMBERS_EXTENSION_FACTOR \<equiv> 2"

text \<open>
  \<^verbatim>\<open>n >= capacity * MEMBERS_LOAD_FACTOR\<close> with the factor 0.75: both sides are exact in
  double precision.
\<close>

definition over_load_factor :: "nat \<Rightarrow> nat \<Rightarrow> bool" where
  "over_load_factor n capacity \<longleftrightarrow> 3 * capacity \<le> 4 * n"

text \<open>The doubling loop of \<^verbatim>\<open>cluster_member_set_extend\<close>, on 32 bits; \<open>None\<close> if it never ends.\<close>

partial_function (option) extend_capacity :: "nat \<Rightarrow> nat \<Rightarrow> nat option" where
  "extend_capacity required_size new_capacity =
     (if over_load_factor required_size new_capacity
      then extend_capacity required_size (new_capacity * MEMBERS_EXTENSION_FACTOR mod 2 ^ 32)
      else Some new_capacity)"

definition cluster_member_set_extend ::
  "env \<Rightarrow> cluster_member_set \<Rightarrow> nat \<Rightarrow> (cluster_member_set option \<times> env) option" where
  "cluster_member_set_extend e members required_size = do {
     new_capacity \<leftarrow> extend_capacity required_size (ms_capacity members);
     let (ok, e) = malloc e;
     if \<not> ok then Some (None, e)
     else do {
       new_set \<leftarrow> for_loop 0 (ms_size members) (\<lambda>i new_set. do {
           p \<leftarrow> arr_get (ms_set members) i;
           if p \<noteq> None then arr_set new_set i p else Some new_set
         }) (replicate new_capacity None);
       Some (Some (members\<lparr>ms_capacity := new_capacity, ms_set := new_set\<rparr>), e)
     }
   }"

definition cluster_member_set_init ::
  "env \<Rightarrow> cluster_member_set \<Rightarrow> pittacus_error \<times> cluster_member_set \<times> env" where
  "cluster_member_set_init e members =
     (let capacity = MEMBERS_INITIAL_CAPACITY; (ok, e) = malloc e
      in if \<not> ok then (PITTACUS_ERR_ALLOCATION_FAILED, members, e)
         else (PITTACUS_ERR_NONE,
               members\<lparr>ms_size := 0, ms_capacity := capacity, ms_set := replicate capacity None\<rparr>,
               e))"

text \<open>The loop of \<^verbatim>\<open>cluster_member_set_put\<close> over the new members.\<close>

fun put_members ::
  "env \<Rightarrow> cluster_member_set \<Rightarrow> cluster_member list
     \<Rightarrow> (pittacus_error \<times> cluster_member_set \<times> env) option" where
  "put_members e members [] = Some (PITTACUS_ERR_NONE, members, e)"
| "put_members e members (current # rest) = do {
     exists \<leftarrow> find_loop 0 (ms_size members) (\<lambda>i. do {
         p \<leftarrow> arr_get (ms_set members) i;
         m \<leftarrow> p;
         cluster_member_equals m current
       });
     if exists \<noteq> None then put_members e members rest
     else do {
       let (ok, e) = malloc e;
       if \<not> ok then Some (PITTACUS_ERR_ALLOCATION_FAILED, members, e)
       else do {
         (_, new_member, e) \<leftarrow> cluster_member_copy e current;
         slots \<leftarrow> arr_set (ms_set members) (ms_size members) (Some new_member);
         put_members e (members\<lparr>ms_set := slots, ms_size := ms_size members + 1\<rparr>) rest
       }
     }
   }"

definition cluster_member_set_put ::
  "env \<Rightarrow> cluster_member_set \<Rightarrow> cluster_member list
     \<Rightarrow> (pittacus_error \<times> cluster_member_set \<times> env) option" where
  "cluster_member_set_put e members new_members =
     (let new_size = (ms_size members + length new_members) mod 2 ^ 32
      in if over_load_factor new_size (ms_capacity members)
         then do {
           (extended, e) \<leftarrow> cluster_member_set_extend e members new_size;
           case extended of
             None \<Rightarrow> Some (PITTACUS_ERR_ALLOCATION_FAILED, members, e)
           | Some members \<Rightarrow> put_members e members new_members
         }
         else put_members e members new_members)"

text \<open>Destroying the set frees the members in use and then the array.\<close>

definition cluster_member_set_destroy :: "cluster_member_set \<Rightarrow> cluster_member_set option" where
  "cluster_member_set_destroy members = do {
     slots \<leftarrow> for_loop 0 (ms_size members) (\<lambda>i slots. do {
         p \<leftarrow> arr_get slots i;
         arr_set slots i None
       }) (ms_set members);
     Some (members\<lparr>ms_set := []\<rparr>)
   }"

text \<open>\<^verbatim>\<open>members->size - 1\<close> on 32 bits.\<close>

definition pred32 :: "nat \<Rightarrow> nat" where
  "pred32 n = (n + (2 ^ 32 - 1)) mod 2 ^ 32"

definition cluster_member_set_shift :: "cluster_member_set \<Rightarrow> nat \<Rightarrow> cluster_member_set option" where
  "cluster_member_set_shift members idx = do {
     slots \<leftarrow> for_loop idx (pred32 (ms_size members)) (\<lambda>i slots. do {
         p \<leftarrow> arr_get slots (i + 1);
         arr_set slots i p
       }) (ms_set members);
     Some (members\<lparr>ms_set := slots, ms_size := pred32 (ms_size members)\<rparr>)
   }"

text \<open>
  The pointer argument of \<^verbatim>\<open>cluster_member_set_remove\<close> is given by the element it points
  to: \<open>Some k\<close> for the element in slot \<open>k\<close>, \<open>None\<close> for a pointer to no element.
\<close>

definition cluster_member_set_remove ::
  "cluster_member_set \<Rightarrow> nat option \<Rightarrow> (bool \<times> cluster_member_set) option" where
  "cluster_member_set_remove members member = do {
     found \<leftarrow> find_loop 0 (ms_size members) (\<lambda>i. do {
         p \<leftarrow> arr_get (ms_set members) i;
         Some (member = Some i)
       });
     case found of
       None \<Rightarrow> Some (False, members)
     | Some i \<Rightarrow> do {
         members \<leftarrow> cluster_member_set_shift members i;
         Some (True, members)
       }
   }"

text \<open>The test both look-ups by address make: \<^verbatim>\<open>memcmp(members->set[i]->address, addr, n) == 0\<close>.\<close>

definition addr_matches :: "cluster_member_set \<Rightarrow> u8 list \<Rightarrow> nat \<Rightarrow> nat \<Rightarrow> bool option" where
  "addr_matches members addr addr_size i = do {
     p \<leftarrow> arr_get (ms_set members) i;
     m \<leftarrow> p;
     memcmp_eq (address m) (Some addr) addr_size
   }"

definition cluster_member_set_find_by_addr ::
  "cluster_member_set \<Rightarrow> u8 list \<Rightarrow> nat \<Rightarrow> nat option option" where
  "cluster_member_set_find_by_addr members addr addr_size =
     find_loop 0 (ms_size members) (addr_matches members addr addr_size)"

definition cluster_member_set_remove_by_addr ::
  "cluster_member_set \<Rightarrow> u8 list \<Rightarrow> nat \<Rightarrow> (bool \<times> cluster_member_set) option" where
  "cluster_member_set_remove_by_addr members addr addr_size = do {
     found \<leftarrow> find_loop 0 (ms_size members) (addr_matches members addr addr_size);
     case found of
       None \<Rightarrow> Some (False, members)
     | Some i \<Rightarrow> do {
         members \<leftarrow> cluster_member_set_shift members i;
         Some (True, members)
       }
   }"

text \<open>Reservoir sampling: the filled part of the reservoir, as the list of its pointers.\<close>

definition cluster_member_set_random_members ::
  "env \<Rightarrow> cluster_member_set \<Rightarrow> nat \<Rightarrow> (cluster_member option list \<times> env) option" where
  "cluster_member_set_random_members e members reservoir_size =
     (if ms_size members = 0 then Some ([], e)
      else do {
        let actual = (if ms_size members > reservoir_size then reservoir_size else ms_size members);
        reservoir \<leftarrow> for_loop 0 actual (\<lambda>k reservoir. do {
            p \<leftarrow> arr_get (ms_set members) k;
            Some (reservoir @ [p])
          }) [];
        for_loop actual (ms_size members) (\<lambda>member_idx (reservoir, e). do {
            let (r, e) = pt_random e;
            let random_idx = unat r mod (member_idx + 1);
            if random_idx < actual
            then do {
              p \<leftarrow> arr_get (ms_set members) member_idx;
              reservoir \<leftarrow> arr_set reservoir random_idx p;
              Some (reservoir, e)
            }
            else Some (reservoir, e)
          }) (reservoir, e)
      })"

section \<open>Specification\<close>

text \<open>
  A member is well formed when its whole address can be read; its key is what
  \<^verbatim>\<open>cluster_member_equals\<close> compares; \<open>member_bytes\<close> is its wire format.
\<close>

definition member_ok :: "cluster_member \<Rightarrow> bool" where
  "member_ok m \<longleftrightarrow>
     (case address m of None \<Rightarrow> False | Some a \<Rightarrow> unat (address_len m) \<le> length a)"

definition member_addr :: "cluster_member \<Rightarrow> u8 list" where
  "member_addr m = take (unat (address_len m)) (the (address m))"

definition member_key :: "cluster_member \<Rightarrow> u16 \<times> u32 \<times> u32 \<times> u8 list" where
  "member_key m = (version m, uid m, address_len m, member_addr m)"

definition member_bytes :: "cluster_member \<Rightarrow> u8 list" where
  "member_bytes m =
     be_bytes (version m) @ be_bytes (uid m) @ be_bytes (address_len m) @ member_addr m"

definition ms_list :: "cluster_member_set \<Rightarrow> cluster_member list" where
  "ms_list s = map the (take (ms_size s) (ms_set s))"

definition ms_keys :: "cluster_member_set \<Rightarrow> (u16 \<times> u32 \<times> u32 \<times> u8 list) list" where
  "ms_keys s = map member_key (ms_list s)"

text \<open>
  The invariant of the set: the array has the recorded capacity, the slots in use hold
  well-formed members, no two of them equal.
\<close>

definition members_inv :: "cluster_member_set \<Rightarrow> bool" where
  "members_inv s \<longleftrightarrow>
     length (ms_set s) = ms_capacity s \<and> ms_size s \<le> ms_capacity s
     \<and> 0 < ms_capacity s \<and> ms_capacity s < 2 ^ 32
     \<and> (\<forall>p \<in> set (take (ms_size s) (ms_set s)). case p of None \<Rightarrow> False | Some m \<Rightarrow> member_ok m)
     \<and> distinct (ms_keys s)"

text \<open>Adding the keys that are missing, in order: the specification of \<^verbatim>\<open>put\<close>.\<close>

fun add_new :: "'a list \<Rightarrow> 'a list \<Rightarrow> 'a list" where
  "add_new ks [] = ks"
| "add_new ks (x # xs) = add_new (if x \<in> set ks then ks else ks @ [x]) xs"

definition allocs_ok :: "env \<Rightarrow> bool" where
  "allocs_ok e \<longleftrightarrow> (\<forall>b \<in> sset (env_allocs e). b)"

text \<open>Deleting the first element with a property: the specification of removal by address.\<close>

fun remove_first :: "('a \<Rightarrow> bool) \<Rightarrow> 'a list \<Rightarrow> 'a list" where
  "remove_first P [] = []"
| "remove_first P (x # xs) = (if P x then xs else x # remove_first P xs)"

section \<open>Members: comparison and wire format\<close>

lemma malloc_ok: "allocs_ok e \<Longrightarrow> \<exists>e'. malloc e = (True, e') \<and> allocs_ok e'"
  unfolding malloc_def allocs_ok_def by (cases "env_allocs e") auto

lemma member_okE:
  assumes "member_ok m"
  obtains a where "address m = Some a" "unat (address_len m) \<le> length a"
    "member_addr m = take (unat (address_len m)) a"
  using assms by (auto simp: member_ok_def member_addr_def split: option.splits)

lemma length_member_addr [simp]: "member_ok m \<Longrightarrow> length (member_addr m) = unat (address_len m)"
  by (auto elim!: member_okE)

lemma length_member_bytes [simp]:
  "member_ok m \<Longrightarrow> length (member_bytes m) = 10 + unat (address_len m)"
  by (simp add: member_bytes_def)

lemma cluster_member_equals_eq:
  assumes "member_ok a" "member_ok b"
  shows "cluster_member_equals a b = Some (member_key a = member_key b)"
  using assms
  by (auto simp: cluster_member_equals_def member_key_def memcmp_eq_Some elim!: member_okE)

lemma cluster_member_copy_ok:
  assumes "member_ok m" "allocs_ok e"
  shows "\<exists>e'. cluster_member_copy e m =
           Some (PITTACUS_ERR_NONE, m\<lparr>address := Some (member_addr m)\<rparr>, e') \<and> allocs_ok e'"
proof -
  obtain e' where "malloc e = (True, e')" "allocs_ok e'" using malloc_ok [OF assms(2)] by blast
  then show ?thesis
    using assms(1) by (auto simp: cluster_member_copy_def mem_read_def elim!: member_okE)
qed

lemma member_ok_copy: "member_ok m \<Longrightarrow> member_ok (m\<lparr>address := Some (member_addr m)\<rparr>)"
  by (simp add: member_ok_def [of "m\<lparr>address := _\<rparr>"])

lemma member_key_copy: "member_ok m \<Longrightarrow> member_key (m\<lparr>address := Some (member_addr m @ rest)\<rparr>) = member_key m"
  by (simp add: member_key_def member_addr_def [of "m\<lparr>address := _\<rparr>"])

lemma cluster_member_encode_write [codec_simps]:
  assumes "member_ok m"
  shows "cluster_member_encode m buffer off n =
           (if n < 10 + unat (address_len m) then Some (Inl PITTACUS_ERR_BUFFER_NOT_ENOUGH, buffer)
            else do {
              b \<leftarrow> mem_write buffer off (member_bytes m);
              Some (Inr (10 + unat (address_len m)), b)
            })"
  using assms
  by (auto simp: cluster_member_encode_def member_bytes_def mem_read_def codec_simps mem_simps
      elim!: member_okE)

lemma cluster_member_decode_bytes [codec_simps]:
  assumes "member_ok m" "10 \<le> n"
  shows "cluster_member_decode (member_bytes m @ rest) n =
           Some (Inr (10 + unat (address_len m), m\<lparr>address := Some (member_addr m @ rest)\<rparr>))"
  using assms by (simp add: cluster_member_decode_def member_bytes_def codec_simps)

section \<open>Growing the set\<close>

lemma extend_capacity_terminates:
  assumes "0 < cap" "required < 3 * 2 ^ 29"
  shows "\<exists>c. extend_capacity required cap = Some c \<and> \<not> over_load_factor required c \<and> cap \<le> c
           \<and> (cap < 2 ^ 32 \<longrightarrow> c < 2 ^ 32)"
  using assms
proof (induction "2 ^ 31 - cap" arbitrary: cap rule: less_induct)
  case less
  show ?case
  proof (cases "over_load_factor required cap")
    case True
    then have small: "cap < 2 ^ 31" using less.prems by (simp add: over_load_factor_def)
    then have m: "cap * 2 mod 2 ^ 32 = cap * 2" by simp
    have "2 ^ 31 - cap * 2 < 2 ^ 31 - cap" using small less.prems by simp
    then obtain c where "extend_capacity required (cap * 2) = Some c"
      "\<not> over_load_factor required c" "cap * 2 \<le> c" "cap * 2 < 2 ^ 32 \<longrightarrow> c < 2 ^ 32"
      using less.hyps [of "cap * 2"] less.prems by auto
    then show ?thesis using True m small by (subst extend_capacity.simps) auto
  next
    case False
    then show ?thesis by (subst extend_capacity.simps) auto
  qed
qed

lemma copy_slots:
  assumes "n \<le> length old" "n \<le> cap" and "\<forall>p \<in> set (take n old). p \<noteq> None"
  shows "for_loop 0 n (\<lambda>i new. do {
             p \<leftarrow> arr_get old i;
             if p \<noteq> None then arr_set new i p else Some new
           }) (replicate cap None) = Some (take n old @ replicate (cap - n) None)"
proof -
  let ?I = "\<lambda>k new. new = take k old @ replicate (cap - k) None"
  have "\<exists>t'. (arr_get old k \<bind> (\<lambda>p. if p \<noteq> None then arr_set t k p else Some t)) = Some t'
          \<and> ?I (Suc k) t'" if "0 \<le> k" "k < n" "?I k t" for k t
  proof -
    have k: "k < length old" "k < cap" using that assms by auto
    have "old ! k \<in> set (take n old)" using that assms(1) by (auto simp: in_set_conv_nth)
    then have "old ! k \<noteq> None" using assms(3) by blast
    moreover have "t[k := old ! k] = take (Suc k) old @ replicate (cap - Suc k) None"
      using that(3) k nth_append_replicate_update [of 0 "cap - k" "take k old" None "old ! k"]
      by (simp add: take_Suc_conv_app_nth)
    ultimately show ?thesis using k that(3) by (simp add: arr_get_def arr_set_def)
  qed
  from for_loop_total [where I = ?I and i = 0 and n = n, OF _ _ this]
  show ?thesis by auto
qed

lemma members_inv_slots:
  assumes "members_inv s"
  shows "\<forall>p \<in> set (take (ms_size s) (ms_set s)). p \<noteq> None"
proof
  fix p assume "p \<in> set (take (ms_size s) (ms_set s))"
  then have "case p of None \<Rightarrow> False | Some m \<Rightarrow> member_ok m"
    using assms unfolding members_inv_def by blast
  then show "p \<noteq> None" by (cases p) auto
qed

lemma members_inv_slot:
  assumes "members_inv s" "i < ms_size s"
  shows "ms_set s ! i = Some (ms_list s ! i)" "member_ok (ms_list s ! i)" "i < length (ms_set s)"
    "ms_list s ! i \<in> set (ms_list s)"
proof -
  have i: "i < length (ms_set s)" using assms by (auto simp: members_inv_def)
  then have "ms_set s ! i \<in> set (take (ms_size s) (ms_set s))"
    using assms(2) by (auto simp: in_set_conv_nth)
  then have "case ms_set s ! i of None \<Rightarrow> False | Some m \<Rightarrow> member_ok m"
    using assms(1) unfolding members_inv_def by blast
  with i assms(2) show "ms_set s ! i = Some (ms_list s ! i)" "member_ok (ms_list s ! i)"
    by (auto simp: ms_list_def split: option.splits)
  show "i < length (ms_set s)" by (rule i)
  show "ms_list s ! i \<in> set (ms_list s)"
    using i assms(2) by (intro nth_mem) (simp add: ms_list_def)
qed

lemma length_ms_list: "members_inv s \<Longrightarrow> length (ms_list s) = ms_size s"
  by (auto simp: members_inv_def ms_list_def)

lemma cluster_member_set_extend_ok:
  assumes "members_inv s" "allocs_ok e" "ms_size s \<le> required" "required < 3 * 2 ^ 29"
  shows "\<exists>s' e'. cluster_member_set_extend e s required = Some (Some s', e') \<and> allocs_ok e'
           \<and> members_inv s' \<and> ms_list s' = ms_list s \<and> ms_size s' = ms_size s
           \<and> ms_capacity s \<le> ms_capacity s' \<and> \<not> over_load_factor required (ms_capacity s')"
proof -
  obtain c where c: "extend_capacity required (ms_capacity s) = Some c"
    "\<not> over_load_factor required c" "ms_capacity s \<le> c" "c < 2 ^ 32"
    using extend_capacity_terminates [of "ms_capacity s" required] assms(1,4)
    by (auto simp: members_inv_def)
  obtain e' where e': "malloc e = (True, e')" "allocs_ok e'" using malloc_ok [OF assms(2)] by blast
  have n: "ms_size s \<le> length (ms_set s)" "ms_size s \<le> c"
    using assms(1) c(3) by (auto simp: members_inv_def)
  let ?s' = "s\<lparr>ms_capacity := c,
              ms_set := take (ms_size s) (ms_set s) @ replicate (c - ms_size s) None\<rparr>"
  have "cluster_member_set_extend e s required = Some (Some ?s', e')"
    using copy_slots [OF n members_inv_slots [OF assms(1)]]
    by (simp add: cluster_member_set_extend_def c(1) e'(1))
  moreover have eq: "ms_list ?s' = ms_list s"
    using n by (simp add: ms_list_def)
  moreover have "members_inv ?s'"
    using assms(1) c n eq by (auto simp: members_inv_def ms_keys_def)
  ultimately show ?thesis using e'(2) c by auto
qed

section \<open>Adding members\<close>

lemma set_add_new [simp]: "set (add_new ks xs) = set ks \<union> set xs"
  by (induction ks xs rule: add_new.induct) auto

lemma distinct_add_new: "distinct ks \<Longrightarrow> distinct (add_new ks xs)"
  by (induction ks xs rule: add_new.induct) auto

lemma length_add_new: "length ks \<le> length (add_new ks xs)" "length (add_new ks xs) \<le> length ks + length xs"
proof -
  show "length ks \<le> length (add_new ks xs)"
  proof (induction ks xs rule: add_new.induct)
    case (2 ks x xs)
    then show ?case by (auto split: if_splits)
  qed simp
  show "length (add_new ks xs) \<le> length ks + length xs"
  proof (induction ks xs rule: add_new.induct)
    case (2 ks x xs)
    then show ?case by (auto split: if_splits)
  qed simp
qed

lemma add_new_known: "set xs \<subseteq> set ks \<Longrightarrow> add_new ks xs = ks"
  by (induction ks xs rule: add_new.induct) auto

lemma find_equal_member:
  assumes "members_inv s" "member_ok m"
  shows "\<exists>r. find_loop 0 (ms_size s) (\<lambda>i. do {
             p \<leftarrow> arr_get (ms_set s) i;
             m' \<leftarrow> p;
             cluster_member_equals m' m
           }) = Some r \<and> (r = None \<longleftrightarrow> member_key m \<notin> set (ms_keys s))"
proof -
  let ?P = "\<lambda>i. member_key (ms_list s ! i) = member_key m"
  have "find_loop 0 (ms_size s) (\<lambda>i. do {
      p \<leftarrow> arr_get (ms_set s) i; m' \<leftarrow> p; cluster_member_equals m' m }) = Some (List.find ?P [0..<ms_size s])"
    using assms
    by (intro find_loop_eq_find) (simp add: members_inv_slot arr_get_in cluster_member_equals_eq)
  moreover have "List.find ?P [0..<ms_size s] = None \<longleftrightarrow> member_key m \<notin> set (ms_keys s)"
  proof -
    have "ms_keys s = map (\<lambda>i. member_key (ms_list s ! i)) [0..<ms_size s]"
      using length_ms_list [OF assms(1)] by (intro nth_equalityI) (auto simp: ms_keys_def)
    then show ?thesis by (simp only: find_None_map)
  qed
  ultimately show ?thesis by simp
qed

lemma members_inv_push:
  assumes inv: "members_inv s" and room: "ms_size s < ms_capacity s"
    and m: "member_ok m" "member_key m \<notin> set (ms_keys s)"
  defines "s' \<equiv> s\<lparr>ms_set := (ms_set s)[ms_size s := Some m], ms_size := ms_size s + 1\<rparr>"
  shows "members_inv s'" "ms_keys s' = ms_keys s @ [member_key m]" "ms_list s' = ms_list s @ [m]"
proof -
  have len: "ms_size s < length (ms_set s)" using inv room by (simp add: members_inv_def)
  then have t: "take (ms_size s') (ms_set s') = take (ms_size s) (ms_set s) @ [Some m]"
    by (simp add: s'_def take_Suc_update)
  then show l: "ms_list s' = ms_list s @ [m]" by (simp add: ms_list_def)
  then show k: "ms_keys s' = ms_keys s @ [member_key m]" by (simp add: ms_keys_def)
  have "length (ms_set s') = ms_capacity s' \<and> ms_size s' \<le> ms_capacity s'
      \<and> 0 < ms_capacity s' \<and> ms_capacity s' < 2 ^ 32"
    using inv room by (auto simp: members_inv_def s'_def)
  moreover have "\<forall>p \<in> set (take (ms_size s') (ms_set s')).
      case p of None \<Rightarrow> False | Some m \<Rightarrow> member_ok m"
    using inv m(1) unfolding t members_inv_def by auto
  moreover have "distinct (ms_keys s')"
    using inv m(2) unfolding k members_inv_def by auto
  ultimately show "members_inv s'" unfolding members_inv_def by blast
qed

lemma put_members_ok:
  assumes "members_inv s" "allocs_ok e" "\<forall>m \<in> set ms. member_ok m"
    "ms_size s + length ms \<le> ms_capacity s"
  shows "\<exists>s' e'. put_members e s ms = Some (PITTACUS_ERR_NONE, s', e') \<and> allocs_ok e'
           \<and> members_inv s' \<and> ms_keys s' = add_new (ms_keys s) (map member_key ms)
           \<and> ms_capacity s' = ms_capacity s \<and> ms_size s' \<le> ms_size s + length ms"
  using assms
proof (induction ms arbitrary: s e)
  case Nil
  then show ?case by auto
next
  case (Cons m ms)
  obtain r where r: "find_loop 0 (ms_size s) (\<lambda>i. do {
      p \<leftarrow> arr_get (ms_set s) i; m' \<leftarrow> p; cluster_member_equals m' m }) = Some r"
    and r_iff: "r = None \<longleftrightarrow> member_key m \<notin> set (ms_keys s)"
    using find_equal_member [of s m] Cons.prems by auto
  show ?case
  proof (cases "member_key m \<in> set (ms_keys s)")
    case True
    then have "put_members e s (m # ms) = put_members e s ms" using r r_iff by simp
    moreover have "\<exists>s' e'. put_members e s ms = Some (PITTACUS_ERR_NONE, s', e') \<and> allocs_ok e'
        \<and> members_inv s' \<and> ms_keys s' = add_new (ms_keys s) (map member_key ms)
        \<and> ms_capacity s' = ms_capacity s \<and> ms_size s' \<le> ms_size s + length ms"
      using Cons.prems by (intro Cons.IH) auto
    ultimately show ?thesis using True by auto
  next
    case False
    obtain e1 where e1: "malloc e = (True, e1)" "allocs_ok e1"
      using malloc_ok Cons.prems(2) by blast
    let ?m' = "m\<lparr>address := Some (member_addr m)\<rparr>"
    have m: "member_ok m" using Cons.prems by simp
    obtain e2 where e2: "cluster_member_copy e1 m = Some (PITTACUS_ERR_NONE, ?m', e2)" "allocs_ok e2"
      using cluster_member_copy_ok [OF m e1(2)] by blast
    let ?s1 = "s\<lparr>ms_set := (ms_set s)[ms_size s := Some ?m'], ms_size := ms_size s + 1\<rparr>"
    have key: "member_key ?m' = member_key m" using member_key_copy [OF m, of "[]"] by simp
    have room: "ms_size s < ms_capacity s" using Cons.prems by simp
    have push: "members_inv ?s1" "ms_keys ?s1 = ms_keys s @ [member_key m]"
      using members_inv_push [of s ?m'] Cons.prems(1) room m False key by (auto simp: member_ok_copy)
    have "ms_size s < length (ms_set s)" using Cons.prems(1) room by (simp add: members_inv_def)
    then have "put_members e s (m # ms) = put_members e2 ?s1 ms"
      using r r_iff False e1 e2 by (simp add: arr_set_in)
    moreover have "\<exists>s' e'. put_members e2 ?s1 ms = Some (PITTACUS_ERR_NONE, s', e') \<and> allocs_ok e'
        \<and> members_inv s' \<and> ms_keys s' = add_new (ms_keys ?s1) (map member_key ms)
        \<and> ms_capacity s' = ms_capacity ?s1 \<and> ms_size s' \<le> ms_size ?s1 + length ms"
      using Cons.prems push e2 by (intro Cons.IH) auto
    ultimately show ?thesis using False push by auto
  qed
qed

text \<open>
  \<^verbatim>\<open>cluster_member_set_put\<close> as a whole: it succeeds, keeps the invariant, adds exactly the
  missing members in order, and leaves the set below its load factor or as full as before.
\<close>

lemma cluster_member_set_put_ok:
  assumes "members_inv s" "allocs_ok e" "\<forall>m \<in> set ms. member_ok m"
    "ms_size s + length ms < 3 * 2 ^ 29"
  shows "\<exists>s' e'. cluster_member_set_put e s ms = Some (PITTACUS_ERR_NONE, s', e') \<and> allocs_ok e'
           \<and> members_inv s' \<and> ms_keys s' = add_new (ms_keys s) (map member_key ms)
           \<and> \<not> over_load_factor (ms_size s') (ms_capacity s')"
proof -
  let ?n = "ms_size s + length ms"
  have n: "?n mod 2 ^ 32 = ?n" using assms(4) by simp
  have load: "ms_size s' \<le> ?n \<Longrightarrow> \<not> over_load_factor ?n c \<Longrightarrow> \<not> over_load_factor (ms_size s') c" for s' c
    by (simp add: over_load_factor_def)
  have fits: "\<not> over_load_factor ?n c \<Longrightarrow> ?n \<le> c" for c by (simp add: over_load_factor_def)
  show ?thesis
  proof (cases "over_load_factor ?n (ms_capacity s)")
    case True
    obtain s1 e1 where s1: "cluster_member_set_extend e s ?n = Some (Some s1, e1)" "allocs_ok e1"
      "members_inv s1" "ms_list s1 = ms_list s" "ms_size s1 = ms_size s"
      "\<not> over_load_factor ?n (ms_capacity s1)"
      using cluster_member_set_extend_ok [OF assms(1,2) _ assms(4)] by (auto simp: le_add1)
    then obtain s' e' where "put_members e1 s1 ms = Some (PITTACUS_ERR_NONE, s', e')" "allocs_ok e'"
      "members_inv s'" "ms_keys s' = add_new (ms_keys s) (map member_key ms)"
      "ms_capacity s' = ms_capacity s1" "ms_size s' \<le> ?n"
      using put_members_ok [OF s1(3,2) assms(3)] fits [of "ms_capacity s1"]
      by (auto simp: ms_keys_def)
    then show ?thesis
      using True s1 n load by (auto simp: cluster_member_set_put_def)
  next
    case False
    then obtain s' e' where "put_members e s ms = Some (PITTACUS_ERR_NONE, s', e')" "allocs_ok e'"
      "members_inv s'" "ms_keys s' = add_new (ms_keys s) (map member_key ms)"
      "ms_capacity s' = ms_capacity s" "ms_size s' \<le> ?n"
      using put_members_ok [OF assms(1,2,3)] fits [of "ms_capacity s"] by auto
    then show ?thesis using False n load by (auto simp: cluster_member_set_put_def)
  qed
qed

section \<open>Removing members\<close>

lemma remove_first_split:
  assumes "i < length xs" "P (xs ! i)" "\<forall>j<i. \<not> P (xs ! j)"
  shows "remove_first P xs = take i xs @ drop (Suc i) xs"
  using assms
proof (induction xs arbitrary: i)
  case (Cons x xs)
  show ?case
  proof (cases i)
    case (Suc k)
    have "\<not> P x" using Cons.prems(3) [rule_format, of 0] Suc by simp
    moreover have "\<forall>j<k. \<not> P (xs ! j)" using Cons.prems(3) Suc by auto
    ultimately show ?thesis using Cons Suc by simp
  qed (use Cons in simp)
qed simp

lemma remove_first_none: "\<forall>x \<in> set xs. \<not> P x \<Longrightarrow> remove_first P xs = xs"
  by (induction xs) auto

lemma remove_first_cong: "(\<And>x. x \<in> set xs \<Longrightarrow> P x = Q x) \<Longrightarrow> remove_first P xs = remove_first Q xs"
  by (induction xs) auto

lemma set_remove_first_subset: "set (remove_first P xs) \<subseteq> set xs"
  by (induction xs) auto

lemma pred32_pos [simp]: "0 < n \<Longrightarrow> n < 2 ^ 32 \<Longrightarrow> pred32 n = n - 1"
  by (cases n) (simp_all add: pred32_def)

text \<open>Moving the elements behind a position forward by one.\<close>

lemma shift_slots:
  assumes "idx < n" "n \<le> length old"
  shows "\<exists>slots. for_loop idx (n - 1) (\<lambda>i t. do { p \<leftarrow> arr_get t (i + 1); arr_set t i p }) old = Some slots
           \<and> length slots = length old \<and> take (n - 1) slots = take idx old @ drop (Suc idx) (take n old)"
proof -
  let ?I = "\<lambda>k sl. length sl = length old
     \<and> (\<forall>j < length old. sl ! j = (if idx \<le> j \<and> j < k then old ! Suc j else old ! j))"
  let ?body = "\<lambda>i t. arr_get t (i + 1) \<bind> arr_set t i"
  have "\<exists>t'. ?body k t = Some t' \<and> ?I (Suc k) t'" if "idx \<le> k" "k < n - 1" "?I k t" for k t
    using that assms by (auto simp: nth_list_update less_Suc_eq arr_get_def arr_set_def)
  then have "\<exists>sl. for_loop idx (n - 1) ?body old = Some sl \<and> ?I (n - 1) sl"
    using assms by (intro for_loop_total [where I = ?I]) auto
  then obtain slots where slots: "for_loop idx (n - 1) ?body old = Some slots" "?I (n - 1) slots" by blast
  have "take (n - 1) slots = take idx old @ drop (Suc idx) (take n old)"
  proof (rule nth_equalityI)
    have len: "n - 1 \<le> length slots" "length slots = length old" using slots(2) assms by auto
    then show "length (take (n - 1) slots) = length (take idx old @ drop (Suc idx) (take n old))"
      using assms by simp
    fix i assume "i < length (take (n - 1) slots)"
    then have "i < n - 1" "i < length old" using len by auto
    then show "take (n - 1) slots ! i = (take idx old @ drop (Suc idx) (take n old)) ! i"
      using slots(2) assms by (auto simp: nth_append)
  qed
  then show ?thesis using slots by blast
qed

lemma cluster_member_set_shift_ok:
  assumes "idx < ms_size s" "ms_size s \<le> length (ms_set s)" "ms_size s < 2 ^ 32"
  shows "\<exists>slots. cluster_member_set_shift s idx = Some (s\<lparr>ms_set := slots, ms_size := ms_size s - 1\<rparr>)
           \<and> length slots = length (ms_set s)
           \<and> take (ms_size s - 1) slots = take idx (ms_set s) @ drop (Suc idx) (take (ms_size s) (ms_set s))"
  using shift_slots [OF assms(1,2)] assms by (auto simp: cluster_member_set_shift_def)

text \<open>
  Removal by address, when every stored address and the one searched for are at least
  \<open>n\<close> bytes long: the first member whose address starts with these \<open>n\<close> bytes goes.
\<close>

definition addr_prefix :: "nat \<Rightarrow> u8 list \<Rightarrow> cluster_member \<Rightarrow> bool" where
  "addr_prefix n addr m \<longleftrightarrow> take n (the (address m)) = take n addr"

definition addr_readable :: "nat \<Rightarrow> cluster_member_set \<Rightarrow> bool" where
  "addr_readable n s \<longleftrightarrow> (\<forall>m \<in> set (ms_list s). n \<le> length (the (address m)))"

lemma addr_matches_ok:
  assumes "members_inv s" "addr_readable n s" "n \<le> length addr" "i < ms_size s"
  shows "addr_matches s addr n i = Some (addr_prefix n addr (ms_list s ! i))"
proof -
  obtain a where a: "address (ms_list s ! i) = Some a"
    using members_inv_slot(2) [OF assms(1,4)] by (rule member_okE)
  moreover have "n \<le> length a"
    using assms(2) members_inv_slot(4) [OF assms(1,4)] a by (force simp: addr_readable_def)
  ultimately show ?thesis
    using assms members_inv_slot [OF assms(1,4)]
    by (simp add: addr_matches_def arr_get_in memcmp_eq_Some addr_prefix_def)
qed

lemma members_inv_remove:
  assumes "members_inv s" "i < ms_size s" "length slots = length (ms_set s)"
    "take (ms_size s - 1) slots = take i (ms_set s) @ drop (Suc i) (take (ms_size s) (ms_set s))"
  defines "s' \<equiv> s\<lparr>ms_set := slots, ms_size := ms_size s - 1\<rparr>"
  shows "members_inv s'" "ms_list s' = take i (ms_list s) @ drop (Suc i) (ms_list s)"
proof -
  have t: "take (ms_size s') (ms_set s') = take i (ms_set s) @ drop (Suc i) (take (ms_size s) (ms_set s))"
    using assms(4) by (simp add: s'_def)
  then show l: "ms_list s' = take i (ms_list s) @ drop (Suc i) (ms_list s)"
    using assms(2) by (simp add: ms_list_def take_map drop_map min_def)
  have sub: "set (take (ms_size s') (ms_set s')) \<subseteq> set (take (ms_size s) (ms_set s))"
    using assms(2) unfolding t
    by (auto dest: in_set_dropD intro: set_take_subset_set_take [THEN subsetD, of i "ms_size s"])
  have "distinct (ms_keys s')"
  proof -
    have "ms_keys s' = take i (ms_keys s) @ drop (Suc i) (ms_keys s)"
      by (simp add: ms_keys_def l take_map drop_map)
    moreover have "distinct (ms_keys s)" using assms(1) by (simp add: members_inv_def)
    ultimately show ?thesis
      by (auto simp: distinct_append set_take_disj_set_drop_if_distinct)
  qed
  moreover have "\<forall>p \<in> set (take (ms_size s') (ms_set s')).
      case p of None \<Rightarrow> False | Some m \<Rightarrow> member_ok m"
    using sub assms(1) unfolding members_inv_def by blast
  moreover have "length (ms_set s') = ms_capacity s' \<and> ms_size s' \<le> ms_capacity s'
      \<and> 0 < ms_capacity s' \<and> ms_capacity s' < 2 ^ 32"
    using assms(1,3) by (auto simp: members_inv_def s'_def)
  ultimately show "members_inv s'" unfolding members_inv_def by blast
qed

lemma cluster_member_set_remove_by_addr_ok:
  assumes "members_inv s" "addr_readable n s" "n \<le> length addr"
  shows "\<exists>s'. cluster_member_set_remove_by_addr s addr n =
           Some (\<exists>m \<in> set (ms_list s). addr_prefix n addr m, s')
           \<and> members_inv s' \<and> ms_list s' = remove_first (addr_prefix n addr) (ms_list s)"
proof -
  let ?P = "\<lambda>i. addr_prefix n addr (ms_list s ! i)"
  have find: "find_loop 0 (ms_size s) (addr_matches s addr n) = Some (List.find ?P [0..<ms_size s])"
    using addr_matches_ok [OF assms] by (intro find_loop_eq_find) auto
  note len = length_ms_list [OF assms(1)]
  show ?thesis
  proof (cases "List.find ?P [0..<ms_size s]")
    case None
    then have "\<forall>m \<in> set (ms_list s). \<not> addr_prefix n addr m"
      using len by (auto simp: find_upt_None_iff in_set_conv_nth)
    then show ?thesis
      using find None assms(1)
      by (auto simp: cluster_member_set_remove_by_addr_def remove_first_none)
  next
    case (Some i)
    then have i: "i < ms_size s" "?P i" "\<forall>j<i. \<not> ?P j" by (auto simp: find_upt_Some_iff)
    have "ms_size s \<le> length (ms_set s)" "ms_size s < 2 ^ 32"
      using assms(1) by (auto simp: members_inv_def)
    then obtain slots where slots:
      "cluster_member_set_shift s i = Some (s\<lparr>ms_set := slots, ms_size := ms_size s - 1\<rparr>)"
      "length slots = length (ms_set s)"
      "take (ms_size s - 1) slots = take i (ms_set s) @ drop (Suc i) (take (ms_size s) (ms_set s))"
      using cluster_member_set_shift_ok [OF i(1)] by blast
    have "\<exists>m \<in> set (ms_list s). addr_prefix n addr m"
      using i len by (auto intro!: bexI [of _ "ms_list s ! i"])
    moreover have "remove_first (addr_prefix n addr) (ms_list s)
        = take i (ms_list s) @ drop (Suc i) (ms_list s)"
      using i len by (intro remove_first_split) auto
    ultimately show ?thesis
      using find Some slots members_inv_remove [OF assms(1) i(1) slots(2,3)]
      by (simp add: cluster_member_set_remove_by_addr_def)
  qed
qed

section \<open>Sampling\<close>

lemma fill_reservoir:
  assumes "k \<le> length slots"
  shows "for_loop 0 k (\<lambda>i res. do { p \<leftarrow> arr_get slots i; Some (res @ [p]) }) [] = Some (take k slots)"
proof -
  have "\<exists>t'. (arr_get slots i \<bind> (\<lambda>p. Some (t @ [p]))) = Some t' \<and> t' = take (Suc i) slots"
    if "0 \<le> i" "i < k" "t = take i slots" for i t
    using that assms by (simp add: take_Suc_conv_app_nth arr_get_def)
  from for_loop_total [where I = "\<lambda>i t. t = take i slots" and i = 0 and n = k, OF _ _ this]
  show ?thesis by auto
qed

text \<open>
  Whatever the random source answers, the sample consists of \<open>min size k\<close> members from
  distinct positions of the set.
\<close>

lemma cluster_member_set_random_members_ok:
  assumes "ms_size s \<le> length (ms_set s)"
  shows "\<exists>idxs e'. cluster_member_set_random_members e s k = Some (map ((!) (ms_set s)) idxs, e')
           \<and> distinct idxs \<and> set idxs \<subseteq> {..<ms_size s} \<and> length idxs = min (ms_size s) k
           \<and> env_allocs e' = env_allocs e \<and> env_wire e' = env_wire e \<and> env_app e' = env_app e"
proof (cases "ms_size s = 0")
  case True
  then show ?thesis by (auto simp: cluster_member_set_random_members_def intro!: exI [of _ "[]"])
next
  case False
  let ?slots = "ms_set s"
  let ?a = "if ms_size s > k then k else ms_size s"
  let ?body = "\<lambda>member_idx (reservoir, e). do {
            let (r, e) = pt_random e;
            let random_idx = unat r mod (member_idx + 1);
            if random_idx < ?a
            then do {
              p \<leftarrow> arr_get ?slots member_idx;
              reservoir \<leftarrow> arr_set reservoir random_idx p;
              Some (reservoir, e)
            }
            else Some (reservoir, e)
          }"
  let ?I = "\<lambda>j (res, e'). env_allocs e' = env_allocs e \<and> env_wire e' = env_wire e \<and> env_app e' = env_app e
     \<and> (\<exists>idxs. res = map ((!) ?slots) idxs \<and> distinct idxs \<and> set idxs \<subseteq> {..<j} \<and> length idxs = ?a)"
  have step: "\<exists>t'. ?body j t = Some t' \<and> ?I (Suc j) t'"
    if j: "?a \<le> j" "j < ms_size s" "?I j t" for j t
  proof -
    obtain res e1 where t: "t = (res, e1)" by (cases t)
    from j(3) t obtain idxs where idxs: "res = map ((!) ?slots) idxs" "distinct idxs"
      "set idxs \<subseteq> {..<j}" "length idxs = ?a" "env_allocs e1 = env_allocs e" "env_wire e1 = env_wire e"
      "env_app e1 = env_app e"
      by auto
    obtain r e2 where r: "pt_random e1 = (r, e2)" by (cases "pt_random e1")
    then have e2: "env_allocs e2 = env_allocs e" "env_wire e2 = env_wire e" "env_app e2 = env_app e"
      using idxs by (auto simp: pt_random_def)
    let ?q = "unat r mod (j + 1)"
    show ?thesis
    proof (cases "?q < ?a")
      case True
      have "j \<notin> set idxs" using idxs(3) by auto
      then have "distinct (idxs[?q := j])" using idxs(2) by (simp add: distinct_list_update)
      moreover have "set (idxs[?q := j]) \<subseteq> {..<Suc j}"
        using idxs(3) set_update_subset_insert [of idxs ?q j] by (auto simp: less_Suc_eq)
      moreover have "(map ((!) ?slots) idxs)[?q := ?slots ! j] = map ((!) ?slots) (idxs[?q := j])"
        by (simp add: map_update)
      ultimately show ?thesis
        using True t idxs r e2 j assms
        by (auto simp: arr_get_def arr_set_def intro!: exI [of _ "idxs[?q := j]"])
    next
      case False
      moreover have "set idxs \<subseteq> {..<Suc j}" using idxs(3) by (auto simp: less_Suc_eq)
      ultimately show ?thesis using t idxs r e2 by auto
    qed
  qed
  have "?I ?a (take ?a ?slots, e)"
    using assms by (auto intro!: exI [of _ "[0..<?a]"] simp: map_nth_upt_take)
  then have "\<exists>t. for_loop ?a (ms_size s) ?body (take ?a ?slots, e) = Some t \<and> ?I (ms_size s) t"
    using step by (intro for_loop_total [where I = ?I]) auto
  then obtain t where t: "for_loop ?a (ms_size s) ?body (take ?a ?slots, e) = Some t" "?I (ms_size s) t"
    by blast
  obtain res e' where "t = (res, e')" by (cases t)
  with t have loop: "for_loop ?a (ms_size s) ?body (take ?a ?slots, e) = Some (res, e')"
    and I: "?I (ms_size s) (res, e')" by simp_all
  have "for_loop 0 ?a (\<lambda>i res. do { p \<leftarrow> arr_get ?slots i; Some (res @ [p]) }) [] = Some (take ?a ?slots)"
    using assms by (intro fill_reservoir) auto
  then have "cluster_member_set_random_members e s k = Some (res, e')"
    using False loop by (simp only: cluster_member_set_random_members_def Let_def if_False bind.bind_lunit)
  moreover have "?a = min (ms_size s) k" by (simp add: min_def)
  ultimately show ?thesis using I by auto
qed

section \<open>Properties\<close>

text \<open>A member with an IPv4 address, an environment in which every allocation succeeds, and an empty set.\<close>

definition ex_addr :: "u8 list" where
  "ex_addr = [2, 0, 0x1F, 0x90, 127, 0, 0, 1, 0, 0, 0, 0, 0, 0, 0, 0]"

definition ex_member :: cluster_member where
  "ex_member = \<lparr>version = 1, uid = 7, address_len = 16, address = Some ex_addr\<rparr>"

definition ex_env :: env where
  "ex_env = \<lparr>env_allocs = sconst True, env_randoms = sconst 0, env_clock = sconst (5, 0),
             env_sends = sconst 1, env_recvs = sconst Recv_Error, env_wire = [], env_app = []\<rparr>"

definition ex_set :: cluster_member_set where
  "ex_set = \<lparr>ms_set = Some ex_member # replicate 31 None, ms_size = 1, ms_capacity = 32\<rparr>"

lemma ex_member_ok [simp]: "member_ok ex_member" "address_len ex_member = 16" "length ex_addr = 16"
  by (simp_all add: member_ok_def ex_member_def ex_addr_def)

lemma ex_env_ok [simp]: "allocs_ok ex_env"
  by (simp add: allocs_ok_def ex_env_def)

lemma ex_set_ok [simp]: "members_inv ex_set" "ms_list ex_set = [ex_member]" "ms_size ex_set = 1"
  by (simp_all add: members_inv_def ms_keys_def ms_list_def ex_set_def)

text \<open>Evaluation of the arithmetic on 32 bits in the member set by words; \<open>2 ^ 32\<close> is out of reach for unary numbers.\<close>

lemma mod_2_32_word: "n mod 2 ^ 32 = unat (of_nat n :: u32)"
  by (simp add: unat_of_nat)

lemma cluster_member_set_put_code [code]:
  "cluster_member_set_put e s ms =
     (let new_size = unat (of_nat (ms_size s + length ms) :: u32)
      in if over_load_factor new_size (ms_capacity s)
         then do {
           (extended, e) \<leftarrow> cluster_member_set_extend e s new_size;
           case extended of
             None \<Rightarrow> Some (PITTACUS_ERR_ALLOCATION_FAILED, s, e)
           | Some s \<Rightarrow> put_members e s ms
         }
         else put_members e s ms)"
  unfolding cluster_member_set_put_def mod_2_32_word ..

lemma pred32_code [code]: "pred32 n = unat (of_nat n - 1 :: u32)"
proof -
  have "of_nat (n + (2 ^ 32 - 1)) = (of_nat n - 1 :: u32)" by simp
  then show ?thesis unfolding pred32_def mod_2_32_word by (rule arg_cong)
qed

text \<open>A well-formed member that is encoded into a buffer of sufficient size is decoded from it
  as a member with the same version, uid and address, and both report the same number of bytes.\<close>

lemma member_wire_roundtrip:
  assumes "member_ok m" "10 + unat (address_len m) \<le> n" "off + n \<le> length buffer"
  shows "\<exists>b k m'. cluster_member_encode m buffer off n = Some (Inr k, b)
           \<and> cluster_member_decode (drop off b) n = Some (Inr (k, m'))
           \<and> member_ok m' \<and> member_key m' = member_key m"
proof -
  let ?rest = "drop (off + (10 + unat (address_len m))) buffer"
  let ?b = "take off buffer @ member_bytes m @ ?rest"
  have "mem_write buffer off (member_bytes m) = Some ?b" using assms by (simp add: mem_write_def)
  moreover have "drop off ?b = member_bytes m @ ?rest" using assms by simp
  moreover have "member_ok (m\<lparr>address := Some (member_addr m @ ?rest)\<rparr>)"
    using assms(1) by (simp add: member_ok_def [of "m\<lparr>address := _\<rparr>"])
  ultimately show ?thesis
    using assms cluster_member_decode_bytes [OF assms(1), of n ?rest] member_key_copy [OF assms(1), of ?rest]
    by (auto simp: cluster_member_encode_write)
qed


text \<open>C21. \<^verbatim>\<open>cluster_member_set_put\<close> on a valid set succeeds when allocation does: it grows the array if
  the load factor demands it, adds exactly the members that are not there yet, in their order and
  once each, and the result is a valid set below its load factor.\<close>

theorem member_set_put_adds_missing:
  assumes "members_inv s" "allocs_ok e" "\<forall>m \<in> set ms. member_ok m" "ms_size s + length ms < 3 * 2 ^ 29"
  shows "\<exists>s' e'. cluster_member_set_put e s ms = Some (PITTACUS_ERR_NONE, s', e') \<and> members_inv s'
           \<and> ms_keys s' = add_new (ms_keys s) (map member_key ms)
           \<and> \<not> over_load_factor (ms_size s') (ms_capacity s')"
  using cluster_member_set_put_ok [OF assms] by blast

theorem member_set_put_adds_missing_witness:
  "\<exists>s' e'. cluster_member_set_put ex_env ex_set [ex_member\<lparr>uid := 8\<rparr>, ex_member] = Some (PITTACUS_ERR_NONE, s', e')
     \<and> members_inv s'
     \<and> ms_keys s' = add_new (ms_keys ex_set) (map member_key [ex_member\<lparr>uid := 8\<rparr>, ex_member])
     \<and> \<not> over_load_factor (ms_size s') (ms_capacity s')"
  by (rule member_set_put_adds_missing) (simp_all add: member_ok_def ex_member_def)

text \<open>C35. Removal by address on a valid set whose addresses are long enough to be compared removes
  the first member whose address starts with the given bytes, reports whether there was one, and
  keeps the set valid.\<close>

theorem member_set_remove_first_match:
  assumes "members_inv s" "addr_readable n s" "n \<le> length addr"
  shows "\<exists>s'. cluster_member_set_remove_by_addr s addr n =
             Some (\<exists>m \<in> set (ms_list s). addr_prefix n addr m, s')
           \<and> members_inv s' \<and> ms_list s' = remove_first (addr_prefix n addr) (ms_list s)"
  using cluster_member_set_remove_by_addr_ok [OF assms] .

theorem member_set_remove_first_match_witness:
  "\<exists>s'. cluster_member_set_remove_by_addr ex_set ex_addr 16 =
       Some (\<exists>m \<in> set (ms_list ex_set). addr_prefix 16 ex_addr m, s')
     \<and> members_inv s' \<and> ms_list s' = remove_first (addr_prefix 16 ex_addr) (ms_list ex_set)"
  by (rule member_set_remove_first_match) (simp_all add: addr_readable_def ex_member_def)

text \<open>C30. Whatever the random source answers, the members drawn by
  \<^verbatim>\<open>cluster_member_set_random_members\<close> are pairwise different members of the set, and there are
  as many as asked for, or all of them if the set is smaller.\<close>

theorem random_members_distinct:
  assumes "members_inv s"
  shows "\<exists>ms e'. cluster_member_set_random_members e s k = Some (map Some ms, e')
           \<and> length ms = min (ms_size s) k \<and> distinct (map member_key ms) \<and> set ms \<subseteq> set (ms_list s)"
proof -
  have "ms_size s \<le> length (ms_set s)" using assms by (auto simp: members_inv_def)
  then obtain idxs e' where r: "cluster_member_set_random_members e s k = Some (map ((!) (ms_set s)) idxs, e')"
    "distinct idxs" "set idxs \<subseteq> {..<ms_size s}" "length idxs = min (ms_size s) k"
    using cluster_member_set_random_members_ok by blast
  let ?ms = "map ((!) (ms_list s)) idxs"
  have "map ((!) (ms_set s)) idxs = map Some ?ms" using r(3) members_inv_slot(1) [OF assms] by auto
  moreover have "distinct (ms_keys s)" "length (ms_keys s) = ms_size s"
    using assms length_ms_list [OF assms] by (simp_all add: members_inv_def ms_keys_def)
  then have "inj_on ((!) (ms_keys s)) (set idxs)" by (intro inj_on_nth) (use r(3) in auto)
  then have "distinct (map ((!) (ms_keys s)) idxs)" using r(2) by (simp add: distinct_map)
  moreover have "map ((!) (ms_keys s)) idxs = map member_key ?ms"
    using r(3) length_ms_list [OF assms] by (auto simp: ms_keys_def)
  moreover have "set ?ms \<subseteq> set (ms_list s)" using r(3) length_ms_list [OF assms] by auto
  ultimately show ?thesis using r(1,4) by (intro exI [of _ ?ms] exI [of _ e']) simp
qed

theorem random_members_distinct_witness:
  "\<exists>ms e'. cluster_member_set_random_members ex_env ex_set 3 = Some (map Some ms, e')
     \<and> length ms = min (ms_size ex_set) 3 \<and> distinct (map member_key ms) \<and> set ms \<subseteq> set (ms_list ex_set)"
  by (rule random_members_distinct) simp

text \<open>\<^verbatim>\<open>cluster_member_set_put\<close> ignores the result of \<^verbatim>\<open>cluster_member_copy\<close>: if the member itself
  can be allocated but its address cannot, the call reports success and the set holds a member
  whose address is \<^verbatim>\<open>NULL\<close>, which no later comparison may look at.\<close>

lemma member_set_put_stores_null_address:
  assumes "members_inv s" "member_ok m" "member_key m \<notin> set (ms_keys s)"
    "\<not> over_load_factor (ms_size s + 1) (ms_capacity s)" "env_allocs e = True ## False ## rest"
  shows "\<exists>s' e'. cluster_member_set_put e s [m] = Some (PITTACUS_ERR_NONE, s', e')
           \<and> ms_set s' ! ms_size s = Some (m\<lparr>address := None\<rparr>) \<and> \<not> members_inv s'"
proof -
  have cap: "length (ms_set s) = ms_capacity s" "ms_capacity s < 2 ^ 32" using assms(1) by (auto simp: members_inv_def)
  have small: "ms_size s + 1 < ms_capacity s + 1" using assms(4) by (simp add: over_load_factor_def)
  then have n: "(ms_size s + length [m]) mod 2 ^ 32 = ms_size s + 1" using cap by simp
  obtain r where r: "find_loop 0 (ms_size s) (\<lambda>i. do {
      p \<leftarrow> arr_get (ms_set s) i; m' \<leftarrow> p; cluster_member_equals m' m }) = Some r" "r = None"
    using find_equal_member [OF assms(1,2)] assms(3) by auto
  let ?s = "s\<lparr>ms_set := (ms_set s)[ms_size s := Some (m\<lparr>address := None\<rparr>)], ms_size := ms_size s + 1\<rparr>"
  have "\<exists>e'. cluster_member_set_put e s [m] = Some (PITTACUS_ERR_NONE, ?s, e')"
    using assms(4,5) n r small cap
    by (simp add: cluster_member_set_put_def cluster_member_copy_def malloc_def arr_set_in Let_def)
  moreover have "ms_set ?s ! ms_size s = Some (m\<lparr>address := None\<rparr>)" using small cap by simp
  moreover have "\<not> members_inv ?s"
    using members_inv_slot(1,2) [of ?s "ms_size s"] small cap by (auto simp: member_ok_def)
  ultimately show ?thesis by blast
qed


end
