(* ===== verification/Pt_Vector_Clock.thy ===== *)
theory Pt_Vector_Clock
  imports Pt_Member "HOL-Library.Sublist"
begin

text \<open>
  \<^verbatim>\<open>vector_clock.c\<close>: the version of the data a node has seen.

  A clock is a fixed array of 20 records (originator, sequence number), filled in order and
  then overwritten in turn. Its abstraction \<open>vc_map\<close> is the finite map from originators to
  sequence numbers. Comparison visits the records of the first clock and marks the records of
  the second one it met in a 32-bit mask; the lemmas show that it computes the pointwise order
  of the maps (\<open>vc_compare_spec\<close>), and that merging computes the pointwise maximum.
\<close>

abbreviation (input) MAX_VECTOR_SIZE :: nat where "MAX_VECTOR_SIZE \<equiv> 20"
abbreviation (input) MEMBER_ID_SIZE :: nat where "MEMBER_ID_SIZE \<equiv> 8"
abbreviation (input) VECTOR_RECORD_SIZE :: nat where "VECTOR_RECORD_SIZE \<equiv> 4 + MEMBER_ID_SIZE"

type_synonym member_id_t = u64

record vector_record =
  sequence_number :: u32
  member_id :: member_id_t

record vector_clock =
  vc_size :: nat
  current_idx :: nat
  records :: "vector_record list"

datatype vector_clock_comp_res = VC_BEFORE | VC_AFTER | VC_EQUAL | VC_CONFLICT

section \<open>Operations\<close>

text \<open>
  The layout of \<^verbatim>\<open>struct sockaddr_in\<close> (family, port at 2, address at 4) and
  \<^verbatim>\<open>struct sockaddr_in6\<close> (port at 2, address at 8) on Linux.
\<close>

abbreviation (input) AF_INET :: u16 where "AF_INET \<equiv> 2"

definition vector_clock_create_member_id :: "cluster_member \<Rightarrow> member_id_t option" where
  "vector_clock_create_member_id member = do {
     addr \<leftarrow> address member;
     ss_family \<leftarrow> mem_read addr 0 2;
     addr_part \<leftarrow> (if word_of_mem ss_family = AF_INET then mem_read addr 4 4 else mem_read addr 8 4);
     port \<leftarrow> mem_read addr 2 2;
     let uid_network = PT_HTONL (uid member);
     Some (word_of_mem (addr_part @ port @ take 2 (mem_of_word uid_network)))
   }"

text \<open>The index of the record, \<open>Some None\<close> for \<^verbatim>\<open>PITTACUS_ERR_NOT_FOUND\<close>.\<close>

definition vector_clock_find_by_member_id :: "vector_clock \<Rightarrow> member_id_t \<Rightarrow> nat option option" where
  "vector_clock_find_by_member_id clock mid =
     find_loop 0 (vc_size clock) (\<lambda>i. do {
       r \<leftarrow> arr_get (records clock) i;
       Some (member_id r = mid)
     })"

definition vector_clock_find_record :: "vector_clock \<Rightarrow> cluster_member \<Rightarrow> nat option option" where
  "vector_clock_find_record clock member = do {
     mid \<leftarrow> vector_clock_create_member_id member;
     vector_clock_find_by_member_id clock mid
   }"

definition vector_clock_zero :: vector_clock where
  "vector_clock_zero =
     \<lparr>vc_size = 0, current_idx = 0,
      records = replicate MAX_VECTOR_SIZE \<lparr>sequence_number = 0, member_id = 0\<rparr>\<rparr>"

fun vector_clock_init :: "vector_clock option \<Rightarrow> pittacus_error \<times> vector_clock option" where
  "vector_clock_init None = (PITTACUS_ERR_INIT_FAILED, None)"
| "vector_clock_init (Some clock) = (PITTACUS_ERR_NONE, Some vector_clock_zero)"

text \<open>The operations that return a pointer to a record return its index.\<close>

definition vector_clock_set_by_id ::
  "vector_clock \<Rightarrow> member_id_t \<Rightarrow> u32 \<Rightarrow> (nat \<times> vector_clock) option" where
  "vector_clock_set_by_id clock mid seq_num = do {
     found \<leftarrow> vector_clock_find_by_member_id clock mid;
     case found of
       None \<Rightarrow> do {
         let new_idx = current_idx clock;
         recs \<leftarrow> arr_set (records clock) new_idx \<lparr>sequence_number = seq_num, member_id = mid\<rparr>;
         let size = (if vc_size clock < MAX_VECTOR_SIZE then vc_size clock + 1 else vc_size clock);
         let next = current_idx clock + 1;
         Some (new_idx,
               \<lparr>vc_size = size, current_idx = (if next \<ge> MAX_VECTOR_SIZE then 0 else next),
                records = recs\<rparr>)
       }
     | Some idx \<Rightarrow> do {
         r \<leftarrow> arr_get (records clock) idx;
         recs \<leftarrow> arr_set (records clock) idx (r\<lparr>sequence_number := seq_num\<rparr>);
         Some (idx, clock\<lparr>records := recs\<rparr>)
       }
   }"

definition vector_clock_increment ::
  "vector_clock \<Rightarrow> cluster_member \<Rightarrow> (nat option \<times> vector_clock) option" where
  "vector_clock_increment clock member = do {
     record \<leftarrow> vector_clock_find_record clock member;
     case record of
       None \<Rightarrow> Some (None, clock)
     | Some idx \<Rightarrow> do {
         r \<leftarrow> arr_get (records clock) idx;
         recs \<leftarrow> arr_set (records clock) idx (r\<lparr>sequence_number := sequence_number r + 1\<rparr>);
         Some (Some idx, clock\<lparr>records := recs\<rparr>)
       }
   }"

definition vector_clock_set ::
  "vector_clock \<Rightarrow> cluster_member \<Rightarrow> u32 \<Rightarrow> (nat \<times> vector_clock) option" where
  "vector_clock_set clock member seq_num = do {
     mid \<leftarrow> vector_clock_create_member_id member;
     vector_clock_set_by_id clock mid seq_num
   }"

definition vector_clock_record_copy :: "vector_record \<Rightarrow> vector_record \<Rightarrow> vector_record" where
  "vector_clock_record_copy dst src =
     dst\<lparr>member_id := member_id src, sequence_number := sequence_number src\<rparr>"

definition vector_clock_copy :: "vector_clock \<Rightarrow> vector_clock \<Rightarrow> vector_clock option" where
  "vector_clock_copy dst src = do {
     recs \<leftarrow> for_loop 0 (vc_size src) (\<lambda>i recs. do {
         s \<leftarrow> arr_get (records src) i;
         d \<leftarrow> arr_get recs i;
         arr_set recs i (vector_clock_record_copy d s)
       }) (records dst);
     Some (dst\<lparr>vc_size := vc_size src, current_idx := current_idx src, records := recs\<rparr>)
   }"

definition vector_clock_resolve_comp_result ::
  "vector_clock_comp_res \<Rightarrow> vector_clock_comp_res \<Rightarrow> vector_clock_comp_res" where
  "vector_clock_resolve_comp_result prev new =
     (if prev \<noteq> VC_EQUAL \<and> new \<noteq> prev then VC_CONFLICT else new)"

definition vector_clock_compare_with_record ::
  "vector_clock \<Rightarrow> vector_record \<Rightarrow> bool \<Rightarrow> (vector_clock_comp_res \<times> vector_clock) option" where
  "vector_clock_compare_with_record clock record merge = do {
     found \<leftarrow> vector_clock_find_by_member_id clock (member_id record);
     case found of
       None \<Rightarrow>
         if merge then do {
           (_, clock) \<leftarrow> vector_clock_set_by_id clock (member_id record) (sequence_number record);
           Some (VC_BEFORE, clock)
         }
         else Some (VC_BEFORE, clock)
     | Some idx \<Rightarrow> do {
         r \<leftarrow> arr_get (records clock) idx;
         let first_seq_num = sequence_number r;
         let second_seq_num = sequence_number record;
         if first_seq_num > second_seq_num then Some (VC_AFTER, clock)
         else if first_seq_num < second_seq_num then
           if merge then do {
             recs \<leftarrow> arr_set (records clock) idx (r\<lparr>sequence_number := second_seq_num\<rparr>);
             Some (VC_BEFORE, clock\<lparr>records := recs\<rparr>)
           }
           else Some (VC_BEFORE, clock)
         else Some (VC_EQUAL, clock)
       }
   }"

text \<open>\<^verbatim>\<open>1 << n\<close> on a 32-bit \<^verbatim>\<open>int\<close>: undefined from 31 on.\<close>

definition shift_one :: "nat \<Rightarrow> u32 option" where
  "shift_one n = (if n < 31 then Some (push_bit n 1) else None)"

text \<open>The body of the first loop of \<^verbatim>\<open>vector_clock_compare\<close>: result, visited mask, first clock.\<close>

definition compare_step ::
  "vector_clock \<Rightarrow> bool \<Rightarrow> nat \<Rightarrow> vector_clock_comp_res \<times> u32 \<times> vector_clock
     \<Rightarrow> (vector_clock_comp_res \<times> u32 \<times> vector_clock) option" where
  "compare_step second merge i = (\<lambda>(result, visited, first). do {
     r \<leftarrow> arr_get (records first) i;
     second_idx \<leftarrow> vector_clock_find_by_member_id second (member_id r);
     case second_idx of
       None \<Rightarrow> Some (vector_clock_resolve_comp_result result VC_AFTER, visited, first)
     | Some j \<Rightarrow> do {
         one \<leftarrow> shift_one j;
         let visited = visited OR one;
         r2 \<leftarrow> arr_get (records second) j;
         let first_seq_num = sequence_number r;
         let second_seq_num = sequence_number r2;
         if first_seq_num > second_seq_num
         then Some (vector_clock_resolve_comp_result result VC_AFTER, visited, first)
         else if second_seq_num > first_seq_num then do {
           let result = vector_clock_resolve_comp_result result VC_BEFORE;
           if merge then do {
             recs \<leftarrow> arr_set (records first) i (r\<lparr>sequence_number := second_seq_num\<rparr>);
             Some (result, visited, first\<lparr>records := recs\<rparr>)
           }
           else Some (result, visited, first)
         }
         else Some (result, visited, first)
       }
   })"

lemma drop_bit_1_less: "(w :: 'a::len word) \<noteq> 0 \<Longrightarrow> unat (drop_bit (Suc 0) w) < unat w"
  unfolding unat_drop_bit_eq by (simp add: drop_bit_eq_div unat_gt_0)

text \<open>Its second loop: \<^verbatim>\<open>for (i = 0; missing_idxs != 0; ++i)\<close>, shifting the mask.\<close>

function merge_missing :: "nat \<Rightarrow> u32 \<Rightarrow> vector_clock \<Rightarrow> vector_clock \<Rightarrow> vector_clock option" where
  "merge_missing i missing_idxs second first =
     (if missing_idxs = 0 then Some first
      else do {
        first \<leftarrow> (if missing_idxs AND 1 \<noteq> 0 then do {
            r \<leftarrow> arr_get (records second) i;
            (_, first) \<leftarrow> vector_clock_set_by_id first (member_id r) (sequence_number r);
            Some first
          } else Some first);
        merge_missing (Suc i) (drop_bit 1 missing_idxs) second first
      })"
  by pat_completeness auto

termination
  by (relation "measure (\<lambda>(i, m, s, f). unat m)") (auto simp: drop_bit_1_less)

declare merge_missing.simps [simp del]

definition vector_clock_compare ::
  "vector_clock \<Rightarrow> vector_clock \<Rightarrow> bool \<Rightarrow> (vector_clock_comp_res \<times> vector_clock) option" where
  "vector_clock_compare first second merge = do {
     (result, second_visited_idxs, first) \<leftarrow>
       for_loop 0 (vc_size first) (compare_step second merge) (VC_EQUAL, 0, first);
     one \<leftarrow> shift_one (vc_size second);
     let second_visited_mask = (one - 1) AND 0xFFFFFFFF;
     let missing_idxs = second_visited_idxs XOR second_visited_mask;
     if missing_idxs \<noteq> 0 then do {
       let result = vector_clock_resolve_comp_result result VC_BEFORE;
       if merge then do {
         first \<leftarrow> merge_missing 0 missing_idxs second first;
         Some (result, first)
       }
       else Some (result, first)
     }
     else Some (result, first)
   }"

section \<open>Wire format\<close>

definition vector_clock_record_decode ::
  "u8 list \<Rightarrow> nat \<Rightarrow> (pittacus_error + nat \<times> vector_record) option" where
  "vector_clock_record_decode buffer buffer_size =
     (if buffer_size < VECTOR_RECORD_SIZE then Some (Inl PITTACUS_ERR_BUFFER_NOT_ENOUGH)
      else do {
        seq \<leftarrow> uint32_decode buffer 0;
        mid \<leftarrow> mem_read buffer 4 MEMBER_ID_SIZE;
        Some (Inr (4 + MEMBER_ID_SIZE, \<lparr>sequence_number = seq, member_id = word_of_mem mid\<rparr>))
      })"

definition vector_clock_record_encode ::
  "vector_record \<Rightarrow> u8 list \<Rightarrow> nat \<Rightarrow> nat \<Rightarrow> ((pittacus_error + nat) \<times> u8 list) option" where
  "vector_clock_record_encode record buffer cur buffer_size =
     (if buffer_size < VECTOR_RECORD_SIZE then Some (Inl PITTACUS_ERR_BUFFER_NOT_ENOUGH, buffer)
      else do {
        buffer \<leftarrow> uint32_encode (sequence_number record) buffer cur;
        buffer \<leftarrow> mem_write buffer (cur + 4) (mem_of_word (member_id record));
        Some (Inr (4 + MEMBER_ID_SIZE), buffer)
      })"

text \<open>
  The loop over the records, from index \<open>i\<close> for \<open>n\<close> more records; an error of a record
  ends it.
\<close>

fun decode_records ::
  "u8 list \<Rightarrow> nat \<Rightarrow> nat \<Rightarrow> nat \<Rightarrow> nat \<Rightarrow> vector_record list
     \<Rightarrow> ((pittacus_error + nat) \<times> vector_record list) option" where
  "decode_records buffer buffer_size 0 i cursor recs = Some (Inr cursor, recs)"
| "decode_records buffer buffer_size (Suc n) i cursor recs = do {
     result \<leftarrow> vector_clock_record_decode (drop cursor buffer)
                 (size_of_diff (int buffer_size - int cursor));
     case result of
       Inl err \<Rightarrow> Some (Inl err, recs)
     | Inr (_, r) \<Rightarrow> do {
         recs \<leftarrow> arr_set recs i r;
         decode_records buffer buffer_size n (Suc i) (cursor + VECTOR_RECORD_SIZE) recs
       }
   }"

definition vector_clock_decode ::
  "u8 list \<Rightarrow> nat \<Rightarrow> vector_clock \<Rightarrow> ((pittacus_error + nat) \<times> vector_clock) option" where
  "vector_clock_decode buffer buffer_size result = do {
     size \<leftarrow> uint16_decode buffer 0;
     if size_of_diff (int buffer_size - 2) < unat size * VECTOR_RECORD_SIZE
     then Some (Inl PITTACUS_ERR_BUFFER_NOT_ENOUGH, result)
     else do {
       (r, recs) \<leftarrow> decode_records buffer buffer_size (unat size) 0 2 (records result);
       Some (r, \<lparr>vc_size = unat size, current_idx = 0, records = recs\<rparr>)
     }
   }"

fun encode_records ::
  "vector_record list \<Rightarrow> nat \<Rightarrow> nat \<Rightarrow> nat \<Rightarrow> u8 list \<Rightarrow> nat \<Rightarrow> ((pittacus_error + nat) \<times> u8 list) option" where
  "encode_records recs buffer_end 0 i buffer cursor = Some (Inr cursor, buffer)"
| "encode_records recs buffer_end (Suc n) i buffer cursor = do {
     r \<leftarrow> arr_get recs i;
     (result, buffer) \<leftarrow> vector_clock_record_encode r buffer cursor
                           (size_of_diff (int buffer_end - int cursor));
     case result of
       Inl err \<Rightarrow> Some (Inl err, buffer)
     | Inr written \<Rightarrow> encode_records recs buffer_end n (Suc i) buffer (cursor + written)
   }"

definition vector_clock_encode ::
  "vector_clock \<Rightarrow> u8 list \<Rightarrow> nat \<Rightarrow> nat \<Rightarrow> ((pittacus_error + nat) \<times> u8 list) option" where
  "vector_clock_encode clock buffer cur buffer_size =
     (if buffer_size < 2 + vc_size clock * VECTOR_RECORD_SIZE
      then Some (Inl PITTACUS_ERR_BUFFER_NOT_ENOUGH, buffer)
      else do {
        buffer \<leftarrow> uint16_encode (of_nat (vc_size clock)) buffer cur;
        (result, buffer) \<leftarrow>
          encode_records (records clock) (cur + buffer_size) (vc_size clock) 0 buffer (cur + 2);
        case result of
          Inl err \<Rightarrow> Some (Inl err, buffer)
        | Inr cursor \<Rightarrow> Some (Inr (cursor - cur), buffer)
      })"

section \<open>Specification\<close>

definition vc_pairs :: "vector_clock \<Rightarrow> (member_id_t \<times> u32) list" where
  "vc_pairs c = map (\<lambda>r. (member_id r, sequence_number r)) (take (vc_size c) (records c))"

definition vc_map :: "vector_clock \<Rightarrow> member_id_t \<rightharpoonup> u32" where
  "vc_map c = map_of (vc_pairs c)"

text \<open>A clock that can be read, and one that can also be written to.\<close>

definition vc_wf :: "vector_clock \<Rightarrow> bool" where
  "vc_wf c \<longleftrightarrow> length (records c) = MAX_VECTOR_SIZE \<and> vc_size c \<le> MAX_VECTOR_SIZE
     \<and> distinct (map member_id (take (vc_size c) (records c)))"

definition vc_inv :: "vector_clock \<Rightarrow> bool" where
  "vc_inv c \<longleftrightarrow> vc_wf c \<and> current_idx c < MAX_VECTOR_SIZE
     \<and> (vc_size c < MAX_VECTOR_SIZE \<longrightarrow> current_idx c = vc_size c)"

text \<open>The order of versions: every originator is known at least as far.\<close>

definition vc_le :: "('m \<rightharpoonup> u32) \<Rightarrow> ('m \<rightharpoonup> u32) \<Rightarrow> bool" where
  "vc_le a b \<longleftrightarrow> (\<forall>m s. a m = Some s \<longrightarrow> (\<exists>t. b m = Some t \<and> s \<le> t))"

definition vc_compare_spec :: "('m \<rightharpoonup> u32) \<Rightarrow> ('m \<rightharpoonup> u32) \<Rightarrow> vector_clock_comp_res" where
  "vc_compare_spec a b =
     (if a = b then VC_EQUAL
      else if vc_le a b then VC_BEFORE
      else if vc_le b a then VC_AFTER
      else VC_CONFLICT)"

text \<open>The pointwise maximum.\<close>

definition vc_join :: "('m \<rightharpoonup> u32) \<Rightarrow> ('m \<rightharpoonup> u32) \<Rightarrow> 'm \<rightharpoonup> u32" where
  "vc_join a b = (\<lambda>m. case a m of
       None \<Rightarrow> b m
     | Some s \<Rightarrow> (case b m of None \<Rightarrow> Some s | Some t \<Rightarrow> Some (max s t)))"

section \<open>Looking up and storing records\<close>

lemma vc_wf_length [simp]: "vc_wf c \<Longrightarrow> length (vc_pairs c) = vc_size c"
  by (auto simp: vc_wf_def vc_pairs_def)

lemma vc_pairs_nth:
  "vc_wf c \<Longrightarrow> i < vc_size c \<Longrightarrow>
     vc_pairs c ! i = (member_id (records c ! i), sequence_number (records c ! i))"
  by (auto simp: vc_wf_def vc_pairs_def)

lemma vc_wf_distinct: "vc_wf c \<Longrightarrow> distinct (map fst (vc_pairs c))"
  by (simp add: vc_wf_def vc_pairs_def comp_def)

lemma vc_map_nth:
  assumes "vc_wf c" "i < vc_size c"
  shows "vc_map c (member_id (records c ! i)) = Some (sequence_number (records c ! i))"
  using map_of_eq_Some_distinct [OF vc_wf_distinct, of c i] assms
  by (simp add: vc_map_def vc_pairs_nth)

lemma vc_map_SomeE:
  assumes "vc_wf c" "vc_map c m = Some s"
  obtains i where "i < vc_size c" "member_id (records c ! i) = m" "sequence_number (records c ! i) = s"
proof -
  have "(m, s) \<in> set (vc_pairs c)" using assms(2) unfolding vc_map_def by (rule map_of_SomeD)
  then obtain i where "i < length (vc_pairs c)" "vc_pairs c ! i = (m, s)"
    by (auto simp: in_set_conv_nth)
  with that assms(1) show thesis by (simp add: vc_pairs_nth)
qed

lemma vc_wf_inj:
  assumes "vc_wf c" "i < vc_size c" "j < vc_size c"
    "member_id (records c ! i) = member_id (records c ! j)"
  shows "i = j"
proof -
  let ?ids = "map member_id (take (vc_size c) (records c))"
  have "distinct ?ids" "length ?ids = vc_size c" using assms(1) by (auto simp: vc_wf_def)
  moreover have "?ids ! i = ?ids ! j" using assms by (auto simp: vc_wf_def)
  ultimately show ?thesis using assms(2,3) nth_eq_iff_index_eq by metis
qed

text \<open>The index found, if any, is the one that holds the originator.\<close>

lemma vector_clock_find_ok:
  assumes "vc_wf c"
  obtains "vector_clock_find_by_member_id c m = Some None" "vc_map c m = None"
  | i where "vector_clock_find_by_member_id c m = Some (Some i)" "i < vc_size c"
      "member_id (records c ! i) = m" "vc_map c m = Some (sequence_number (records c ! i))"
proof -
  let ?P = "\<lambda>i. member_id (records c ! i) = m"
  have find: "vector_clock_find_by_member_id c m = Some (List.find ?P [0..<vc_size c])"
    unfolding vector_clock_find_by_member_id_def
    using assms by (intro find_loop_eq_find) (simp add: vc_wf_def arr_get_in)
  show thesis
  proof (cases "List.find ?P [0..<vc_size c]")
    case None
    have "vc_map c m = None"
    proof (rule ccontr)
      assume "vc_map c m \<noteq> None"
      then obtain s where "vc_map c m = Some s" by blast
      then obtain i where "i < vc_size c" "?P i" by (rule vc_map_SomeE [OF assms])
      with None show False by (simp add: find_upt_None_iff)
    qed
    with that(1) find None show thesis by simp
  next
    case (Some i)
    then have "i < vc_size c" "?P i" by (auto simp: find_upt_Some_iff)
    with that(2) find Some vc_map_nth [OF assms] show thesis by auto
  qed
qed

lemma vc_inv_wf: "vc_inv c \<Longrightarrow> vc_wf c"
  by (simp add: vc_inv_def)

lemma vc_map_Some_iff:
  assumes "vc_wf c"
  shows "vc_map c m = Some s \<longleftrightarrow>
     (\<exists>i < vc_size c. member_id (records c ! i) = m \<and> sequence_number (records c ! i) = s)"
  using vc_map_nth [OF assms] by (auto elim!: vc_map_SomeE [OF assms])

lemma vc_map_None_iff:
  assumes "vc_wf c"
  shows "vc_map c m = None \<longleftrightarrow> (\<forall>i < vc_size c. member_id (records c ! i) \<noteq> m)"
  using vc_map_nth [OF assms] vc_map_Some_iff [OF assms] by (metis not_None_eq option.distinct(1))

lemma vc_wf_iff:
  "vc_wf c \<longleftrightarrow> length (records c) = MAX_VECTOR_SIZE \<and> vc_size c \<le> MAX_VECTOR_SIZE
     \<and> (\<forall>i < vc_size c. \<forall>j < vc_size c.
           member_id (records c ! i) = member_id (records c ! j) \<longrightarrow> i = j)"
  (is "?l \<longleftrightarrow> ?r")
proof
  assume ?l
  then show ?r using vc_wf_inj [of c] by (auto simp: vc_wf_def)
next
  assume ?r
  then show ?l by (auto simp: vc_wf_def distinct_conv_nth)
qed

lemma vector_record_upd: "r\<lparr>sequence_number := s\<rparr> = \<lparr>sequence_number = s, member_id = member_id r\<rparr>"
  by simp

text \<open>
  Overwriting the record at \<open>i\<close> with one whose originator is the old one or a new one. The
  size may grow by one when \<open>i\<close> is the first free place.
\<close>

lemma vc_store:
  fixes m :: member_id_t and s :: u32 and k :: nat
  assumes wf: "vc_wf c" and i: "i \<le> vc_size c" "i < MAX_VECTOR_SIZE"
    and n: "n = max (vc_size c) (Suc i)"
    and fresh: "\<forall>j < vc_size c. j \<noteq> i \<longrightarrow> member_id (records c ! j) \<noteq> m"
  defines "c' \<equiv> \<lparr>vc_size = n, current_idx = k,
                 records = (records c)[i := \<lparr>sequence_number = s, member_id = m\<rparr>]\<rparr>"
  shows "vc_wf c'"
    and "vc_map c' = (if i < vc_size c then (vc_map c)(member_id (records c ! i) := None) else vc_map c)(m \<mapsto> s)"
proof -
  have len: "length (records c) = MAX_VECTOR_SIZE" "vc_size c \<le> MAX_VECTOR_SIZE"
    using wf by (auto simp: vc_wf_def)
  have nth': "records c' ! j = (if j = i then \<lparr>sequence_number = s, member_id = m\<rparr> else records c ! j)" for j
    using len i by (simp add: c'_def nth_list_update)
  have n': "vc_size c' = n" by (simp add: c'_def)
  have lt: "j < n \<longleftrightarrow> j = i \<or> j < vc_size c" for j using i n by (auto simp: max_def)
  show wf': "vc_wf c'"
    unfolding vc_wf_iff n'
  proof (intro conjI allI impI)
    show "length (records c') = MAX_VECTOR_SIZE" "n \<le> MAX_VECTOR_SIZE"
      using len i n by (auto simp: c'_def)
    fix a b assume "a < n" "b < n" "member_id (records c' ! a) = member_id (records c' ! b)"
    then show "a = b" using lt fresh vc_wf_inj [OF wf, of a b] by (auto simp: nth' split: if_splits)
  qed
  show "vc_map c' = (if i < vc_size c then (vc_map c)(member_id (records c ! i) := None) else vc_map c)(m \<mapsto> s)"
  proof (rule map_ext_Some)
    fix x t
    have "vc_map c' x = Some t \<longleftrightarrow> (x = m \<and> t = s) \<or>
        (\<exists>j < vc_size c. j \<noteq> i \<and> member_id (records c ! j) = x \<and> sequence_number (records c ! j) = t)"
      unfolding vc_map_Some_iff [OF wf'] n' using lt by (auto simp: nth')
    also have "\<dots> \<longleftrightarrow> ((if i < vc_size c then (vc_map c)(member_id (records c ! i) := None) else vc_map c)
        (m \<mapsto> s)) x = Some t"
    proof (cases "i < vc_size c")
      case True
      then show ?thesis
        using fresh vc_wf_inj [OF wf _ True] by (auto simp: vc_map_Some_iff [OF wf])
    next
      case False
      then show ?thesis using fresh by (auto simp: vc_map_Some_iff [OF wf])
    qed
    finally show "vc_map c' x = Some t \<longleftrightarrow>
      ((if i < vc_size c then (vc_map c)(member_id (records c ! i) := None) else vc_map c)(m \<mapsto> s)) x = Some t" .
  qed
qed

text \<open>Changing the sequence number of a record that is there.\<close>

lemma vc_update:
  fixes s :: u32
  assumes "vc_wf c" "i < vc_size c"
  defines "c' \<equiv> c\<lparr>records := (records c)[i := (records c ! i)\<lparr>sequence_number := s\<rparr>]\<rparr>"
  shows "vc_wf c'" "vc_inv c \<Longrightarrow> vc_inv c'" "vc_map c' = (vc_map c)(member_id (records c ! i) \<mapsto> s)"
proof -
  let ?m = "member_id (records c ! i)"
  have eq: "c' = \<lparr>vc_size = max (vc_size c) (Suc i), current_idx = current_idx c,
      records = (records c)[i := \<lparr>sequence_number = s, member_id = ?m\<rparr>]\<rparr>"
    using assms(2) by (simp add: c'_def vector_record_upd)
  have fresh: "\<forall>j < vc_size c. j \<noteq> i \<longrightarrow> member_id (records c ! j) \<noteq> ?m"
    using vc_wf_inj [OF assms(1) _ assms(2)] by auto
  have i: "i \<le> vc_size c" "i < MAX_VECTOR_SIZE" using assms by (auto simp: vc_wf_def)
  show wf': "vc_wf c'" unfolding eq using vc_store(1) [OF assms(1) i refl fresh] .
  show "vc_map c' = (vc_map c)(?m \<mapsto> s)"
    unfolding eq using vc_store(2) [OF assms(1) i refl fresh] assms(2) by simp
  from wf' show "vc_inv c \<Longrightarrow> vc_inv c'" by (simp add: vc_inv_def c'_def)
qed

text \<open>
  \<^verbatim>\<open>vector_clock_set_by_id\<close>: the record returned holds the new values; the map gets the new
  pair, and loses the record in turn (\<open>vc_victim\<close>) exactly when a new originator meets a
  full clock.
\<close>

definition vc_victim :: "vector_clock \<Rightarrow> member_id_t \<Rightarrow> member_id_t option" where
  "vc_victim c m =
     (if m \<in> dom (vc_map c) \<or> vc_size c < MAX_VECTOR_SIZE then None
      else Some (member_id (records c ! current_idx c)))"

definition vc_evict :: "member_id_t option \<Rightarrow> (member_id_t \<rightharpoonup> u32) \<Rightarrow> member_id_t \<rightharpoonup> u32" where
  "vc_evict v a = (case v of None \<Rightarrow> a | Some m \<Rightarrow> a(m := None))"

lemma vector_clock_set_by_id_ok:
  assumes "vc_inv c"
  shows "\<exists>i c'. vector_clock_set_by_id c m s = Some (i, c') \<and> vc_inv c'
           \<and> vc_map c' = (vc_evict (vc_victim c m) (vc_map c))(m \<mapsto> s)
           \<and> i < vc_size c' \<and> records c' ! i = \<lparr>sequence_number = s, member_id = m\<rparr>
           \<and> vc_size c' = (if m \<in> dom (vc_map c) then vc_size c else min MAX_VECTOR_SIZE (vc_size c + 1))"
proof -
  note wf = vc_inv_wf [OF assms]
  show ?thesis
  proof (cases rule: vector_clock_find_ok [OF wf, of m])
    case 1
    let ?i = "current_idx c"
    have i: "?i \<le> vc_size c" "?i < MAX_VECTOR_SIZE" "vc_size c \<le> MAX_VECTOR_SIZE"
      "?i < vc_size c \<longleftrightarrow> \<not> vc_size c < MAX_VECTOR_SIZE" "?i < length (records c)"
      using assms by (auto simp: vc_inv_def vc_wf_def)
    let ?n = "max (vc_size c) (Suc ?i)"
    let ?k = "if ?i + 1 \<ge> MAX_VECTOR_SIZE then 0 else ?i + 1"
    let ?c' = "\<lparr>vc_size = ?n, current_idx = ?k,
                records = (records c)[?i := \<lparr>sequence_number = s, member_id = m\<rparr>]\<rparr>"
    have n: "(if vc_size c < MAX_VECTOR_SIZE then vc_size c + 1 else vc_size c) = ?n"
      "?n = min MAX_VECTOR_SIZE (vc_size c + 1)"
      using assms i by (auto simp: vc_inv_def)
    have fresh: "\<forall>j < vc_size c. j \<noteq> ?i \<longrightarrow> member_id (records c ! j) \<noteq> m"
      using 1(2) by (simp add: vc_map_None_iff [OF wf])
    have step: "vector_clock_set_by_id c m s = Some (?i, ?c')"
      using 1(1) i(5) by (simp add: vector_clock_set_by_id_def arr_set_in n(1) [symmetric] Let_def)
    have wf': "vc_wf ?c'" and map': "vc_map ?c' =
        (if ?i < vc_size c then (vc_map c)(member_id (records c ! ?i) := None) else vc_map c)(m \<mapsto> s)"
      using vc_store [OF wf i(1,2) refl fresh] by blast+
    have "vc_inv ?c'" using wf' i assms by (auto simp: vc_inv_def)
    moreover have "vc_map ?c' = (vc_evict (vc_victim c m) (vc_map c))(m \<mapsto> s)"
      using map' i(4) 1(2) by (auto simp: vc_evict_def vc_victim_def)
    moreover have "?i < vc_size ?c' \<and> records ?c' ! ?i = \<lparr>sequence_number = s, member_id = m\<rparr>"
      using i(5) by simp
    ultimately show ?thesis using step n(2) 1(2) by (auto simp: domIff)
  next
    case (2 i)
    let ?c' = "c\<lparr>records := (records c)[i := (records c ! i)\<lparr>sequence_number := s\<rparr>]\<rparr>"
    have i: "i < length (records c)" using 2(2) wf by (simp add: vc_wf_def)
    have "vector_clock_set_by_id c m s = Some (i, ?c')"
      using 2(1) i by (simp add: vector_clock_set_by_id_def arr_set_in arr_get_in)
    moreover have "records ?c' ! i = \<lparr>sequence_number = s, member_id = m\<rparr>"
      using i 2(3) by (simp add: vector_record.equality)
    moreover have "vc_victim c m = None" "m \<in> dom (vc_map c)" using 2(4) by (auto simp: vc_victim_def)
    ultimately show ?thesis
      using vc_update(2,3) [OF wf 2(2), of s] assms 2 by (simp add: vc_evict_def)
  qed
qed

section \<open>Comparing with one record\<close>

text \<open>
  The verdict is that of comparing what the clock knows of the record's originator; with
  \<open>merge\<close> the clock afterwards knows the later of the two.
\<close>

definition record_verdict :: "u32 option \<Rightarrow> u32 \<Rightarrow> vector_clock_comp_res" where
  "record_verdict known seq = (case known of
       None \<Rightarrow> VC_BEFORE
     | Some s \<Rightarrow> if s > seq then VC_AFTER else if s < seq then VC_BEFORE else VC_EQUAL)"

lemma vector_clock_compare_with_record_nomerge:
  assumes "vc_wf c"
  shows "vector_clock_compare_with_record c r False =
           Some (record_verdict (vc_map c (member_id r)) (sequence_number r), c)"
  using assms
  by (cases rule: vector_clock_find_ok [OF assms, of "member_id r"])
     (auto simp: vector_clock_compare_with_record_def record_verdict_def arr_get_in vc_wf_def Let_def)

lemma vector_clock_compare_with_record_merge:
  assumes "vc_inv c"
  shows "\<exists>c'. vector_clock_compare_with_record c r True =
            Some (record_verdict (vc_map c (member_id r)) (sequence_number r), c') \<and> vc_inv c'
          \<and> vc_map c' = (if record_verdict (vc_map c (member_id r)) (sequence_number r) = VC_BEFORE
               then (vc_evict (vc_victim c (member_id r)) (vc_map c))(member_id r \<mapsto> sequence_number r)
               else vc_map c)"
proof -
  note wf = vc_inv_wf [OF assms]
  show ?thesis
  proof (cases rule: vector_clock_find_ok [OF wf, of "member_id r"])
    case 1
    obtain i c' where c': "vector_clock_set_by_id c (member_id r) (sequence_number r) = Some (i, c')"
      "vc_inv c'"
      "vc_map c' = (vc_evict (vc_victim c (member_id r)) (vc_map c))(member_id r \<mapsto> sequence_number r)"
      using vector_clock_set_by_id_ok [OF assms] by blast
    then show ?thesis
      using 1 by (simp add: vector_clock_compare_with_record_def record_verdict_def)
  next
    case (2 i)
    let ?c' = "c\<lparr>records := (records c)[i := (records c ! i)\<lparr>sequence_number := sequence_number r\<rparr>]\<rparr>"
    have i: "i < length (records c)" using 2(2) wf by (simp add: vc_wf_def)
    have "vc_victim c (member_id r) = None" using 2(4) by (auto simp: vc_victim_def)
    then show ?thesis
      using 2 i assms vc_update(2,3) [OF wf 2(2), of "sequence_number r"]
      by (auto simp: vector_clock_compare_with_record_def record_verdict_def vc_evict_def arr_get_in
          arr_set_in Let_def)
  qed
qed

section \<open>Comparing two clocks\<close>

text \<open>The verdict from its two ingredients: is something later in the first, in the second?\<close>

definition comp_of :: "bool \<Rightarrow> bool \<Rightarrow> vector_clock_comp_res" where
  "comp_of after before =
     (if after \<and> before then VC_CONFLICT else if after then VC_AFTER
      else if before then VC_BEFORE else VC_EQUAL)"

lemma resolve_comp_of [simp]:
  "vector_clock_resolve_comp_result (comp_of a b) VC_AFTER = comp_of True b"
  "vector_clock_resolve_comp_result (comp_of a b) VC_BEFORE = comp_of a True"
  by (auto simp: vector_clock_resolve_comp_result_def comp_of_def)

lemma vc_le_antisym: "vc_le a b \<Longrightarrow> vc_le b a \<Longrightarrow> a = b"
  by (rule map_ext_Some) (force simp: vc_le_def)

lemma vc_le_refl [simp]: "vc_le a a"
  by (simp add: vc_le_def)

lemma vc_le_trans: "vc_le a b \<Longrightarrow> vc_le b c \<Longrightarrow> vc_le a c"
  by (fastforce simp: vc_le_def)

lemma vc_compare_spec_comp_of: "vc_compare_spec a b = comp_of (\<not> vc_le a b) (\<not> vc_le b a)"
  using vc_le_antisym [of a b] by (auto simp: vc_compare_spec_def comp_of_def)

text \<open>
  What the first loop does at index \<open>k\<close> of the first clock \<open>c\<close>, against the map \<open>b\<close>
  of the second.
\<close>

definition later_at :: "vector_clock \<Rightarrow> (member_id_t \<rightharpoonup> u32) \<Rightarrow> nat \<Rightarrow> bool" where
  "later_at c b k \<longleftrightarrow> (case b (member_id (records c ! k)) of
       None \<Rightarrow> True | Some t \<Rightarrow> sequence_number (records c ! k) > t)"

definition earlier_at :: "vector_clock \<Rightarrow> (member_id_t \<rightharpoonup> u32) \<Rightarrow> nat \<Rightarrow> bool" where
  "earlier_at c b k \<longleftrightarrow> (case b (member_id (records c ! k)) of
       None \<Rightarrow> False | Some t \<Rightarrow> sequence_number (records c ! k) < t)"

definition merged_at :: "bool \<Rightarrow> (member_id_t \<rightharpoonup> u32) \<Rightarrow> vector_record \<Rightarrow> vector_record" where
  "merged_at merge b r = (case b (member_id r) of
       None \<Rightarrow> r
     | Some t \<Rightarrow> if merge \<and> sequence_number r < t then r\<lparr>sequence_number := t\<rparr> else r)"

lemma member_id_merged_at [simp]: "member_id (merged_at g b r) = member_id r"
  by (auto simp: merged_at_def split: option.splits)

definition compare_inv ::
  "vector_clock \<Rightarrow> vector_clock \<Rightarrow> bool \<Rightarrow> nat \<Rightarrow> vector_clock_comp_res \<times> u32 \<times> vector_clock \<Rightarrow> bool" where
  "compare_inv c d merge i = (\<lambda>(result, visited, c').
     result = comp_of (\<exists>k<i. later_at c (vc_map d) k) (\<exists>k<i. earlier_at c (vc_map d) k)
     \<and> (\<forall>j. bit visited j \<longleftrightarrow>
            j < vc_size d \<and> (\<exists>k<i. member_id (records c ! k) = member_id (records d ! j)))
     \<and> c' = c\<lparr>records := map (merged_at merge (vc_map d)) (take i (records c)) @ drop i (records c)\<rparr>)"

lemma merge_prefix_step:
  assumes "i < length xs"
  shows "(map f (take i xs) @ drop i xs)[i := f (xs ! i)] = map f (take (Suc i) xs) @ drop (Suc i) xs"
    and "(map f (take i xs) @ drop i xs) ! i = xs ! i"
  using assms by (simp_all add: list_update_append take_Suc_conv_app_nth nth_append
      Cons_nth_drop_Suc [symmetric])

lemma compare_step_found:
  assumes "i < length (records c)" "vector_clock_find_by_member_id d (member_id (records c ! i)) = Some (Some j)"
    "j < 31" "j < length (records d)"
  shows "compare_step d merge i (result, visited, c) = Some
    (let r = records c ! i; t = sequence_number (records d ! j)
     in (if sequence_number r > t then vector_clock_resolve_comp_result result VC_AFTER
         else if sequence_number r < t then vector_clock_resolve_comp_result result VC_BEFORE else result,
         visited OR push_bit j 1,
         if sequence_number r < t \<and> merge
         then c\<lparr>records := (records c)[i := r\<lparr>sequence_number := t\<rparr>]\<rparr> else c))"
  using assms by (auto simp: compare_step_def arr_get_in arr_set_in shift_one_def Let_def)

lemma ex_less_Suc: "(\<exists>k<Suc i. P k) \<longleftrightarrow> P i \<or> (\<exists>k<i. P k)"
  by (auto simp: less_Suc_eq)

lemma merge_prefix_same:
  assumes "i < length xs" "f (xs ! i) = xs ! i"
  shows "map f (take (Suc i) xs) @ drop (Suc i) xs = map f (take i xs) @ drop i xs"
  using merge_prefix_step [OF assms(1), of f] unfolding assms(2) by (metis list_update_id)

text \<open>The bitmap after a record of \<open>c\<close> was found at index \<open>j\<close> of \<open>d\<close>.\<close>

lemma visited_step:
  assumes d: "vc_wf d" and j: "j < vc_size d" "member_id (records d ! j) = member_id (records c ! i)"
    and vis: "\<forall>j. bit visited j \<longleftrightarrow> j < vc_size d \<and> (\<exists>k<i. member_id (records c ! k) = member_id (records d ! j))"
  shows "bit (visited OR push_bit j (1 :: u32)) q \<longleftrightarrow>
     q < vc_size d \<and> (\<exists>k<Suc i. member_id (records c ! k) = member_id (records d ! q))"
proof -
  have "j < 32" using j d by (auto simp: vc_wf_def)
  then have "bit (visited OR push_bit j 1) q \<longleftrightarrow> bit visited q \<or> q = j" by (auto simp: bit_simps)
  moreover have "q < vc_size d \<Longrightarrow> member_id (records c ! i) = member_id (records d ! q) \<longleftrightarrow> q = j"
    using j vc_wf_inj [OF d] by auto
  ultimately show ?thesis using vis j(1) by (auto simp: ex_less_Suc)
qed

text \<open>The verdict and the merged clock after the comparison of one record.\<close>

lemma verdict_step:
  assumes "vc_map d (member_id (records c ! i)) = Some s"
  defines "r \<equiv> records c ! i"
  shows "(if sequence_number r > s then vector_clock_resolve_comp_result (comp_of A B) VC_AFTER
        else if sequence_number r < s then vector_clock_resolve_comp_result (comp_of A B) VC_BEFORE else comp_of A B) =
        comp_of (later_at c (vc_map d) i \<or> A) (earlier_at c (vc_map d) i \<or> B)"
proof -
  have "later_at c (vc_map d) i \<longleftrightarrow> sequence_number r > s" "earlier_at c (vc_map d) i \<longleftrightarrow> sequence_number r < s"
    using assms by (auto simp: later_at_def earlier_at_def)
  moreover have "sequence_number r < s \<Longrightarrow> \<not> s < sequence_number r" "s < sequence_number r \<Longrightarrow> \<not> sequence_number r < s"
    by auto
  ultimately show ?thesis by (cases rule: linorder_cases [of "sequence_number r" s]) simp_all
qed

lemma merged_step:
  fixes merge :: bool
  assumes i: "i < length (records c)" and m: "vc_map d (member_id (records c ! i)) = Some s"
  defines "r \<equiv> records c ! i" and "f \<equiv> merged_at merge (vc_map d)"
  defines "c' \<equiv> c\<lparr>records := map f (take i (records c)) @ drop i (records c)\<rparr>"
  shows "(if sequence_number r < s \<and> merge then c'\<lparr>records := (records c')[i := r\<lparr>sequence_number := s\<rparr>]\<rparr> else c') =
     c\<lparr>records := map f (take (Suc i) (records c)) @ drop (Suc i) (records c)\<rparr>"
proof (cases "sequence_number r < s \<and> merge")
  case True
  then have "f (records c ! i) = r\<lparr>sequence_number := s\<rparr>" using m by (simp add: f_def r_def merged_at_def)
  then show ?thesis using True merge_prefix_step(1) [OF i, of f] by (simp add: c'_def)
next
  case False
  then have "f (records c ! i) = records c ! i" using m by (auto simp: f_def r_def merged_at_def)
  with False merge_prefix_same [OF i] show ?thesis by (simp only: if_False c'_def)
qed

lemma compare_step_ok:
  assumes c: "vc_wf c" and d: "vc_wf d" and i: "i < vc_size c" and t: "compare_inv c d merge i t"
  shows "\<exists>t'. compare_step d merge i t = Some t' \<and> compare_inv c d merge (Suc i) t'"
proof -
  let ?m = "merged_at merge (vc_map d)" and ?r = "records c ! i"
  let ?c = "c\<lparr>records := map ?m (take i (records c)) @ drop i (records c)\<rparr>"
  obtain result visited where t_eq: "t = (result, visited, ?c)"
    and res: "result = comp_of (\<exists>k<i. later_at c (vc_map d) k) (\<exists>k<i. earlier_at c (vc_map d) k)"
    and vis: "\<forall>j. bit visited j \<longleftrightarrow> j < vc_size d \<and> (\<exists>k<i. member_id (records c ! k) = member_id (records d ! j))"
    using t by (cases t) (auto simp: compare_inv_def)
  have il: "i < length (records c)" using c i by (simp add: vc_wf_def)
  have ri: "records ?c ! i = ?r" "i < length (records ?c)" using merge_prefix_step(2) [OF il, of ?m] il by simp_all
  show ?thesis
  proof (cases rule: vector_clock_find_ok [OF d, of "member_id ?r"])
    case 1
    have "later_at c (vc_map d) i" "\<not> earlier_at c (vc_map d) i" "?m ?r = ?r"
      using 1(2) by (simp_all add: later_at_def earlier_at_def merged_at_def)
    moreover have "\<not> (\<exists>j < vc_size d. member_id ?r = member_id (records d ! j))"
      using 1(2) by (auto simp: vc_map_None_iff [OF d])
    ultimately show ?thesis
      using 1(1) vis ri il merge_prefix_same [OF il, of ?m] unfolding t_eq res
      by (auto simp: compare_step_def compare_inv_def ex_less_Suc arr_get_def)
  next
    case (2 j)
    have j: "j < 31" "j < length (records d)" using 2(2) d by (auto simp: vc_wf_def)
    have "compare_step d merge i t = Some
        (comp_of (\<exists>k<Suc i. later_at c (vc_map d) k) (\<exists>k<Suc i. earlier_at c (vc_map d) k), visited OR push_bit j 1,
          c\<lparr>records := map ?m (take (Suc i) (records c)) @ drop (Suc i) (records c)\<rparr>)"
      using compare_step_found [OF ri(2) _ j, of merge result visited] 2(1)
      unfolding t_eq ri(1) Let_def merged_step [OF il 2(4)] res verdict_step [OF 2(4)] ex_less_Suc by blast
    then show ?thesis using visited_step [OF d 2(2) _ vis] 2(3) by (simp add: compare_inv_def)
  qed
qed

text \<open>The second loop stores the records of the missing indices, in order.\<close>

fun set_all :: "vector_clock \<Rightarrow> vector_record list \<Rightarrow> vector_clock option" where
  "set_all c [] = Some c"
| "set_all c (r # rs) = do {
     (_, c) \<leftarrow> vector_clock_set_by_id c (member_id r) (sequence_number r);
     set_all c rs
   }"

lemma merge_missing_set_all:
  "(\<And>k. bit m k \<Longrightarrow> i + k < length (records d)) \<Longrightarrow>
     merge_missing i m d c =
       set_all c (map ((!) (records d)) (filter (\<lambda>j. bit m (j - i)) [i..<i + 32]))"
proof (induction i m d c rule: merge_missing.induct)
  case (1 i m d c)
  let ?rest = "\<lambda>i m. map ((!) (records d)) (filter (\<lambda>j. bit m (j - i)) [i..<i + 32])"
  show ?case
  proof (cases "m = 0")
    case True
    then show ?thesis by (simp add: merge_missing.simps)
  next
    case False
    let ?m' = "drop_bit 1 m"
    have bit': "bit ?m' k \<longleftrightarrow> bit m (Suc k)" for k by (simp add: bit_simps)
    have fl: "filter (\<lambda>j. bit m (j - i)) [Suc i..<i + 32] = filter (\<lambda>j. bit ?m' (j - Suc i)) [Suc i..<i + 32]"
      by (rule filter_cong) (auto simp: bit_simps Suc_diff_Suc Suc_le_eq)
    have "\<not> bit ?m' (i + 32 - Suc i)" by (auto simp: bit_simps dest: bit_imp_le_length)
    moreover have "[Suc i..<Suc i + 32] = [Suc i..<i + 32] @ [i + 32]"
      by (subst add_Suc, subst upt_Suc_append) auto
    ultimately have "filter (\<lambda>j. bit ?m' (j - Suc i)) [Suc i..<Suc i + 32] =
        filter (\<lambda>j. bit ?m' (j - Suc i)) [Suc i..<i + 32]"
      by (simp only: filter_append) simp
    then have rest: "?rest i m = (if bit m 0 then [records d ! i] else []) @ ?rest (Suc i) ?m'"
      using fl by (simp add: upt_conv_Cons)
    have bound: "Suc i + k < length (records d)" if "bit ?m' k" for k
      using that "1.prems" [of "Suc k"] by (simp add: bit_simps)
    have odd: "m AND 1 \<noteq> 0 \<longleftrightarrow> bit m 0" by (simp add: and_one_eq bit_0 odd_iff_mod_2_eq_one)
    have IH: "merge_missing (Suc i) ?m' d c' = set_all c' (?rest (Suc i) ?m')"
      if "(if m AND 1 \<noteq> 0 then do {
            r \<leftarrow> arr_get (records d) i;
            (_, c) \<leftarrow> vector_clock_set_by_id c (member_id r) (sequence_number r);
            Some c } else Some c) = Some c'" for c'
      using "1.IH" [OF False that] bound by blast
    show ?thesis
    proof (cases "bit m 0")
      case True
      have "i < length (records d)" using "1.prems" [OF True] by simp
      then show ?thesis
        using False True odd IH unfolding merge_missing.simps [of i m] rest
        by (auto simp: arr_get_in bind_assoc split_beta split: bind_splits)
    next
      case nb: False
      then show ?thesis
        using False odd IH unfolding merge_missing.simps [of i m] rest by simp
    qed
  qed
qed

lemma set_all_ok:
  assumes "vc_inv c" "vc_size c + length rs \<le> MAX_VECTOR_SIZE"
    "distinct (map member_id rs)" "\<forall>r \<in> set rs. member_id r \<notin> dom (vc_map c)"
  shows "\<exists>c'. set_all c rs = Some c' \<and> vc_inv c' \<and> vc_size c' = vc_size c + length rs
           \<and> vc_map c' = vc_map c ++ map_of (map (\<lambda>r. (member_id r, sequence_number r)) rs)"
  using assms
proof (induction rs arbitrary: c)
  case Nil
  then show ?case by simp
next
  case (Cons r rs)
  have new: "member_id r \<notin> dom (vc_map c)" "vc_victim c (member_id r) = None"
    using Cons.prems by (auto simp: vc_victim_def)
  obtain i c1 where c1: "vector_clock_set_by_id c (member_id r) (sequence_number r) = Some (i, c1)"
    "vc_inv c1" "vc_map c1 = (vc_map c)(member_id r \<mapsto> sequence_number r)" "vc_size c1 = vc_size c + 1"
    using vector_clock_set_by_id_ok [OF Cons.prems(1), of "member_id r" "sequence_number r"]
      new Cons.prems(2) by (auto simp: vc_evict_def)
  have "\<forall>x \<in> set rs. member_id x \<notin> dom (vc_map c1)"
    using Cons.prems(3,4) c1(3) by (auto simp: image_iff)
  then obtain c' where c': "set_all c1 rs = Some c'" "vc_inv c'" "vc_size c' = vc_size c1 + length rs"
    "vc_map c' = vc_map c1 ++ map_of (map (\<lambda>r. (member_id r, sequence_number r)) rs)"
    using Cons.IH [OF c1(2)] Cons.prems(2,3) c1(4) by auto
  have "map_of (map (\<lambda>r. (member_id r, sequence_number r)) rs) (member_id r) = None"
    using Cons.prems(3) by (auto simp: map_of_eq_None_iff image_iff)
  then have "vc_map c' = vc_map c ++ map_of (map (\<lambda>r. (member_id r, sequence_number r)) (r # rs))"
    unfolding c'(4) c1(3) by (intro ext) (auto simp: map_add_def split: option.splits)
  moreover have "set_all c (r # rs) = Some c'" "vc_size c' = vc_size c + length (r # rs)"
    using c1 c' by simp_all
  ultimately show ?case using c'(2) by blast
qed

lemma bit_mask_u32: "bit (push_bit n 1 - 1 :: u32) k \<longleftrightarrow> k < n \<and> k < 32"
proof -
  have "push_bit n 1 - 1 = (mask n :: u32)" by (simp add: mask_eq_exp_minus_1)
  then show ?thesis by (auto simp: bit_simps)
qed

lemma all_ones_u32: "(w :: u32) AND 0xFFFFFFFF = w"
proof -
  have "(0xFFFFFFFF :: u32) = mask 32" by (simp add: mask_eq_exp_minus_1)
  then show ?thesis by (simp add: bit_eq_iff bit_simps)
qed

text \<open>After both loops of a comparison; \<open>ms\<close> are the records of the second clock missing in the first.\<close>

lemma first_loop_ok:
  assumes "vc_wf c" "vc_wf d"
  shows "\<exists>t. for_loop 0 (vc_size c) (compare_step d merge) (VC_EQUAL, 0, c) = Some t
           \<and> compare_inv c d merge (vc_size c) t"
proof (rule for_loop_total [where I = "compare_inv c d merge"])
  show "compare_inv c d merge 0 (VC_EQUAL, 0, c)"
    by (simp add: compare_inv_def comp_of_def)
qed (use compare_step_ok [OF assms] in auto)

lemma later_iff:
  assumes "vc_wf c"
  shows "(\<exists>k < vc_size c. later_at c b k) \<longleftrightarrow> \<not> vc_le (vc_map c) b"
proof -
  have "later_at c b k \<longleftrightarrow> \<not> (\<exists>t. b (member_id (records c ! k)) = Some t \<and> sequence_number (records c ! k) \<le> t)" for k
    by (auto simp: later_at_def split: option.splits)
  then show ?thesis
    unfolding vc_le_def vc_map_Some_iff [OF assms] by auto
qed

lemma earlier_iff:
  assumes "vc_wf c" "vc_wf d"
  shows "(\<exists>k < vc_size c. earlier_at c (vc_map d) k)
      \<or> (\<exists>j < vc_size d. vc_map c (member_id (records d ! j)) = None) \<longleftrightarrow> \<not> vc_le (vc_map d) (vc_map c)"
    (is "?e \<or> ?n \<longleftrightarrow> _")
proof
  assume "?e \<or> ?n"
  then show "\<not> vc_le (vc_map d) (vc_map c)"
  proof
    assume ?e
    then obtain k t where "k < vc_size c" "vc_map d (member_id (records c ! k)) = Some t"
      "sequence_number (records c ! k) < t"
      by (auto simp: earlier_at_def split: option.splits)
    then show ?thesis
      using vc_map_nth [OF assms(1), of k] unfolding vc_le_def by (metis not_less option.inject)
  next
    assume ?n
    then show ?thesis using vc_map_nth [OF assms(2)] by (fastforce simp: vc_le_def)
  qed
next
  assume "\<not> vc_le (vc_map d) (vc_map c)"
  then obtain m s where ms: "vc_map d m = Some s" "\<nexists>t. vc_map c m = Some t \<and> s \<le> t"
    by (auto simp: vc_le_def)
  show "?e \<or> ?n"
  proof (cases "vc_map c m")
    case None
    with ms(1) show ?thesis by (auto simp: vc_map_Some_iff [OF assms(2)])
  next
    case (Some t)
    then obtain k where "k < vc_size c" "member_id (records c ! k) = m" "sequence_number (records c ! k) = t"
      by (rule vc_map_SomeE [OF assms(1)])
    with ms Some have "earlier_at c (vc_map d) k" by (auto simp: earlier_at_def)
    with \<open>k < vc_size c\<close> show ?thesis by blast
  qed
qed

lemma missing_bits:
  assumes "vc_wf c" "vc_wf d"
    and vis: "\<forall>j. bit visited j \<longleftrightarrow>
       j < vc_size d \<and> (\<exists>k < vc_size c. member_id (records c ! k) = member_id (records d ! j))"
  shows "bit (visited XOR (push_bit (vc_size d) 1 - 1 AND 0xFFFFFFFF) :: u32) j \<longleftrightarrow>
     j < vc_size d \<and> vc_map c (member_id (records d ! j)) = None"
proof -
  have "vc_size d \<le> MAX_VECTOR_SIZE" using assms(2) by (simp add: vc_wf_def)
  then have "j < vc_size d \<and> j < 32 \<longleftrightarrow> j < vc_size d" by auto
  then have "bit (visited XOR (push_bit (vc_size d) 1 - 1 AND 0xFFFFFFFF) :: u32) j \<longleftrightarrow>
      bit visited j \<noteq> (j < vc_size d)"
    by (simp only: all_ones_u32 bit_xor_iff bit_mask_u32)
  then show ?thesis
    unfolding vc_map_None_iff [OF assms(1)] vis [rule_format] by blast
qed

text \<open>\<^verbatim>\<open>vector_clock_compare\<close> without merging computes the order of versions.\<close>

lemma vector_clock_compare_nomerge:
  assumes "vc_wf c" "vc_wf d"
  shows "vector_clock_compare c d False = Some (vc_compare_spec (vc_map c) (vc_map d), c)"
proof -
  obtain t where t: "for_loop 0 (vc_size c) (compare_step d False) (VC_EQUAL, 0, c) = Some t"
    "compare_inv c d False (vc_size c) t" using first_loop_ok [OF assms] by blast
  have "merged_at False b r = r" for b r by (simp add: merged_at_def split: option.splits)
  then have id: "map (merged_at False (vc_map d)) xs = xs" for xs by (simp add: map_idI)
  obtain visited where t_eq: "t = (comp_of (\<exists>k < vc_size c. later_at c (vc_map d) k)
      (\<exists>k < vc_size c. earlier_at c (vc_map d) k), visited, c)"
    and vis: "\<forall>j. bit visited j \<longleftrightarrow>
       j < vc_size d \<and> (\<exists>k < vc_size c. member_id (records c ! k) = member_id (records d ! j))"
    using t(2) by (cases t) (auto simp: compare_inv_def id)
  let ?miss = "visited XOR (push_bit (vc_size d) 1 - 1 AND 0xFFFFFFFF) :: u32"
  have miss: "?miss \<noteq> 0 \<longleftrightarrow> (\<exists>j < vc_size d. vc_map c (member_id (records d ! j)) = None)"
    using missing_bits [OF assms vis] by (metis bit_0_eq bot_apply bot_bool_def bit_word_eqI)
  have one: "shift_one (vc_size d) = Some (push_bit (vc_size d) 1)"
    using assms(2) by (simp add: shift_one_def vc_wf_def)
  have "comp_of (\<not> vc_le (vc_map c) (vc_map d)) (\<not> vc_le (vc_map d) (vc_map c)) =
      (if ?miss \<noteq> 0 then comp_of (\<exists>k < vc_size c. later_at c (vc_map d) k) True
       else comp_of (\<exists>k < vc_size c. later_at c (vc_map d) k) (\<exists>k < vc_size c. earlier_at c (vc_map d) k))"
    unfolding miss earlier_iff [OF assms, symmetric] later_iff [OF assms(1), symmetric]
    by (cases "\<exists>j < vc_size d. vc_map c (member_id (records d ! j)) = None")
       (simp_all only: if_True if_False simp_thms)
  then show ?thesis
    unfolding vc_compare_spec_comp_of vector_clock_compare_def t(1) t_eq one Let_def by simp
qed

text \<open>With merging, as long as the originators of both clocks fit: the pointwise maximum.\<close>

lemma dom_vc_map: "vc_wf c \<Longrightarrow> dom (vc_map c) = (\<lambda>i. member_id (records c ! i)) ` {..<vc_size c}"
  by (auto simp: dom_def vc_map_Some_iff image_iff)

lemma card_dom_vc_map: "vc_wf c \<Longrightarrow> card (dom (vc_map c)) = vc_size c"
  unfolding dom_vc_map by (subst card_image) (auto simp: inj_on_def intro: vc_wf_inj)

lemma merged_clock:
  fixes b :: "member_id_t \<rightharpoonup> u32"
  assumes "vc_inv c"
  defines "c' \<equiv> c\<lparr>records := map (merged_at True b) (take (vc_size c) (records c)) @ drop (vc_size c) (records c)\<rparr>"
  shows "vc_inv c'" "vc_size c' = vc_size c"
    "vc_map c' = (\<lambda>m. case vc_map c m of None \<Rightarrow> None
       | Some s \<Rightarrow> (case b m of None \<Rightarrow> Some s | Some t \<Rightarrow> Some (max s t)))"
proof -
  have wf: "vc_wf c" and n: "vc_size c \<le> length (records c)"
    using assms(1) by (auto simp: vc_inv_def vc_wf_def)
  have nth': "records c' ! i = merged_at True b (records c ! i)" if "i < vc_size c" for i
    using that n by (simp add: c'_def nth_append)
  have wf': "vc_wf c'"
    unfolding vc_wf_iff
  proof (intro conjI allI impI)
    show "length (records c') = MAX_VECTOR_SIZE" "vc_size c' \<le> MAX_VECTOR_SIZE"
      using wf by (auto simp: c'_def vc_wf_def)
    fix i j assume "i < vc_size c'" "j < vc_size c'" "member_id (records c' ! i) = member_id (records c' ! j)"
    then show "i = j" using vc_wf_inj [OF wf, of i j] nth' by (auto simp: c'_def)
  qed
  then show "vc_inv c'" using assms(1) by (simp add: vc_inv_def c'_def)
  show size: "vc_size c' = vc_size c" by (simp add: c'_def)
  have seq: "sequence_number (merged_at True b r) =
      (case b (member_id r) of None \<Rightarrow> sequence_number r | Some t \<Rightarrow> max (sequence_number r) t)" for r
    by (auto simp: merged_at_def max_def split: option.splits)
  show "vc_map c' = (\<lambda>m. case vc_map c m of None \<Rightarrow> None
       | Some s \<Rightarrow> (case b m of None \<Rightarrow> Some s | Some t \<Rightarrow> Some (max s t)))"
  proof
    fix m
    show "vc_map c' m = (case vc_map c m of None \<Rightarrow> None
       | Some s \<Rightarrow> (case b m of None \<Rightarrow> Some s | Some t \<Rightarrow> Some (max s t)))"
    proof (cases "vc_map c m")
      case None
      then have "vc_map c' m = None"
        unfolding vc_map_None_iff [OF wf] vc_map_None_iff [OF wf'] by (simp add: nth' size)
      with None show ?thesis by simp
    next
      case (Some s)
      then obtain i where i: "i < vc_size c" "member_id (records c ! i) = m" "sequence_number (records c ! i) = s"
        by (rule vc_map_SomeE [OF wf])
      then have "vc_map c' m = Some (sequence_number (merged_at True b (records c ! i)))"
        using vc_map_nth [OF wf', of i] nth' [OF i(1)] by (simp add: c'_def)
      then show ?thesis using Some i by (simp add: seq split: option.splits)
    qed
  qed
qed

text \<open>The records of \<open>d\<close> whose originator \<open>c\<close> does not know, as the mask selects them.\<close>

lemma missing_records:
  fixes miss :: u32
  assumes "vc_wf c" "vc_wf d"
    and miss: "\<And>j. bit miss j \<longleftrightarrow> j < vc_size d \<and> vc_map c (member_id (records d ! j)) = None"
  defines "rs \<equiv> map ((!) (records d)) (filter (\<lambda>j. bit miss (j - 0)) [0..<0 + 32])"
  shows "distinct (map member_id rs)" "member_id ` set rs = dom (vc_map d) - dom (vc_map c)"
    "map_of (map (\<lambda>r. (member_id r, sequence_number r)) rs) = vc_map d |` (- dom (vc_map c))"
    "length rs = card (dom (vc_map d) - dom (vc_map c))"
proof -
  let ?js = "filter (\<lambda>j. bit miss (j - 0)) [0..<0 + 32]"
  have "vc_size d \<le> MAX_VECTOR_SIZE" using assms(2) by (simp add: vc_wf_def)
  then have js: "set ?js = {j. j < vc_size d \<and> vc_map c (member_id (records d ! j)) = None}"
    by (auto simp: miss)
  show d: "distinct (map member_id rs)"
    unfolding rs_def map_map
    using vc_wf_inj [OF assms(2)] js by (subst distinct_map) (auto simp: inj_on_def)
  have rs: "set rs = (!) (records d) ` {j. j < vc_size d \<and> vc_map c (member_id (records d ! j)) = None}"
    unfolding rs_def set_map js ..
  show ids: "member_id ` set rs = dom (vc_map d) - dom (vc_map c)"
    unfolding rs dom_vc_map [OF assms(2)] by (auto simp: image_iff)
  have "length rs = card (set (map member_id rs))" using distinct_card [OF d] by simp
  then show "length rs = card (dom (vc_map d) - dom (vc_map c))" by (simp add: ids)
  show "map_of (map (\<lambda>r. (member_id r, sequence_number r)) rs) = vc_map d |` (- dom (vc_map c))"
  proof (rule map_ext_Some)
    fix m s
    have "distinct (map fst (map (\<lambda>r. (member_id r, sequence_number r)) rs))"
      using d by (simp add: comp_def)
    then have "map_of (map (\<lambda>r. (member_id r, sequence_number r)) rs) m = Some s \<longleftrightarrow>
        (\<exists>j < vc_size d. vc_map c (member_id (records d ! j)) = None
            \<and> member_id (records d ! j) = m \<and> sequence_number (records d ! j) = s)"
      by (simp add: map_of_eq_Some_iff rs image_iff) blast
    also have "\<dots> \<longleftrightarrow> (vc_map d |` (- dom (vc_map c))) m = Some s"
      by (auto simp: restrict_map_def vc_map_Some_iff [OF assms(2)] domIff)
    finally show "map_of (map (\<lambda>r. (member_id r, sequence_number r)) rs) m = Some s \<longleftrightarrow>
        (vc_map d |` (- dom (vc_map c))) m = Some s" .
  qed
qed

lemma vector_clock_compare_merge:
  assumes "vc_inv c" "vc_wf d" "card (dom (vc_map c) \<union> dom (vc_map d)) \<le> MAX_VECTOR_SIZE"
  shows "\<exists>c'. vector_clock_compare c d True = Some (vc_compare_spec (vc_map c) (vc_map d), c')
           \<and> vc_inv c' \<and> vc_map c' = vc_join (vc_map c) (vc_map d)"
proof -
  note wf = vc_inv_wf [OF assms(1)]
  obtain t where t: "for_loop 0 (vc_size c) (compare_step d True) (VC_EQUAL, 0, c) = Some t"
    "compare_inv c d True (vc_size c) t" using first_loop_ok [OF wf assms(2)] by blast
  let ?c1 = "c\<lparr>records := map (merged_at True (vc_map d)) (take (vc_size c) (records c))
                @ drop (vc_size c) (records c)\<rparr>"
  note c1 = merged_clock [OF assms(1), of "vc_map d"]
  obtain visited where t_eq: "t = (comp_of (\<exists>k < vc_size c. later_at c (vc_map d) k)
      (\<exists>k < vc_size c. earlier_at c (vc_map d) k), visited, ?c1)"
    and vis: "\<forall>j. bit visited j \<longleftrightarrow>
       j < vc_size d \<and> (\<exists>k < vc_size c. member_id (records c ! k) = member_id (records d ! j))"
    using t(2) by (cases t) (auto simp: compare_inv_def)
  let ?miss = "visited XOR (push_bit (vc_size d) 1 - 1 AND 0xFFFFFFFF) :: u32"
  note bits = missing_bits [OF wf assms(2) vis]
  have miss: "?miss \<noteq> 0 \<longleftrightarrow> (\<exists>j < vc_size d. vc_map c (member_id (records d ! j)) = None)"
    using bits by (metis bit_0_eq bot_apply bot_bool_def bit_word_eqI)
  have one: "shift_one (vc_size d) = Some (push_bit (vc_size d) 1)"
    using assms(2) by (simp add: shift_one_def vc_wf_def)
  let ?rs = "map ((!) (records d)) (filter (\<lambda>j. bit ?miss (j - 0)) [0..<0 + 32])"
  note rs = missing_records [OF wf assms(2) bits]
  have dom1: "dom (vc_map ?c1) = dom (vc_map c)"
    unfolding c1(3) by (auto split: option.splits)
  have "card (dom (vc_map c) \<union> dom (vc_map d)) = vc_size c + card (dom (vc_map d) - dom (vc_map c))"
    using card_dom_vc_map [OF wf] dom_vc_map [OF wf] dom_vc_map [OF assms(2)]
    by (subst Un_Diff_cancel [symmetric], subst card_Un_disjoint) auto
  then have room: "vc_size ?c1 + length ?rs \<le> MAX_VECTOR_SIZE" using assms(3) rs(4) c1(2) by simp
  have "\<forall>r \<in> set ?rs. member_id r \<notin> dom (vc_map ?c1)" using rs(2) dom1 by blast
  then obtain c' where c': "set_all ?c1 ?rs = Some c'" "vc_inv c'"
    "vc_map c' = vc_map ?c1 ++ map_of (map (\<lambda>r. (member_id r, sequence_number r)) ?rs)"
    using set_all_ok [OF c1(1) room rs(1)] by blast
  have join: "vc_map c' = vc_join (vc_map c) (vc_map d)"
    unfolding c'(3) rs(3) c1(3) vc_join_def
    by (rule ext) (auto simp: map_add_def restrict_map_def split: option.splits)
  have "vc_size d \<le> length (records d)" using assms(2) by (simp add: vc_wf_def)
  then have loop: "merge_missing 0 ?miss d ?c1 = Some c'"
    using merge_missing_set_all [of ?miss 0 d ?c1] bits c'(1) by simp
  have verdict: "comp_of (\<not> vc_le (vc_map c) (vc_map d)) (\<not> vc_le (vc_map d) (vc_map c)) =
      (if ?miss \<noteq> 0 then comp_of (\<exists>k < vc_size c. later_at c (vc_map d) k) True
       else comp_of (\<exists>k < vc_size c. later_at c (vc_map d) k) (\<exists>k < vc_size c. earlier_at c (vc_map d) k))"
    unfolding miss earlier_iff [OF wf assms(2), symmetric] later_iff [OF wf, symmetric]
    by (cases "\<exists>j < vc_size d. vc_map c (member_id (records d ! j)) = None")
       (simp_all only: if_True if_False simp_thms)
  have none: "?miss = 0 \<Longrightarrow> ?c1 = c'" using loop by (simp add: merge_missing.simps)
  have "vector_clock_compare c d True = Some (vc_compare_spec (vc_map c) (vc_map d), c')"
    unfolding vc_compare_spec_comp_of vector_clock_compare_def t(1) t_eq one Let_def
    using loop verdict none by simp
  then show ?thesis using c'(2) join by blast
qed

section \<open>The order of versions as an interface\<close>

text \<open>
  What a client of the comparison relies on: it computes the order of the maps and leaves the
  clocks alone. The laws of an order follow once and for all.
\<close>

locale version_order =
  fixes ok :: "'c \<Rightarrow> bool"
    and known :: "'c \<Rightarrow> ('m \<rightharpoonup> u32)"
    and compare :: "'c \<Rightarrow> 'c \<Rightarrow> (vector_clock_comp_res \<times> 'c) option"
  assumes compare_ok: "ok c \<Longrightarrow> ok d \<Longrightarrow> compare c d = Some (vc_compare_spec (known c) (known d), c)"
begin

lemma compare_equal_iff:
  "ok c \<Longrightarrow> ok d \<Longrightarrow> compare c d = Some (VC_EQUAL, c) \<longleftrightarrow> known c = known d"
  by (auto simp: compare_ok vc_compare_spec_def)

lemma compare_before_iff:
  "ok c \<Longrightarrow> ok d \<Longrightarrow>
     compare c d = Some (VC_BEFORE, c) \<longleftrightarrow> vc_le (known c) (known d) \<and> known c \<noteq> known d"
  by (auto simp: compare_ok vc_compare_spec_def)

lemma compare_dual:
  "ok c \<Longrightarrow> ok d \<Longrightarrow> compare c d = Some (VC_BEFORE, c) \<longleftrightarrow> compare d c = Some (VC_AFTER, d)"
  by (auto simp: compare_ok vc_compare_spec_def dest: vc_le_antisym)

lemma compare_trans:
  "ok c \<Longrightarrow> ok d \<Longrightarrow> ok f \<Longrightarrow> compare c d = Some (VC_BEFORE, c) \<Longrightarrow> compare d f = Some (VC_BEFORE, d)
     \<Longrightarrow> compare c f = Some (VC_BEFORE, c)"
  unfolding compare_before_iff by (metis vc_le_antisym vc_le_trans)

end

interpretation clock_order: version_order vc_wf vc_map "\<lambda>c d. vector_clock_compare c d False"
  by unfold_locales (rule vector_clock_compare_nomerge)

text \<open>
  A store of versions that is told of one record after the other, and the records that are
  news to it. \<open>news\<close> is the specification: a record passes when its originator is unknown or
  known only up to an earlier sequence number.
\<close>

fun observe_all ::
  "('c \<Rightarrow> vector_record \<Rightarrow> (vector_clock_comp_res \<times> 'c) option) \<Rightarrow> 'c \<Rightarrow> vector_record list
     \<Rightarrow> (vector_record list \<times> 'c) option" where
  "observe_all observe c [] = Some ([], c)"
| "observe_all observe c (r # rs) = do {
     (v, c) \<leftarrow> observe c r;
     (out, c) \<leftarrow> observe_all observe c rs;
     Some (if v = VC_BEFORE then (r # out, c) else (out, c))
   }"

fun news :: "(member_id_t \<rightharpoonup> u32) \<Rightarrow> vector_record list \<Rightarrow> vector_record list" where
  "news k [] = []"
| "news k (r # rs) =
     (if record_verdict (k (member_id r)) (sequence_number r) = VC_BEFORE
      then r # news (k(member_id r \<mapsto> sequence_number r)) rs else news k rs)"

text \<open>What a store that knew \<open>k\<close> knows after records it took as news.\<close>

definition known_after :: "(member_id_t \<rightharpoonup> u32) \<Rightarrow> vector_record list \<Rightarrow> (member_id_t \<rightharpoonup> u32)" where
  "known_after k rs = foldl (\<lambda>k r. k(member_id r \<mapsto> sequence_number r)) k rs"

lemma news_above: "r \<in> set (news k rs) \<Longrightarrow> k (member_id r) = Some s \<Longrightarrow> s < sequence_number r"
proof (induction k rs arbitrary: s rule: news.induct)
  case (2 k r' rs)
  show ?case
  proof (cases "record_verdict (k (member_id r')) (sequence_number r') = VC_BEFORE")
    case True
    with "2.prems" consider "r = r'" | "r \<in> set (news (k(member_id r' \<mapsto> sequence_number r')) rs)"
      by auto
    then show ?thesis
    proof cases
      case 1
      then show ?thesis using True "2.prems"(2) by (auto simp: record_verdict_def split: if_splits)
    next
      case 2
      show ?thesis
      proof (cases "member_id r = member_id r'")
        case same: True
        then have "sequence_number r' < sequence_number r" using "2.IH"(1) [OF True 2] by simp
        moreover have "s < sequence_number r'"
          using True "2.prems"(2) same by (auto simp: record_verdict_def split: if_splits)
        ultimately show ?thesis by simp
      qed (use "2.IH"(1) [OF True 2] "2.prems"(2) in simp)
    qed
  qed (use 2 in simp)
qed simp

lemma news_increasing:
  "sorted_wrt (<) (map sequence_number (filter (\<lambda>r. member_id r = m) (news k rs)))"
proof (induction k rs rule: news.induct)
  case (2 k r rs)
  have "\<forall>r' \<in> set (news (k(member_id r \<mapsto> sequence_number r)) rs).
      member_id r' = member_id r \<longrightarrow> sequence_number r < sequence_number r'"
    using news_above by fastforce
  with 2 show ?case by (auto simp: fun_upd_def)
qed simp

lemma news_complete:
  "r \<in> set rs \<Longrightarrow> \<not> (\<exists>s. k (member_id r) = Some s \<and> sequence_number r \<le> s) \<Longrightarrow>
     \<exists>r' \<in> set (news k rs). member_id r' = member_id r \<and> sequence_number r \<le> sequence_number r'"
proof (induction k rs rule: news.induct)
  case (2 k r' rs)
  show ?case
  proof (cases "record_verdict (k (member_id r')) (sequence_number r') = VC_BEFORE")
    case before: True
    show ?thesis
    proof (cases "member_id r' = member_id r \<and> sequence_number r \<le> sequence_number r'")
      case False
      then have "r \<in> set rs" "\<not> (\<exists>s. (k(member_id r' \<mapsto> sequence_number r')) (member_id r) = Some s \<and> sequence_number r \<le> s)"
        using "2.prems" by auto
      from "2.IH"(1) [OF before this] show ?thesis using before by (metis list.set_intros(2) news.simps(2))
    qed (use before in auto)
  next
    case False
    then have "r \<noteq> r'" using "2.prems"(2) by (auto simp: record_verdict_def split: option.splits if_splits)
    then show ?thesis using 2 False by auto
  qed
qed simp

lemma news_subseq: "subseq (news k rs) rs"
  by (induction k rs rule: news.induct) (auto simp: fun_upd_def)

locale version_store =
  fixes inv :: "'c \<Rightarrow> bool"
    and known :: "'c \<Rightarrow> (member_id_t \<rightharpoonup> u32)"
    and capacity :: nat
    and observe :: "'c \<Rightarrow> vector_record \<Rightarrow> (vector_clock_comp_res \<times> 'c) option"
  assumes finite_known: "inv c \<Longrightarrow> finite (dom (known c))"
    and observe_ok: "inv c \<Longrightarrow> card (insert (member_id r) (dom (known c))) \<le> capacity \<Longrightarrow>
      \<exists>c'. observe c r = Some (record_verdict (known c (member_id r)) (sequence_number r), c') \<and> inv c'
         \<and> known c' = (if record_verdict (known c (member_id r)) (sequence_number r) = VC_BEFORE
              then (known c)(member_id r \<mapsto> sequence_number r) else known c)"
begin

text \<open>As long as the originators fit, exactly the news pass.\<close>

lemma observe_all_news:
  "inv c \<Longrightarrow> card (dom (known c) \<union> member_id ` set rs) \<le> capacity \<Longrightarrow>
     \<exists>c'. observe_all observe c rs = Some (news (known c) rs, c') \<and> inv c' \<and> vc_le (known c) (known c')
       \<and> known c' = known_after (known c) (news (known c) rs)
       \<and> (\<forall>r \<in> set rs. \<exists>s. known c' (member_id r) = Some s \<and> sequence_number r \<le> s)"
proof (induction rs arbitrary: c)
  case (Cons r rs)
  let ?v = "record_verdict (known c (member_id r)) (sequence_number r)"
  let ?all = "dom (known c) \<union> member_id ` set (r # rs)"
  have fin: "finite ?all" using finite_known [OF Cons.prems(1)] by simp
  have "card (insert (member_id r) (dom (known c))) \<le> card ?all" using fin by (intro card_mono) auto
  then have "card (insert (member_id r) (dom (known c))) \<le> capacity" using Cons.prems(2) by simp
  then obtain c1 where c1: "observe c r = Some (?v, c1)" "inv c1"
    "known c1 = (if ?v = VC_BEFORE then (known c)(member_id r \<mapsto> sequence_number r) else known c)"
    using observe_ok [OF Cons.prems(1)] by blast
  have "card (dom (known c1) \<union> member_id ` set rs) \<le> card ?all"
    using fin c1(3) by (intro card_mono) (auto split: if_splits)
  then have "card (dom (known c1) \<union> member_id ` set rs) \<le> capacity" using Cons.prems(2) by simp
  then obtain c' where c': "observe_all observe c1 rs = Some (news (known c1) rs, c')" "inv c'"
    "vc_le (known c1) (known c')" "known c' = known_after (known c1) (news (known c1) rs)"
    "\<forall>r \<in> set rs. \<exists>s. known c' (member_id r) = Some s \<and> sequence_number r \<le> s"
    using Cons.IH [OF c1(2)] by blast
  have "vc_le (known c) (known c1)" "\<exists>s. known c1 (member_id r) = Some s \<and> sequence_number r \<le> s"
    using c1(3) by (auto simp: vc_le_def record_verdict_def split: option.splits if_splits)
  then have "vc_le (known c) (known c')" "\<exists>s. known c' (member_id r) = Some s \<and> sequence_number r \<le> s"
    using c'(3) vc_le_trans by (blast, fastforce simp: vc_le_def)
  then show ?case using c1 c' by (auto simp: known_after_def)
qed (simp add: known_after_def)

end

interpretation clock_store: version_store vc_inv vc_map 20
  "\<lambda>c r. vector_clock_compare_with_record c r True"
proof unfold_locales
  fix c :: vector_clock and r :: vector_record
  assume inv: "vc_inv c"
  show "finite (dom (vc_map c))" by (simp add: vc_map_def finite_dom_map_of)
  assume room: "card (insert (member_id r) (dom (vc_map c))) \<le> 20"
  have "member_id r \<in> dom (vc_map c) \<or> vc_size c < MAX_VECTOR_SIZE"
  proof (rule ccontr)
    assume "\<not> ?thesis"
    moreover have "finite (dom (vc_map c))" by (simp add: vc_map_def finite_dom_map_of)
    ultimately show False
      using room card_dom_vc_map [OF vc_inv_wf [OF inv]] by simp
  qed
  then have evict: "vc_evict (vc_victim c (member_id r)) (vc_map c) = vc_map c"
    by (auto simp: vc_victim_def vc_evict_def)
  show "\<exists>c'. vector_clock_compare_with_record c r True =
         Some (record_verdict (vc_map c (member_id r)) (sequence_number r), c') \<and> vc_inv c'
       \<and> vc_map c' = (if record_verdict (vc_map c (member_id r)) (sequence_number r) = VC_BEFORE
            then (vc_map c)(member_id r \<mapsto> sequence_number r) else vc_map c)"
    using vector_clock_compare_with_record_merge [OF inv, of r] unfolding evict .
qed

section \<open>Wire format of clocks\<close>

definition record_bytes :: "vector_record \<Rightarrow> u8 list" where
  "record_bytes r = be_bytes (sequence_number r) @ mem_of_word (member_id r)"

definition clock_bytes :: "vector_clock \<Rightarrow> u8 list" where
  "clock_bytes c = be16 (of_nat (vc_size c)) @ concat (map record_bytes (take (vc_size c) (records c)))"

lemma length_record_bytes [simp]: "length (record_bytes r) = 12"
  by (simp add: record_bytes_def)

lemma length_concat_records [simp]: "length (concat (map record_bytes rs)) = 12 * length rs"
  by (induction rs) simp_all

lemma length_clock_bytes: "vc_wf c \<Longrightarrow> length (clock_bytes c) = 2 + 12 * vc_size c"
  by (simp add: clock_bytes_def vc_wf_def)

lemma vector_clock_record_encode_write [codec_simps]:
  "vector_clock_record_encode r buffer off n =
     (if n < 12 then Some (Inl PITTACUS_ERR_BUFFER_NOT_ENOUGH, buffer)
      else do { b \<leftarrow> mem_write buffer off (record_bytes r); Some (Inr 12, b) })"
  by (auto simp: vector_clock_record_encode_def record_bytes_def codec_simps mem_simps)

lemma vector_clock_record_decode_bytes [codec_simps]:
  "12 \<le> n \<Longrightarrow> vector_clock_record_decode (record_bytes r @ rest) n = Some (Inr (12, r))"
  by (simp add: vector_clock_record_decode_def record_bytes_def codec_simps mem_simps)

lemma encode_records_write:
  assumes "i + n \<le> length recs" "cursor + 12 * n \<le> buffer_end" "buffer_end \<le> length buffer"
    "buffer_end < 2 ^ 64"
  shows "encode_records recs buffer_end n i buffer cursor = do {
           b \<leftarrow> mem_write buffer cursor (concat (map record_bytes (take n (drop i recs))));
           Some (Inr (cursor + 12 * n), b) }"
  using assms
proof (induction n arbitrary: i buffer cursor)
  case 0
  then show ?case by (simp add: mem_write_def)
next
  case (Suc n)
  have i: "i < length recs" using Suc.prems by simp
  have size: "size_of_diff (int buffer_end - int cursor) = buffer_end - cursor"
    using Suc.prems by (simp add: nat_diff_distrib flip: of_nat_diff)
  have room: "\<not> buffer_end - cursor < 12" using Suc.prems by simp
  obtain b where b: "mem_write buffer cursor (record_bytes (recs ! i)) = Some b"
    using Suc.prems by (simp add: mem_write_def)
  have "length b = length buffer" using b by (rule mem_write_Some_length)
  then have "encode_records recs buffer_end n (Suc i) b (cursor + 12) = do {
      b \<leftarrow> mem_write b (cursor + 12) (concat (map record_bytes (take n (drop (Suc i) recs))));
      Some (Inr (cursor + 12 + 12 * n), b) }"
    using Suc.prems by (intro Suc.IH) auto
  then have "encode_records recs buffer_end (Suc n) i buffer cursor =
      mem_write buffer cursor (record_bytes (recs ! i)) \<bind> (\<lambda>b.
        mem_write b (cursor + 12) (concat (map record_bytes (take n (drop (Suc i) recs)))) \<bind>
          (\<lambda>b. Some (Inr (cursor + 12 + 12 * n), b)))"
    using i size b room by (simp add: arr_get_in codec_simps)
  also have "\<dots> = mem_write buffer cursor
      (record_bytes (recs ! i) @ concat (map record_bytes (take n (drop (Suc i) recs)))) \<bind>
          (\<lambda>b. Some (Inr (cursor + 12 + 12 * n), b))"
    by (intro mem_write_bind) simp
  also have "record_bytes (recs ! i) @ concat (map record_bytes (take n (drop (Suc i) recs))) =
      concat (map record_bytes (take (Suc n) (drop i recs)))"
    using i by (simp add: Cons_nth_drop_Suc [symmetric])
  finally show ?case by (simp only: mult_Suc_right add.assoc)
qed

lemma vector_clock_encode_write:
  assumes "vc_wf c" "off + n \<le> length buffer" "length buffer < 2 ^ 64"
  shows "vector_clock_encode c buffer off n =
           (if n < 2 + 12 * vc_size c then Some (Inl PITTACUS_ERR_BUFFER_NOT_ENOUGH, buffer)
            else do { b \<leftarrow> mem_write buffer off (clock_bytes c); Some (Inr (2 + 12 * vc_size c), b) })"
proof (cases "n < 2 + 12 * vc_size c")
  case True
  then show ?thesis by (simp add: vector_clock_encode_def)
next
  case False
  let ?rs = "concat (map record_bytes (take (vc_size c) (records c)))"
  obtain b where b: "mem_write buffer off (be16 (of_nat (vc_size c))) = Some b"
    using assms(2) False by (simp add: mem_write_def)
  have "encode_records (records c) (off + n) (vc_size c) 0 b (off + 2) = do {
      b \<leftarrow> mem_write b (off + 2) (concat (map record_bytes (take (vc_size c) (drop 0 (records c)))));
      Some (Inr (off + 2 + 12 * vc_size c), b) }"
    using assms False mem_write_Some_length [OF b]
    by (intro encode_records_write) (auto simp: vc_wf_def)
  moreover have "mem_write b (off + 2) ?rs = mem_write buffer off (clock_bytes c)"
    using mem_write_mem_write [of "off + 2" off "be16 (of_nat (vc_size c))" buffer ?rs] b
    by (simp add: clock_bytes_def)
  ultimately have "encode_records (records c) (off + n) (vc_size c) 0 b (off + 2) = do {
      b \<leftarrow> mem_write buffer off (clock_bytes c); Some (Inr (off + 2 + 12 * vc_size c), b) }" by simp
  then show ?thesis
    using False b by (auto simp: vector_clock_encode_def codec_simps split: Option.bind_splits)
qed

lemma decode_records_bytes:
  assumes "length rs = n" "i + n \<le> length old" "length pre + 12 * n \<le> buffer_size" "buffer_size < 2 ^ 64"
  shows "decode_records (pre @ concat (map record_bytes rs) @ rest) buffer_size n i (length pre) old =
           Some (Inr (length pre + 12 * n), take i old @ rs @ drop (i + n) old)"
  using assms
proof (induction n arbitrary: rs i pre old)
  case (Suc n)
  obtain r rs' where rs: "rs = r # rs'" using Suc.prems(1) by (cases rs) auto
  have size: "size_of_diff (int buffer_size - int (length pre)) = buffer_size - length pre"
    using Suc.prems by (simp add: nat_diff_distrib flip: of_nat_diff)
  have "decode_records ((pre @ record_bytes r) @ concat (map record_bytes rs') @ rest) buffer_size n (Suc i)
      (length (pre @ record_bytes r)) (old[i := r]) =
      Some (Inr (length (pre @ record_bytes r) + 12 * n), take (Suc i) (old[i := r]) @ rs' @ drop (Suc i + n) (old[i := r]))"
    using Suc.prems rs by (intro Suc.IH) auto
  then show ?case
    using Suc.prems rs size by (simp add: codec_simps arr_set_in take_Suc_update add.commute [of 12])
qed simp

text \<open>
  Decoding what was encoded: the same records, so the same map. The write position of the
  decoded clock is always 0.
\<close>

lemma vector_clock_decode_bytes:
  assumes "vc_wf c" "length (records old) = MAX_VECTOR_SIZE" "2 + 12 * vc_size c \<le> n" "n < 2 ^ 64"
  defines "c' \<equiv> \<lparr>vc_size = vc_size c, current_idx = 0,
                 records = take (vc_size c) (records c) @ drop (vc_size c) (records old)\<rparr>"
  shows "vector_clock_decode (clock_bytes c @ rest) n old = Some (Inr (2 + 12 * vc_size c), c')"
    and "vc_wf c'" "vc_map c' = vc_map c"
proof -
  have size: "vc_size c \<le> 20" "length (take (vc_size c) (records c)) = vc_size c"
    using assms(1) by (auto simp: vc_wf_def)
  have u: "unat (of_nat (vc_size c) :: u16) = vc_size c"
    using size(1) by (simp add: unat_of_nat)
  have "decode_records (be16 (of_nat (vc_size c)) @ concat (map record_bytes (take (vc_size c) (records c))) @ rest)
      n (vc_size c) 0 (length (be16 (of_nat (vc_size c)))) (records old) =
      Some (Inr (length (be16 (of_nat (vc_size c))) + 12 * vc_size c),
        take 0 (records old) @ take (vc_size c) (records c) @ drop (0 + vc_size c) (records old))"
    using assms size by (intro decode_records_bytes) auto
  then show "vector_clock_decode (clock_bytes c @ rest) n old = Some (Inr (2 + 12 * vc_size c), c')"
    using assms(3,4) by (simp add: vector_clock_decode_def clock_bytes_def codec_simps u c'_def)
  show "vc_wf c'" using assms(1,2) size by (simp add: vc_wf_def c'_def)
  show "vc_map c' = vc_map c" using size by (simp add: vc_map_def vc_pairs_def c'_def)
qed

text \<open>
  A message may announce more records than the array holds. Nothing rejects it: if the bytes
  are there, decoding writes outside the array.
\<close>

lemma decode_records_overflow:
  assumes "length old < i + n" "i \<le> length old" "cursor + 12 * n \<le> buffer_size" "buffer_size < 2 ^ 64"
  shows "decode_records buffer buffer_size n i cursor old = None"
  using assms
proof (induction n arbitrary: i cursor old)
  case (Suc n)
  have size: "size_of_diff (int buffer_size - int cursor) = buffer_size - cursor"
    using Suc.prems by (simp add: nat_diff_distrib flip: of_nat_diff)
  show ?case
  proof (cases "vector_clock_record_decode (drop cursor buffer) (buffer_size - cursor)")
    case (Some res)
    then obtain r where "res = Inr (12, r)"
      using Suc.prems by (auto simp: vector_clock_record_decode_def split: if_splits Option.bind_splits)
    moreover have "decode_records buffer buffer_size n (Suc i) (cursor + 12) (old[i := r]) = None"
      if "i < length old" using Suc.prems that by (intro Suc.IH) auto
    ultimately show ?thesis using Some size by (simp add: arr_set_def)
  qed (simp add: size)
qed simp

lemma vector_clock_decode_overflow:
  assumes "uint16_decode buffer 0 = Some sz" "MAX_VECTOR_SIZE < unat sz"
    "2 + 12 * unat sz \<le> n" "n < 2 ^ 64" "length (records old) = MAX_VECTOR_SIZE"
  shows "vector_clock_decode buffer n old = None"
proof -
  have "decode_records buffer n (unat sz) 0 2 (records old) = None"
    using assms by (intro decode_records_overflow) auto
  then show ?thesis using assms by (simp add: vector_clock_decode_def)
qed

section \<open>Clocks from the network\<close>

text \<open>
  A decoded clock may name an originator twice, so only its bounds are known
  (\<open>vc_bounded\<close>). Searching it and comparing with it is still defined.
\<close>

definition vc_bounded :: "vector_clock \<Rightarrow> bool" where
  "vc_bounded c \<longleftrightarrow> length (records c) = MAX_VECTOR_SIZE \<and> vc_size c \<le> MAX_VECTOR_SIZE"

lemma vc_wf_bounded: "vc_wf c \<Longrightarrow> vc_bounded c"
  by (simp add: vc_wf_def vc_bounded_def)

lemma find_bounded:
  assumes "vc_bounded c"
  obtains "vector_clock_find_by_member_id c m = Some None"
  | i where "vector_clock_find_by_member_id c m = Some (Some i)" "i < vc_size c" "i < length (records c)"
proof -
  let ?P = "\<lambda>i. member_id (records c ! i) = m"
  have find: "vector_clock_find_by_member_id c m = Some (List.find ?P [0..<vc_size c])"
    unfolding vector_clock_find_by_member_id_def
    using assms by (intro find_loop_eq_find) (simp add: vc_bounded_def arr_get_in)
  show thesis
  proof (cases "List.find ?P [0..<vc_size c]")
    case None
    with that(1) find show thesis by simp
  next
    case (Some i)
    then have "i < vc_size c" by (auto simp: find_upt_Some_iff)
    with that(2) find Some assms show thesis by (simp add: vc_bounded_def)
  qed
qed

lemma compare_with_record_bounded:
  assumes "vc_bounded c"
  shows "\<exists>v. vector_clock_compare_with_record c r False = Some (v, c)"
  by (cases rule: find_bounded [OF assms, of "member_id r"])
    (auto simp: vector_clock_compare_with_record_def arr_get_in Let_def)

lemma compare_step_bounded:
  assumes "vc_bounded c" "vc_bounded d" "i < vc_size c"
  shows "\<exists>t. compare_step d False i (v, w, c) = Some t \<and> snd (snd t) = c"
proof (cases rule: find_bounded [OF assms(2), of "member_id (records c ! i)"])
  case 1
  then show ?thesis using assms by (simp add: compare_step_def vc_bounded_def arr_get_in)
next
  case (2 j)
  then have "j < 31" using assms(2) by (simp add: vc_bounded_def)
  with 2 show ?thesis using assms by (simp add: compare_step_def vc_bounded_def arr_get_in shift_one_def Let_def)
qed

lemma vector_clock_compare_bounded:
  assumes "vc_bounded c" "vc_bounded d"
  shows "\<exists>v. vector_clock_compare c d False = Some (v, c)"
proof -
  have "\<exists>t. for_loop 0 (vc_size c) (compare_step d False) (VC_EQUAL, 0, c) = Some t \<and> snd (snd t) = c"
  proof (rule for_loop_total [where I = "\<lambda>i t. snd (snd t) = c"])
    fix k and t :: "vector_clock_comp_res \<times> u32 \<times> vector_clock"
    assume "k < vc_size c" "snd (snd t) = c"
    then show "\<exists>t'. compare_step d False k t = Some t' \<and> snd (snd t') = c"
      using compare_step_bounded [OF assms, of k "fst t" "fst (snd t)"] by (cases t) auto
  qed auto
  moreover have "shift_one (vc_size d) = Some (push_bit (vc_size d) 1)"
    using assms(2) by (simp add: shift_one_def vc_bounded_def)
  ultimately show ?thesis by (auto simp: vector_clock_compare_def Let_def)
qed

lemma decode_records_length:
  "decode_records buffer n k i cur old = Some (r, recs) \<Longrightarrow> length recs = length old"
  by (induction buffer n k i cur old rule: decode_records.induct)
    (auto split: Option.bind_splits sum.splits)

lemma vector_clock_decode_bounded:
  assumes "vector_clock_decode buffer n old = Some (Inr k, c)" "length (records old) = MAX_VECTOR_SIZE"
    "uint16_decode buffer 0 = Some s" "unat s \<le> MAX_VECTOR_SIZE"
  shows "vc_bounded c"
  using assms decode_records_length
  by (fastforce simp: vector_clock_decode_def vc_bounded_def split: Option.bind_splits if_splits)

text \<open>Decoding is defined when the announced size is within the array and the bytes are there.\<close>

lemma decode_records_defined:
  assumes "i + k \<le> length old" "cursor + 12 * k \<le> n" "n \<le> length buffer" "n < 2 ^ 64"
  shows "\<exists>recs. decode_records buffer n k i cursor old = Some (Inr (cursor + 12 * k), recs)"
  using assms
proof (induction k arbitrary: i cursor old)
  case (Suc k)
  have size: "size_of_diff (int n - int cursor) = n - cursor"
    using Suc.prems by (simp add: nat_diff_distrib flip: of_nat_diff)
  have "\<exists>r. vector_clock_record_decode (drop cursor buffer) (n - cursor) = Some (Inr (12, r))"
    using Suc.prems by (auto simp: vector_clock_record_decode_def uint32_decode_def mem_read_def)
  then obtain r where r: "vector_clock_record_decode (drop cursor buffer) (n - cursor) = Some (Inr (12, r))" by blast
  have "\<exists>recs. decode_records buffer n k (Suc i) (cursor + 12) (old[i := r]) = Some (Inr (cursor + 12 + 12 * k), recs)"
    using Suc.prems by (intro Suc.IH) auto
  then show ?case using r size Suc.prems(1) by (simp add: arr_set_in add.assoc)
qed simp

lemma vector_clock_decode_defined:
  assumes "uint16_decode buffer 0 = Some s" "unat s \<le> MAX_VECTOR_SIZE"
    "length (records old) = MAX_VECTOR_SIZE" "2 \<le> n" "n \<le> length buffer" "n < 2 ^ 64"
  shows "\<exists>r. vector_clock_decode buffer n old = Some r"
proof (cases "n - 2 < unat s * 12")
  case True
  then show ?thesis using assms by (simp add: vector_clock_decode_def nat_diff_distrib)
next
  case False
  then have "\<exists>recs. decode_records buffer n (unat s) 0 2 (records old) = Some (Inr (2 + 12 * unat s), recs)"
    using assms by (intro decode_records_defined) auto
  then show ?thesis using assms False by (auto simp: vector_clock_decode_def nat_diff_distrib)
qed

lemma vector_clock_copy_ok:
  assumes "vc_wf src" "length (records dst) = MAX_VECTOR_SIZE"
  shows "\<exists>c. vector_clock_copy dst src = Some c \<and> vc_wf c \<and> vc_map c = vc_map src \<and> vc_size c = vc_size src
           \<and> current_idx c = current_idx src"
proof -
  let ?I = "\<lambda>k recs. recs = take k (records src) @ drop k (records dst)"
  have n: "vc_size src \<le> length (records src)" "length (records src) = length (records dst)"
    using assms by (auto simp: vc_wf_def)
  let ?body = "\<lambda>i recs. do {
         s \<leftarrow> arr_get (records src) i;
         d \<leftarrow> arr_get recs i;
         arr_set recs i (vector_clock_record_copy d s)
       }"
  have copy: "vector_clock_record_copy d s = s" for d s by (simp add: vector_clock_record_copy_def)
  have "\<exists>t'. ?body k t = Some t' \<and> ?I (Suc k) t'" if "0 \<le> k" "k < vc_size src" "?I k t" for k t
  proof -
    have "t[k := records src ! k] = take (Suc k) (records src) @ drop (Suc k) (records dst)"
      using that n by (simp add: list_update_append take_Suc_conv_app_nth Cons_nth_drop_Suc [symmetric])
    then show ?thesis using that n by (simp add: arr_get_in arr_set_in copy)
  qed
  then have "\<exists>recs. for_loop 0 (vc_size src) ?body (records dst) = Some recs \<and> ?I (vc_size src) recs"
    by (intro for_loop_total [where I = ?I]) auto
  then obtain recs where recs: "for_loop 0 (vc_size src) ?body (records dst) = Some recs" "?I (vc_size src) recs"
    by blast
  let ?c = "dst\<lparr>vc_size := vc_size src, current_idx := current_idx src, records := recs\<rparr>"
  have "take (vc_size src) recs = take (vc_size src) (records src)" using recs(2) n by simp
  then have "vc_wf ?c" "vc_map ?c = vc_map src"
    using assms recs(2) n by (auto simp: vc_wf_def vc_map_def vc_pairs_def)
  then show ?thesis using recs(1) by (auto simp: vector_clock_copy_def)
qed

section \<open>Incrementing\<close>

lemma vector_clock_increment_ok:
  assumes "vc_inv c" "vector_clock_create_member_id member = Some m"
  shows "\<exists>i c'. vector_clock_increment c member = Some (i, c') \<and> vc_inv c'
           \<and> (i = None \<longleftrightarrow> m \<notin> dom (vc_map c))
           \<and> vc_map c' = (case vc_map c m of None \<Rightarrow> vc_map c | Some s \<Rightarrow> (vc_map c)(m \<mapsto> s + 1))"
proof (cases rule: vector_clock_find_ok [OF vc_inv_wf [OF assms(1)], of m])
  case 1
  then show ?thesis
    using assms by (simp add: vector_clock_increment_def vector_clock_find_record_def domIff)
next
  case (2 i)
  have "i < length (records c)" using 2(2) vc_inv_wf [OF assms(1)] by (simp add: vc_wf_def)
  then show ?thesis
    using assms 2 vc_update(2,3) [OF vc_inv_wf [OF assms(1)] 2(2), of "sequence_number (records c ! i) + 1"]
    by (simp add: vector_clock_increment_def vector_clock_find_record_def arr_get_in arr_set_in domIff)
qed

lemma vc_le_upd: "a m = Some s \<Longrightarrow> s \<le> t \<Longrightarrow> vc_le a (a(m \<mapsto> t))"
  by (auto simp: vc_le_def)

section \<open>Properties\<close>

text \<open>Clocks that hold the given records in this order.\<close>

definition ex_clock :: "(member_id_t \<times> u32) list \<Rightarrow> vector_clock" where
  "ex_clock rs = \<lparr>vc_size = length rs, current_idx = length rs mod 20,
     records = map (\<lambda>(m, s). \<lparr>sequence_number = s, member_id = m\<rparr>) rs
       @ replicate (20 - length rs) \<lparr>sequence_number = 0, member_id = 0\<rparr>\<rparr>"

lemma ex_clock_inv [simp]: "length rs \<le> 20 \<Longrightarrow> distinct (map fst rs) \<Longrightarrow> vc_inv (ex_clock rs)"
  by (auto simp: vc_inv_def vc_wf_def ex_clock_def comp_def case_prod_unfold)

lemma ex_clock_wf [simp]: "length rs \<le> 20 \<Longrightarrow> distinct (map fst rs) \<Longrightarrow> vc_wf (ex_clock rs)"
  by (rule vc_inv_wf) simp

lemma ex_clock_map [simp]: "vc_map (ex_clock rs) = map_of rs"
  by (simp add: vc_map_def vc_pairs_def ex_clock_def comp_def case_prod_unfold)

lemma ex_clock_before:
  "length a \<le> 20 \<Longrightarrow> distinct (map fst a) \<Longrightarrow> length b \<le> 20 \<Longrightarrow> distinct (map fst b) \<Longrightarrow>
   vc_le (map_of a) (map_of b) \<Longrightarrow> map_of a \<noteq> map_of b \<Longrightarrow>
   vector_clock_compare (ex_clock a) (ex_clock b) False = Some (VC_BEFORE, ex_clock a)"
  by (simp add: clock_order.compare_before_iff)

lemma ex_member_id: "vector_clock_create_member_id ex_member = Some 0x901F0100007F"
  by code_simp

text \<open>C6. \<^verbatim>\<open>vector_clock_compare\<close> without merging decides the order of versions: of two readable
  clocks it answers EQUAL when both know the same originators equally far, BEFORE or AFTER when one
  knows every originator at least as far as the other, and CONFLICT otherwise, whatever the order
  of the records in the two arrays, and it changes nothing.\<close>

theorem clock_compare_is_order:
  assumes "vc_wf c" "vc_wf d"
  shows "vector_clock_compare c d False = Some (vc_compare_spec (vc_map c) (vc_map d), c)"
  using vector_clock_compare_nomerge [OF assms] .

theorem clock_compare_is_order_witness:
  "vector_clock_compare (ex_clock [(1, 5), (2, 3)]) (ex_clock [(3, 9), (1, 4)]) False
     = Some (vc_compare_spec (vc_map (ex_clock [(1, 5), (2, 3)])) (vc_map (ex_clock [(3, 9), (1, 4)])),
             ex_clock [(1, 5), (2, 3)])"
  by (rule clock_compare_is_order) simp_all

text \<open>C9. \<^verbatim>\<open>vector_clock_compare\<close> with merging returns the same verdict and leaves in the first clock
  the pointwise maximum of both, a valid clock again, as long as the originators of both fit.\<close>

theorem clock_merge_is_join:
  assumes "vc_inv c" "vc_wf d" "card (dom (vc_map c) \<union> dom (vc_map d)) \<le> MAX_VECTOR_SIZE"
  shows "\<exists>c'. vector_clock_compare c d True = Some (vc_compare_spec (vc_map c) (vc_map d), c')
           \<and> vc_inv c' \<and> vc_map c' = vc_join (vc_map c) (vc_map d)"
  using vector_clock_compare_merge [OF assms] .

theorem clock_merge_is_join_witness:
  "\<exists>c'. vector_clock_compare (ex_clock [(1, 5), (2, 3)]) (ex_clock [(3, 9), (1, 7)]) True
        = Some (vc_compare_spec (vc_map (ex_clock [(1, 5), (2, 3)])) (vc_map (ex_clock [(3, 9), (1, 7)])), c')
     \<and> vc_inv c'
     \<and> vc_map c' = vc_join (vc_map (ex_clock [(1, 5), (2, 3)])) (vc_map (ex_clock [(3, 9), (1, 7)]))"
proof (rule clock_merge_is_join)
  have "dom (vc_map (ex_clock [(1, 5), (2, 3)])) \<union> dom (vc_map (ex_clock [(3, 9), (1, 7)])) = {1, 2, 3}"
    by auto
  then show "card (dom (vc_map (ex_clock [(1, 5), (2, 3)])) \<union> dom (vc_map (ex_clock [(3, 9), (1, 7)]))) \<le> MAX_VECTOR_SIZE"
    by simp
qed simp_all

text \<open>The verdicts of \<^verbatim>\<open>vector_clock_compare\<close> are consistent: BEFORE one way is AFTER the other
  way, and BEFORE is transitive.\<close>

lemma clock_verdicts_consistent:
  assumes "vc_wf c" "vc_wf d" "vc_wf f"
  shows "(vector_clock_compare c d False = Some (VC_BEFORE, c) \<longleftrightarrow>
            vector_clock_compare d c False = Some (VC_AFTER, d))
       \<and> (vector_clock_compare c d False = Some (VC_BEFORE, c)
            \<and> vector_clock_compare d f False = Some (VC_BEFORE, d)
          \<longrightarrow> vector_clock_compare c f False = Some (VC_BEFORE, c))"
  using clock_order.compare_dual [OF assms(1,2)] clock_order.compare_trans [OF assms] by blast


text \<open>Incrementing the record of a member the clock knows, short of the wrap-around at
  \<open>2 ^ 32\<close>, yields a clock that compares as AFTER the old one.\<close>

lemma clock_increment_is_later:
  assumes "vc_inv c" "vector_clock_create_member_id member = Some m" "vc_map c m = Some s" "s \<noteq> - 1"
  shows "\<exists>i c'. vector_clock_increment c member = Some (Some i, c') \<and> vc_inv c'
           \<and> vc_map c' = (vc_map c)(m \<mapsto> s + 1) \<and> vector_clock_compare c' c False = Some (VC_AFTER, c')"
proof -
  obtain i c' where c': "vector_clock_increment c member = Some (i, c')" "vc_inv c'" "i \<noteq> None"
    "vc_map c' = (vc_map c)(m \<mapsto> s + 1)"
    using vector_clock_increment_ok [OF assms(1,2)] assms(3) by (auto simp: domIff)
  have "1 + s \<noteq> 0" using assms(4) by (simp add: eq_neg_iff_add_eq_0 add.commute)
  then have s: "s < s + 1" using unatSuc [of s] by (simp add: word_less_nat_alt add.commute)
  have "vc_le (vc_map c) (vc_map c')" using vc_le_upd [of "vc_map c"] assms(3) s by (simp add: c'(4))
  moreover have "vc_map c \<noteq> vc_map c'" using assms(3) s by (auto simp: c'(4) fun_eq_iff)
  ultimately have "vector_clock_compare c c' False = Some (VC_BEFORE, c)"
    using clock_order.compare_before_iff [OF vc_inv_wf [OF assms(1)] vc_inv_wf [OF c'(2)]] by simp
  then have "vector_clock_compare c' c False = Some (VC_AFTER, c')"
    using clock_order.compare_dual [OF vc_inv_wf [OF assms(1)] vc_inv_wf [OF c'(2)]] by simp
  then show ?thesis using c' by auto
qed


text \<open>C19. A valid clock is told of a sequence of records, all of whose originators fit, one after the other
  with merging. Exactly the news pass as \<^verbatim>\<open>VC_BEFORE\<close>: a record passes when its originator is unknown or was
  known only up to a smaller number at that moment (\<open>news\<close>). So of each originator a strictly increasing
  sequence of numbers passes, each above what the clock knew at the start; for every record beyond that,
  itself or one of its originator with a number at least as great passes; and in the end the clock knows, of
  each originator, the number it knew before or the greatest that passed.\<close>

theorem clock_observes_news_once:
  assumes "vc_inv c" "card (dom (vc_map c) \<union> member_id ` set rs) \<le> MAX_VECTOR_SIZE"
  shows "\<exists>out c'. observe_all (\<lambda>c r. vector_clock_compare_with_record c r True) c rs = Some (out, c') \<and> vc_inv c'
           \<and> out = news (vc_map c) rs \<and> subseq out rs
           \<and> (\<forall>m. sorted_wrt (<) (map sequence_number (filter (\<lambda>r. member_id r = m) out)))
           \<and> (\<forall>r \<in> set out. \<forall>s. vc_map c (member_id r) = Some s \<longrightarrow> s < sequence_number r)
           \<and> (\<forall>r \<in> set rs. (\<exists>s. vc_map c (member_id r) = Some s \<and> sequence_number r \<le> s)
                \<or> (\<exists>r' \<in> set out. member_id r' = member_id r \<and> sequence_number r \<le> sequence_number r'))
           \<and> vc_map c' = known_after (vc_map c) out"
  using clock_store.observe_all_news [OF assms] news_increasing news_above news_subseq news_complete by blast

theorem clock_observes_news_once_witness:
  "\<exists>c'. observe_all (\<lambda>c r. vector_clock_compare_with_record c r True) (ex_clock [(1, 5)])
        [\<lparr>sequence_number = 6, member_id = 1\<rparr>, \<lparr>sequence_number = 6, member_id = 1\<rparr>, \<lparr>sequence_number = 2, member_id = 3\<rparr>]
        = Some ([\<lparr>sequence_number = 6, member_id = 1\<rparr>, \<lparr>sequence_number = 2, member_id = 3\<rparr>], c') \<and> vc_inv c'
     \<and> vc_map c' = [1 \<mapsto> 6, 3 \<mapsto> 2]"
proof -
  let ?rs = "[\<lparr>sequence_number = 6, member_id = 1\<rparr>, \<lparr>sequence_number = 6, member_id = 1\<rparr>, \<lparr>sequence_number = 2, member_id = 3\<rparr>]"
  have "card (dom (vc_map (ex_clock [(1, 5)])) \<union> member_id ` set ?rs) \<le> MAX_VECTOR_SIZE" by (simp add: card_insert_if)
  from clock_observes_news_once [OF _ this] show ?thesis by (auto simp: record_verdict_def known_after_def)
qed

text \<open>C36. The bound on the originators is needed: in a full clock a record of a new originator
  takes the place of the one whose turn it is, and a copy of that evicted record then passes as
  news although the clock had already seen it.\<close>

theorem clock_eviction_forgets:
  assumes "vc_inv c" "vc_size c = MAX_VECTOR_SIZE" "member_id r \<notin> dom (vc_map c)"
  shows "\<exists>c'. observe_all (\<lambda>c r. vector_clock_compare_with_record c r True) c [r, records c ! current_idx c]
           = Some ([r, records c ! current_idx c], c') \<and> vc_inv c'"
proof -
  let ?old = "records c ! current_idx c" and ?obs = "\<lambda>c r. vector_clock_compare_with_record c r True"
  have i: "current_idx c < vc_size c" using assms(1,2) by (simp add: vc_inv_def)
  have known: "vc_map c (member_id ?old) = Some (sequence_number ?old)"
    using vc_map_nth [OF vc_inv_wf [OF assms(1)] i] .
  then have ne: "member_id ?old \<noteq> member_id r" using assms(3) by (auto simp: domIff)
  have victim: "vc_victim c (member_id r) = Some (member_id ?old)"
    using assms(2,3) by (simp add: vc_victim_def)
  obtain c1 where c1: "?obs c r = Some (VC_BEFORE, c1)" "vc_inv c1"
    "vc_map c1 = (vc_map c)(member_id ?old := None, member_id r \<mapsto> sequence_number r)"
    using vector_clock_compare_with_record_merge [OF assms(1), of r] assms(3) victim
    by (auto simp: record_verdict_def vc_evict_def domIff)
  obtain c2 where "?obs c1 ?old = Some (VC_BEFORE, c2)" "vc_inv c2"
    using vector_clock_compare_with_record_merge [OF c1(2), of ?old] ne c1(3)
    by (auto simp: record_verdict_def)
  then show ?thesis using c1 by simp
qed

theorem clock_eviction_forgets_witness:
  "\<exists>c'. observe_all (\<lambda>c r. vector_clock_compare_with_record c r True)
        (ex_clock (map (\<lambda>i. (of_nat i, 7)) [0..<20]))
        [\<lparr>sequence_number = 1, member_id = 100\<rparr>,
         records (ex_clock (map (\<lambda>i. (of_nat i, 7)) [0..<20])) ! current_idx (ex_clock (map (\<lambda>i. (of_nat i, 7)) [0..<20]))]
      = Some ([\<lparr>sequence_number = 1, member_id = 100\<rparr>,
         records (ex_clock (map (\<lambda>i. (of_nat i, 7)) [0..<20])) ! current_idx (ex_clock (map (\<lambda>i. (of_nat i, 7)) [0..<20]))], c')
     \<and> vc_inv c'"
proof (rule clock_eviction_forgets)
  show "vc_inv (ex_clock (map (\<lambda>i. (of_nat i, 7)) [0..<20]))"
    by (rule ex_clock_inv) (simp_all add: upt_rec)
  show "vc_size (ex_clock (map (\<lambda>i. (of_nat i, 7)) [0..<20])) = MAX_VECTOR_SIZE" by (simp add: ex_clock_def)
  show "member_id \<lparr>sequence_number = 1, member_id = 100\<rparr> \<notin> dom (vc_map (ex_clock (map (\<lambda>i. (of_nat i, 7)) [0..<20])))"
    by (simp add: upt_rec)
qed

text \<open>A readable clock that is encoded into a buffer with room is decoded from it as a clock
  that knows the same, whatever the decoding struct held before; both report the same number of
  bytes.\<close>

lemma clock_wire_roundtrip:
  assumes "vc_wf c" "2 + 12 * vc_size c \<le> n" "off + n \<le> length buffer" "length buffer < 2 ^ 64"
    "length (records old) = MAX_VECTOR_SIZE"
  shows "\<exists>b k c'. vector_clock_encode c buffer off n = Some (Inr k, b)
           \<and> vector_clock_decode (drop off b) n old = Some (Inr k, c') \<and> vc_wf c' \<and> vc_map c' = vc_map c"
proof -
  let ?rest = "drop (off + (2 + 12 * vc_size c)) buffer"
  let ?b = "take off buffer @ clock_bytes c @ ?rest"
  have "mem_write buffer off (clock_bytes c) = Some ?b"
    using assms length_clock_bytes [OF assms(1)] by (simp add: mem_write_def)
  moreover have "drop off ?b = clock_bytes c @ ?rest" using assms by simp
  ultimately show ?thesis
    using assms vector_clock_decode_bytes [OF assms(1,5,2)]
    by (auto simp: vector_clock_encode_write)
qed


text \<open>C38. \<^verbatim>\<open>vector_clock_decode\<close> does not check the announced number of records: a buffer that announces
  more than the array holds and carries them makes it write outside the array.\<close>

theorem clock_decode_writes_outside:
  assumes "uint16_decode buffer 0 = Some sz" "MAX_VECTOR_SIZE < unat sz"
    "2 + 12 * unat sz \<le> n" "n < 2 ^ 64" "length (records old) = MAX_VECTOR_SIZE"
  shows "vector_clock_decode buffer n old = None"
  using vector_clock_decode_overflow [OF assms] .

theorem clock_decode_writes_outside_witness:
  "vector_clock_decode (0 # 21 # replicate 300 0) 302 vector_clock_zero = None"
proof (rule clock_decode_writes_outside)
  show "uint16_decode (0 # 21 # replicate 300 0) 0 = Some 21" by code_simp
qed (simp_all add: vector_clock_zero_def)

end
