(* ===== verification/Pt_Messages.thy ===== *)
theory Pt_Messages
  imports Pt_Vector_Clock
begin

text \<open>
  \<^verbatim>\<open>messages.c\<close>: the six messages of the protocol and their wire format.

  An encoder writes at the place \<open>cur\<close> of the buffer it gets and may use \<open>buffer_size\<close> bytes
  from there; a decoder gets the bytes from its pointer to the end of the input buffer and the
  number \<open>buffer_size\<close> of bytes that were received. Both return the number of bytes used or
  an error. The lemmas give each encoder as one write of the message's bytes
  (\<open>header_bytes\<close> followed by the body), each decoder as its inverse, and show that a decoder
  rejects what carries another type or no protocol id.
\<close>

abbreviation (input) PROTOCOL_ID_LENGTH :: nat where "PROTOCOL_ID_LENGTH \<equiv> 5"
abbreviation (input) sizeof_message_header :: nat where "sizeof_message_header \<equiv> 12"

abbreviation (input) MESSAGE_HELLO_TYPE :: u8 where "MESSAGE_HELLO_TYPE \<equiv> 1"
abbreviation (input) MESSAGE_WELCOME_TYPE :: u8 where "MESSAGE_WELCOME_TYPE \<equiv> 2"
abbreviation (input) MESSAGE_MEMBER_LIST_TYPE :: u8 where "MESSAGE_MEMBER_LIST_TYPE \<equiv> 3"
abbreviation (input) MESSAGE_ACK_TYPE :: u8 where "MESSAGE_ACK_TYPE \<equiv> 4"
abbreviation (input) MESSAGE_DATA_TYPE :: u8 where "MESSAGE_DATA_TYPE \<equiv> 5"
abbreviation (input) MESSAGE_STATUS_TYPE :: u8 where "MESSAGE_STATUS_TYPE \<equiv> 6"

definition PROTOCOL_ID :: "u8 list" where
  "PROTOCOL_ID = [0x70, 0x74, 0x63, 0x73, 0]"

record message_header =
  protocol_id :: "u8 list"
  message_type :: u8
  reserved :: u16
  header_sequence_num :: u32

record message_hello =
  hello_header :: message_header
  hello_this_member :: cluster_member

record message_welcome =
  welcome_header :: message_header
  hello_sequence_num :: u32
  welcome_this_member :: cluster_member

record message_member_list =
  member_list_header :: message_header
  members_n :: u16
  list_members :: "cluster_member list"

record message_ack =
  ack_header :: message_header
  ack_sequence_num :: u32

text \<open>\<open>data\<close> is \<open>None\<close> for the \<^verbatim>\<open>NULL\<close> that stands for an empty payload.\<close>

record message_data =
  data_header :: message_header
  data_record :: vector_record
  data_size :: u16
  data :: "u8 list option"

record message_status =
  status_header :: message_header
  status_version :: vector_clock

section \<open>Operations\<close>

definition message_type_decode :: "u8 list \<Rightarrow> nat \<Rightarrow> (pittacus_error + u8) option" where
  "message_type_decode buffer buffer_size =
     (if buffer_size < sizeof_message_header then Some (Inl PITTACUS_ERR_BUFFER_NOT_ENOUGH)
      else do {
        t \<leftarrow> arr_get buffer PROTOCOL_ID_LENGTH;
        Some (Inr t)
      })"

definition message_is_payload_valid :: "u8 list \<Rightarrow> nat \<Rightarrow> u8 \<Rightarrow> bool option" where
  "message_is_payload_valid buffer buffer_size type = do {
     decoded \<leftarrow> message_type_decode buffer buffer_size;
     if decoded = Inr type
     then memcmp_eq (Some buffer) (Some PROTOCOL_ID) PROTOCOL_ID_LENGTH
     else Some False
   }"

definition message_header_init :: "u8 \<Rightarrow> u32 \<Rightarrow> message_header" where
  "message_header_init type seq_num =
     \<lparr>protocol_id = PROTOCOL_ID, message_type = type, reserved = 0,
      header_sequence_num = seq_num\<rparr>"

definition message_header_encode ::
  "message_header \<Rightarrow> u8 list \<Rightarrow> nat \<Rightarrow> nat \<Rightarrow> ((pittacus_error + nat) \<times> u8 list) option" where
  "message_header_encode msg buffer cur buffer_size =
     (if buffer_size < sizeof_message_header then Some (Inl PITTACUS_ERR_BUFFER_NOT_ENOUGH, buffer)
      else do {
        pid \<leftarrow> mem_read (protocol_id msg) 0 PROTOCOL_ID_LENGTH;
        buffer \<leftarrow> mem_write buffer cur pid;
        buffer \<leftarrow> mem_write buffer (cur + 5) [message_type msg];
        buffer \<leftarrow> uint16_encode (reserved msg) buffer (cur + 6);
        buffer \<leftarrow> uint32_encode (header_sequence_num msg) buffer (cur + 8);
        Some (Inr sizeof_message_header, buffer)
      })"

definition message_header_decode ::
  "u8 list \<Rightarrow> nat \<Rightarrow> (pittacus_error + nat \<times> message_header) option" where
  "message_header_decode buffer buffer_size =
     (if buffer_size < sizeof_message_header then Some (Inl PITTACUS_ERR_BUFFER_NOT_ENOUGH)
      else do {
        pid \<leftarrow> mem_read buffer 0 PROTOCOL_ID_LENGTH;
        t \<leftarrow> arr_get buffer 5;
        r \<leftarrow> uint16_decode buffer 6;
        s \<leftarrow> uint32_decode buffer 8;
        Some (Inr (sizeof_message_header,
          \<lparr>protocol_id = pid, message_type = t, reserved = r, header_sequence_num = s\<rparr>))
      })"

text \<open>
  The number behind a result. Some encoders add the result of \<^verbatim>\<open>cluster_member_encode\<close> to
  their cursor without testing it.
\<close>

fun result_int :: "pittacus_error + nat \<Rightarrow> int" where
  "result_int (Inl err) = err_code err"
| "result_int (Inr n) = int n"

text \<open>
  Decoding the header of a message whose type was read before cannot fail for lack of bytes; the
  decoders of hello and welcome do not test for it (\<open>None\<close>: the header would be
  uninitialised). The minimal sizes of hello and welcome use \<^verbatim>\<open>sizeof(cluster_member_t)\<close> less a pointer: 16
  bytes, where the encoded member has 10 bytes before its address.
\<close>

definition message_hello_decode ::
  "env \<Rightarrow> u8 list \<Rightarrow> nat \<Rightarrow> ((pittacus_error + nat \<times> message_hello) \<times> env) option" where
  "message_hello_decode e buffer buffer_size = do {
     valid \<leftarrow> message_is_payload_valid buffer buffer_size MESSAGE_HELLO_TYPE;
     if \<not> valid then Some (Inl PITTACUS_ERR_INVALID_MESSAGE, e)
     else if buffer_size < sizeof_message_header + sizeof_cluster_member - sizeof_pointer
     then Some (Inl PITTACUS_ERR_BUFFER_NOT_ENOUGH, e)
     else do {
       decoded \<leftarrow> message_header_decode buffer buffer_size;
       case decoded of
         Inl _ \<Rightarrow> None
       | Inr (_, header) \<Rightarrow>
           let (ok, e) = malloc e
           in if \<not> ok then Some (Inl PITTACUS_ERR_ALLOCATION_FAILED, e)
              else do {
                result \<leftarrow> cluster_member_decode (drop sizeof_message_header buffer)
                            (buffer_size - sizeof_message_header);
                case result of
                  Inl err \<Rightarrow> Some (Inl err, e)
                | Inr (decoded_bytes, member) \<Rightarrow>
                    Some (Inr (sizeof_message_header + decoded_bytes,
                      \<lparr>hello_header = header, hello_this_member = member\<rparr>), e)
              }
     }
   }"

definition message_hello_encode ::
  "message_hello \<Rightarrow> u8 list \<Rightarrow> nat \<Rightarrow> nat \<Rightarrow> (int \<times> u8 list) option" where
  "message_hello_encode msg buffer cur buffer_size =
     (let expected_size = sizeof_message_header + sizeof_cluster_member - sizeof_pointer
                            + unat (address_len (hello_this_member msg))
      in if buffer_size < expected_size then Some (err_code PITTACUS_ERR_BUFFER_NOT_ENOUGH, buffer)
         else do {
           (encode_result, buffer) \<leftarrow> message_header_encode (hello_header msg) buffer cur buffer_size;
           case encode_result of
             Inl err \<Rightarrow> Some (err_code err, buffer)
           | Inr n \<Rightarrow> do {
               (r, buffer) \<leftarrow> cluster_member_encode (hello_this_member msg) buffer (cur + n) (buffer_size - n);
               Some (int n + result_int r, buffer)
             }
         })"

definition message_welcome_decode ::
  "env \<Rightarrow> u8 list \<Rightarrow> nat \<Rightarrow> ((pittacus_error + nat \<times> message_welcome) \<times> env) option" where
  "message_welcome_decode e buffer buffer_size = do {
     valid \<leftarrow> message_is_payload_valid buffer buffer_size MESSAGE_WELCOME_TYPE;
     if \<not> valid then Some (Inl PITTACUS_ERR_INVALID_MESSAGE, e)
     else if buffer_size < sizeof_message_header + 4 + sizeof_cluster_member - sizeof_pointer
     then Some (Inl PITTACUS_ERR_BUFFER_NOT_ENOUGH, e)
     else do {
       decoded \<leftarrow> message_header_decode buffer buffer_size;
       case decoded of
         Inl _ \<Rightarrow> None
       | Inr (n, header) \<Rightarrow> do {
           seq \<leftarrow> uint32_decode buffer n;
           let cursor = n + 4;
           let (ok, e) = malloc e;
           if \<not> ok then Some (Inl PITTACUS_ERR_ALLOCATION_FAILED, e)
           else do {
             result \<leftarrow> cluster_member_decode (drop cursor buffer) (buffer_size - cursor);
             case result of
               Inl err \<Rightarrow> Some (Inl err, e)
             | Inr (decoded_bytes, member) \<Rightarrow>
                 Some (Inr (cursor + decoded_bytes,
                   \<lparr>welcome_header = header, hello_sequence_num = seq, welcome_this_member = member\<rparr>), e)
           }
         }
     }
   }"

definition message_welcome_encode ::
  "message_welcome \<Rightarrow> u8 list \<Rightarrow> nat \<Rightarrow> nat \<Rightarrow> (int \<times> u8 list) option" where
  "message_welcome_encode msg buffer cur buffer_size =
     (let expected_size = sizeof_message_header + 4 + sizeof_cluster_member - sizeof_pointer
                            + unat (address_len (welcome_this_member msg))
      in if buffer_size < expected_size then Some (err_code PITTACUS_ERR_BUFFER_NOT_ENOUGH, buffer)
         else do {
           (encode_result, buffer) \<leftarrow> message_header_encode (welcome_header msg) buffer cur buffer_size;
           case encode_result of
             Inl err \<Rightarrow> None
           | Inr n \<Rightarrow> do {
               buffer \<leftarrow> uint32_encode (hello_sequence_num msg) buffer (cur + n);
               let cursor = n + 4;
               (r, buffer) \<leftarrow> cluster_member_encode (welcome_this_member msg) buffer (cur + cursor)
                               (buffer_size - cursor);
               Some (int cursor + result_int r, buffer)
             }
         })"

definition message_data_decode ::
  "u8 list \<Rightarrow> nat \<Rightarrow> (pittacus_error + nat \<times> message_data) option" where
  "message_data_decode buffer buffer_size = do {
     valid \<leftarrow> message_is_payload_valid buffer buffer_size MESSAGE_DATA_TYPE;
     if \<not> valid then Some (Inl PITTACUS_ERR_INVALID_MESSAGE)
     else do {
       decoded \<leftarrow> message_header_decode buffer buffer_size;
       case decoded of
         Inl err \<Rightarrow> Some (Inl err)
       | Inr (n, header) \<Rightarrow> do {
           decoded \<leftarrow> vector_clock_record_decode (drop n buffer) (buffer_size - n);
           case decoded of
             Inl err \<Rightarrow> Some (Inl err)
           | Inr (k, vrec) \<Rightarrow> do {
               let cursor = n + k;
               dsize \<leftarrow> uint16_decode buffer cursor;
               let cursor = cursor + 2;
               let base_size = sizeof_message_header + VECTOR_RECORD_SIZE + 2;
               let expected_size = base_size + unat dsize;
               if buffer_size \<noteq> expected_size then Some (Inl PITTACUS_ERR_BUFFER_NOT_ENOUGH)
               else Some (Inr (cursor + unat dsize,
                 \<lparr>data_header = header, data_record = vrec, data_size = dsize,
                  data = (if dsize > 0 then Some (drop cursor buffer) else None)\<rparr>))
             }
         }
     }
   }"

text \<open>\<^verbatim>\<open>memcpy(dst, src, n)\<close> reads \<open>n\<close> bytes of \<open>src\<close>; with \<open>n = 0\<close> it reads nothing, also from \<^verbatim>\<open>NULL\<close>.\<close>

definition memcpy_src :: "u8 list option \<Rightarrow> nat \<Rightarrow> u8 list option" where
  "memcpy_src src n = (if n = 0 then Some [] else do { p \<leftarrow> src; mem_read p 0 n })"

definition message_data_encode ::
  "message_data \<Rightarrow> u8 list \<Rightarrow> nat \<Rightarrow> nat \<Rightarrow> ((pittacus_error + nat) \<times> u8 list) option" where
  "message_data_encode msg buffer cur buffer_size =
     (let min_size = sizeof_message_header + VECTOR_RECORD_SIZE + 2 + unat (data_size msg)
      in if buffer_size < min_size then Some (Inl PITTACUS_ERR_BUFFER_NOT_ENOUGH, buffer)
         else do {
           (encode_result, buffer) \<leftarrow> message_header_encode (data_header msg) buffer cur buffer_size;
           case encode_result of
             Inl err \<Rightarrow> Some (Inl err, buffer)
           | Inr n \<Rightarrow> do {
               (encode_result, buffer) \<leftarrow>
                 vector_clock_record_encode (data_record msg) buffer (cur + n) (buffer_size - n);
               case encode_result of
                 Inl err \<Rightarrow> Some (Inl err, buffer)
               | Inr k \<Rightarrow> do {
                   let cursor = n + k;
                   buffer \<leftarrow> uint16_encode (data_size msg) buffer (cur + cursor);
                   let cursor = cursor + 2;
                   bs \<leftarrow> memcpy_src (data msg) (unat (data_size msg));
                   buffer \<leftarrow> mem_write buffer (cur + cursor) bs;
                   Some (Inr (cursor + unat (data_size msg)), buffer)
                 }
             }
         })"

text \<open>The members of a list, decoded one after the other; the distance to the end may wrap.\<close>

fun decode_members ::
  "u8 list \<Rightarrow> nat \<Rightarrow> nat \<Rightarrow> nat \<Rightarrow> cluster_member list
     \<Rightarrow> (pittacus_error + nat \<times> cluster_member list) option" where
  "decode_members buffer buffer_size 0 cursor ms = Some (Inr (cursor, ms))"
| "decode_members buffer buffer_size (Suc k) cursor ms = do {
     result \<leftarrow> cluster_member_decode (drop cursor buffer) (size_of_diff (int buffer_size - int cursor));
     case result of
       Inl err \<Rightarrow> Some (Inl err)
     | Inr (n, m) \<Rightarrow> decode_members buffer buffer_size k (cursor + n) (ms @ [m])
   }"

definition message_member_list_decode ::
  "env \<Rightarrow> u8 list \<Rightarrow> nat \<Rightarrow> ((pittacus_error + nat \<times> message_member_list) \<times> env) option" where
  "message_member_list_decode e buffer buffer_size = do {
     valid \<leftarrow> message_is_payload_valid buffer buffer_size MESSAGE_MEMBER_LIST_TYPE;
     if \<not> valid then Some (Inl PITTACUS_ERR_INVALID_MESSAGE, e)
     else if buffer_size < sizeof_message_header + 2 then Some (Inl PITTACUS_ERR_BUFFER_NOT_ENOUGH, e)
     else do {
       decoded \<leftarrow> message_header_decode buffer buffer_size;
       case decoded of
         Inl err \<Rightarrow> Some (Inl err, e)
       | Inr (n, header) \<Rightarrow> do {
           count \<leftarrow> uint16_decode buffer n;
           let cursor = n + 2;
           let (ok, e) = malloc e;
           if \<not> ok then Some (Inl PITTACUS_ERR_ALLOCATION_FAILED, e)
           else do {
             result \<leftarrow> decode_members buffer buffer_size (unat count) cursor [];
             case result of
               Inl err \<Rightarrow> Some (Inl err, e)
             | Inr (cursor, ms) \<Rightarrow>
                 Some (Inr (cursor,
                   \<lparr>member_list_header = header, members_n = count, list_members = ms\<rparr>), e)
           }
         }
     }
   }"

text \<open>
  The cursor of the member list encoder moves back when \<^verbatim>\<open>cluster_member_encode\<close> fails, so
  it is an integer; a cursor before the start of the buffer cannot be written to.
\<close>

fun encode_members ::
  "cluster_member list \<Rightarrow> nat \<Rightarrow> u8 list \<Rightarrow> int \<Rightarrow> (int \<times> u8 list) option" where
  "encode_members [] buffer_end buffer cursor = Some (cursor, buffer)"
| "encode_members (m # ms) buffer_end buffer cursor =
     (if cursor < 0 then None
      else do {
        (r, buffer) \<leftarrow> cluster_member_encode m buffer (nat cursor) (size_of_diff (int buffer_end - cursor));
        encode_members ms buffer_end buffer (cursor + result_int r)
      })"

definition message_member_list_encode ::
  "message_member_list \<Rightarrow> u8 list \<Rightarrow> nat \<Rightarrow> nat \<Rightarrow> (int \<times> u8 list) option" where
  "message_member_list_encode msg buffer cur buffer_size =
     (let expected_size = sizeof_message_header + 2 + unat (members_n msg) * CLUSTER_MEMBER_SIZE
      in if buffer_size < expected_size then Some (err_code PITTACUS_ERR_BUFFER_NOT_ENOUGH, buffer)
         else do {
           (encode_result, buffer) \<leftarrow> message_header_encode (member_list_header msg) buffer cur buffer_size;
           case encode_result of
             Inl err \<Rightarrow> Some (err_code err, buffer)
           | Inr n \<Rightarrow> do {
               buffer \<leftarrow> uint16_encode (members_n msg) buffer (cur + n);
               if length (list_members msg) < unat (members_n msg) then None
               else do {
                 (cursor, buffer) \<leftarrow> encode_members (take (unat (members_n msg)) (list_members msg))
                                      (cur + buffer_size) buffer (int (cur + n + 2));
                 Some (cursor - int cur, buffer)
               }
             }
         })"

definition message_ack_decode :: "u8 list \<Rightarrow> nat \<Rightarrow> (pittacus_error + nat \<times> message_ack) option" where
  "message_ack_decode buffer buffer_size = do {
     valid \<leftarrow> message_is_payload_valid buffer buffer_size MESSAGE_ACK_TYPE;
     if \<not> valid then Some (Inl PITTACUS_ERR_INVALID_MESSAGE)
     else if buffer_size < sizeof_message_header + 4 then Some (Inl PITTACUS_ERR_BUFFER_NOT_ENOUGH)
     else do {
       decoded \<leftarrow> message_header_decode buffer buffer_size;
       case decoded of
         Inl _ \<Rightarrow> Some (Inl PITTACUS_ERR_BUFFER_NOT_ENOUGH)
       | Inr (_, header) \<Rightarrow> do {
           seq \<leftarrow> uint32_decode buffer sizeof_message_header;
           Some (Inr (sizeof_message_header + 4, \<lparr>ack_header = header, ack_sequence_num = seq\<rparr>))
         }
     }
   }"

definition message_ack_encode ::
  "message_ack \<Rightarrow> u8 list \<Rightarrow> nat \<Rightarrow> nat \<Rightarrow> ((pittacus_error + nat) \<times> u8 list) option" where
  "message_ack_encode msg buffer cur buffer_size =
     (if buffer_size < sizeof_message_header + 4 then Some (Inl PITTACUS_ERR_BUFFER_NOT_ENOUGH, buffer)
      else do {
        (encode_result, buffer) \<leftarrow> message_header_encode (ack_header msg) buffer cur buffer_size;
        case encode_result of
          Inl err \<Rightarrow> Some (Inl err, buffer)
        | Inr n \<Rightarrow> do {
            buffer \<leftarrow> uint32_encode (ack_sequence_num msg) buffer (cur + n);
            Some (Inr (n + 4), buffer)
          }
      })"

text \<open>
  The clock of the status message lives on the stack of the caller; \<open>stack\<close> is what it
  held before.
\<close>

definition message_status_decode ::
  "u8 list \<Rightarrow> nat \<Rightarrow> vector_clock \<Rightarrow> (pittacus_error + nat \<times> message_status) option" where
  "message_status_decode buffer buffer_size stack = do {
     valid \<leftarrow> message_is_payload_valid buffer buffer_size MESSAGE_STATUS_TYPE;
     if \<not> valid then Some (Inl PITTACUS_ERR_INVALID_MESSAGE)
     else if buffer_size < sizeof_message_header + 2 then Some (Inl PITTACUS_ERR_BUFFER_NOT_ENOUGH)
     else do {
       decoded \<leftarrow> message_header_decode buffer buffer_size;
       case decoded of
         Inl _ \<Rightarrow> Some (Inl PITTACUS_ERR_BUFFER_NOT_ENOUGH)
       | Inr (_, header) \<Rightarrow> do {
           (result, clock) \<leftarrow> vector_clock_decode (drop sizeof_message_header buffer)
                               (buffer_size - sizeof_message_header) stack;
           case result of
             Inl err \<Rightarrow> Some (Inl err)
           | Inr n \<Rightarrow> Some (Inr (sizeof_message_header + n,
               \<lparr>status_header = header, status_version = clock\<rparr>))
         }
     }
   }"

definition message_status_encode ::
  "message_status \<Rightarrow> u8 list \<Rightarrow> nat \<Rightarrow> nat \<Rightarrow> ((pittacus_error + nat) \<times> u8 list) option" where
  "message_status_encode msg buffer cur buffer_size =
     (let expected_size = sizeof_message_header + 2 + vc_size (status_version msg) * VECTOR_RECORD_SIZE
      in if buffer_size < expected_size then Some (Inl PITTACUS_ERR_BUFFER_NOT_ENOUGH, buffer)
         else do {
           (encode_result, buffer) \<leftarrow> message_header_encode (status_header msg) buffer cur buffer_size;
           case encode_result of
             Inl err \<Rightarrow> Some (Inl err, buffer)
           | Inr n \<Rightarrow> do {
               (encode_result, buffer) \<leftarrow>
                 vector_clock_encode (status_version msg) buffer (cur + n) (buffer_size - n);
               case encode_result of
                 Inl err \<Rightarrow> Some (Inl err, buffer)
               | Inr k \<Rightarrow> Some (Inr (n + k), buffer)
             }
         })"

section \<open>Headers\<close>

definition header_ok :: "u8 \<Rightarrow> message_header \<Rightarrow> bool" where
  "header_ok t h \<longleftrightarrow> protocol_id h = PROTOCOL_ID \<and> message_type h = t"

definition header_bytes :: "message_header \<Rightarrow> u8 list" where
  "header_bytes h = protocol_id h @ [message_type h] @ be16 (reserved h) @ be32 (header_sequence_num h)"

lemma length_PROTOCOL_ID [simp]: "length PROTOCOL_ID = 5"
  by (simp add: PROTOCOL_ID_def)

lemma header_ok_init [simp]: "header_ok t (message_header_init t s)"
  by (simp add: header_ok_def message_header_init_def)

lemma header_ok_length [simp]: "header_ok t h \<Longrightarrow> length (header_bytes h) = 12"
  by (simp add: header_ok_def header_bytes_def)

lemma message_header_encode_write [codec_simps]:
  assumes "header_ok t h"
  shows "message_header_encode h buffer off n =
     (if n < 12 then Some (Inl PITTACUS_ERR_BUFFER_NOT_ENOUGH, buffer)
      else do { b \<leftarrow> mem_write buffer off (header_bytes h); Some (Inr 12, b) })"
  using assms
  by (auto simp: message_header_encode_def header_bytes_def header_ok_def mem_read_def codec_simps mem_simps)

lemma message_header_decode_bytes [codec_simps]:
  assumes "header_ok t h" "12 \<le> n"
  shows "message_header_decode (header_bytes h @ rest) n = Some (Inr (12, h))"
  using assms
  by (simp add: message_header_decode_def header_bytes_def header_ok_def codec_simps mem_simps
      arr_get_def nth_append)

text \<open>Only a buffer with the protocol id and the right type passes.\<close>

lemma message_is_payload_valid_iff:
  assumes "12 \<le> length buffer"
  shows "message_is_payload_valid buffer n t =
           Some (12 \<le> n \<and> buffer ! 5 = t \<and> take 5 buffer = PROTOCOL_ID)"
  using assms
  by (auto simp: message_is_payload_valid_def message_type_decode_def memcmp_eq_Some arr_get_def)

lemma message_is_payload_valid_bytes [codec_simps]:
  "header_ok t h \<Longrightarrow> 12 \<le> n \<Longrightarrow> message_is_payload_valid (header_bytes h @ rest) n t' = Some (t' = t)"
  by (subst message_is_payload_valid_iff) (auto simp: header_ok_def header_bytes_def nth_append)

text \<open>The same for the headers the program builds.\<close>

lemmas header_init_simps =
  header_ok_length [OF header_ok_init] message_header_decode_bytes [OF header_ok_init]
  message_is_payload_valid_bytes [OF header_ok_init]

section \<open>Codecs\<close>

text \<open>
  The interface between the messages and whoever sends and receives them: a message is encoded
  to the bytes \<open>bytes m\<close> whenever the buffer has \<open>need m\<close> bytes and refused
  otherwise, and its bytes decode to a message that agrees with it. \<open>agrees\<close> is not equality
  because a decoded address or payload points into the input buffer.
\<close>

locale message_codec =
  fixes valid :: "'m \<Rightarrow> bool"
    and bytes :: "'m \<Rightarrow> u8 list"
    and need :: "'m \<Rightarrow> nat"
    and agrees :: "'m \<Rightarrow> 'm \<Rightarrow> bool"
    and encode :: "'m \<Rightarrow> u8 list \<Rightarrow> nat \<Rightarrow> nat \<Rightarrow> (int \<times> u8 list) option"
    and decode :: "env \<Rightarrow> u8 list \<Rightarrow> nat \<Rightarrow> ((pittacus_error + nat \<times> 'm) \<times> env) option"
  assumes length_bytes: "valid m \<Longrightarrow> length (bytes m) \<le> need m"
    and encode_short: "n < need m \<Longrightarrow> encode m buffer off n = Some (err_code PITTACUS_ERR_BUFFER_NOT_ENOUGH, buffer)"
    and encode_bytes: "valid m \<Longrightarrow> need m \<le> n \<Longrightarrow> off + n \<le> length buffer \<Longrightarrow> length buffer < 2 ^ 64 \<Longrightarrow>
      encode m buffer off n = do { b \<leftarrow> mem_write buffer off (bytes m); Some (int (length (bytes m)), b) }"
    and decode_bytes: "valid m \<Longrightarrow> allocs_ok e \<Longrightarrow> length (bytes m) < 2 ^ 64 \<Longrightarrow>
      \<exists>m' e'. decode e (bytes m @ rest) (length (bytes m)) = Some (Inr (length (bytes m), m'), e')
         \<and> agrees m m' \<and> allocs_ok e'"
begin

text \<open>The encoder touches nothing outside the bytes it reports.\<close>

lemma encode_frame:
  assumes "valid m" "need m \<le> n" "off + n \<le> length buffer" "length buffer < 2 ^ 64"
  shows "\<exists>b. encode m buffer off n = Some (int (length (bytes m)), b) \<and> length b = length buffer
           \<and> take off b = take off buffer
           \<and> drop off b = bytes m @ drop (off + length (bytes m)) buffer"
proof -
  have "off + length (bytes m) \<le> length buffer" using length_bytes assms by fastforce
  then show ?thesis using encode_bytes [OF assms] by (auto simp: mem_write_def)
qed

lemma roundtrip:
  assumes "valid m" "need m \<le> n" "off + n \<le> length buffer" "length buffer < 2 ^ 64" "allocs_ok e"
  shows "\<exists>b m' e'. encode m buffer off n = Some (int (length (bytes m)), b)
           \<and> decode e (drop off b) (length (bytes m)) = Some (Inr (length (bytes m), m'), e')
           \<and> agrees m m' \<and> allocs_ok e'"
proof -
  obtain b where b: "encode m buffer off n = Some (int (length (bytes m)), b)"
    "drop off b = bytes m @ drop (off + length (bytes m)) buffer"
    using encode_frame [OF assms(1-4)] by blast
  have "length (bytes m) < 2 ^ 64" using length_bytes [OF assms(1)] assms(2-4) by linarith
  from decode_bytes [OF assms(1,5) this] b show ?thesis by metis
qed

end

text \<open>Agreement of members and of payloads: the same up to what lies behind them in memory.\<close>

lemma member_room:
  "k + unat (address_len m) \<le> n \<Longrightarrow> j + 10 \<le> k \<Longrightarrow> \<not> n - j < 10 + unat (address_len m)"
  by simp

definition hello_valid :: "message_hello \<Rightarrow> bool" where
  "hello_valid m \<longleftrightarrow> header_ok MESSAGE_HELLO_TYPE (hello_header m)
     \<and> member_ok (hello_this_member m) \<and> 6 \<le> unat (address_len (hello_this_member m))"

definition hello_bytes :: "message_hello \<Rightarrow> u8 list" where
  "hello_bytes m = header_bytes (hello_header m) @ member_bytes (hello_this_member m)"

definition hello_agrees :: "message_hello \<Rightarrow> message_hello \<Rightarrow> bool" where
  "hello_agrees m m' \<longleftrightarrow> hello_header m' = hello_header m \<and> member_ok (hello_this_member m')
     \<and> member_key (hello_this_member m') = member_key (hello_this_member m)"

lemma member_ok_append: "member_ok m \<Longrightarrow> member_ok (m\<lparr>address := Some (member_addr m @ rest)\<rparr>)"
  by (simp add: member_ok_def [of "m\<lparr>address := _\<rparr>"])

interpretation hello_codec: message_codec hello_valid hello_bytes
  "\<lambda>m. 28 + unat (address_len (hello_this_member m))" hello_agrees message_hello_encode message_hello_decode
proof unfold_locales
  fix m :: message_hello and e n off buffer rest
  show "n < 28 + unat (address_len (hello_this_member m)) \<Longrightarrow>
      message_hello_encode m buffer off n = Some (err_code PITTACUS_ERR_BUFFER_NOT_ENOUGH, buffer)"
    by (simp add: message_hello_encode_def)
  assume v: "hello_valid m"
  then show "length (hello_bytes m) \<le> 28 + unat (address_len (hello_this_member m))"
    by (auto simp: hello_valid_def hello_bytes_def)
  show "message_hello_encode m buffer off n =
      mem_write buffer off (hello_bytes m) \<bind> (\<lambda>b. Some (int (length (hello_bytes m)), b))"
    if "28 + unat (address_len (hello_this_member m)) \<le> n"
    using v that member_room [of 28 "hello_this_member m" n 12]
    by (auto simp: message_hello_encode_def hello_valid_def hello_bytes_def codec_simps mem_simps)
  assume "allocs_ok e"
  then obtain e' where "malloc e = (True, e')" "allocs_ok e'" using malloc_ok by blast
  then show "\<exists>m' e'. message_hello_decode e (hello_bytes m @ rest) (length (hello_bytes m)) =
      Some (Inr (length (hello_bytes m), m'), e') \<and> hello_agrees m m' \<and> allocs_ok e'"
    using v
    by (auto simp: message_hello_decode_def hello_valid_def hello_bytes_def hello_agrees_def codec_simps
        member_ok_append member_key_copy)
qed

definition welcome_valid :: "message_welcome \<Rightarrow> bool" where
  "welcome_valid m \<longleftrightarrow> header_ok MESSAGE_WELCOME_TYPE (welcome_header m)
     \<and> member_ok (welcome_this_member m) \<and> 6 \<le> unat (address_len (welcome_this_member m))"

definition welcome_bytes :: "message_welcome \<Rightarrow> u8 list" where
  "welcome_bytes m = header_bytes (welcome_header m) @ be32 (hello_sequence_num m)
     @ member_bytes (welcome_this_member m)"

definition welcome_agrees :: "message_welcome \<Rightarrow> message_welcome \<Rightarrow> bool" where
  "welcome_agrees m m' \<longleftrightarrow> welcome_header m' = welcome_header m
     \<and> hello_sequence_num m' = hello_sequence_num m \<and> member_ok (welcome_this_member m')
     \<and> member_key (welcome_this_member m') = member_key (welcome_this_member m)"

interpretation welcome_codec: message_codec welcome_valid welcome_bytes
  "\<lambda>m. 32 + unat (address_len (welcome_this_member m))" welcome_agrees
  message_welcome_encode message_welcome_decode
proof unfold_locales
  fix m :: message_welcome and e n off buffer rest
  show "n < 32 + unat (address_len (welcome_this_member m)) \<Longrightarrow>
      message_welcome_encode m buffer off n = Some (err_code PITTACUS_ERR_BUFFER_NOT_ENOUGH, buffer)"
    by (simp add: message_welcome_encode_def)
  assume v: "welcome_valid m"
  then show "length (welcome_bytes m) \<le> 32 + unat (address_len (welcome_this_member m))"
    by (auto simp: welcome_valid_def welcome_bytes_def)
  show "message_welcome_encode m buffer off n =
      mem_write buffer off (welcome_bytes m) \<bind> (\<lambda>b. Some (int (length (welcome_bytes m)), b))"
    if "32 + unat (address_len (welcome_this_member m)) \<le> n"
    using v that member_room [of 32 "welcome_this_member m" n 16]
    by (auto simp: message_welcome_encode_def welcome_valid_def welcome_bytes_def codec_simps mem_simps)
  assume "allocs_ok e"
  then obtain e' where "malloc e = (True, e')" "allocs_ok e'" using malloc_ok by blast
  then show "\<exists>m' e'. message_welcome_decode e (welcome_bytes m @ rest) (length (welcome_bytes m)) =
      Some (Inr (length (welcome_bytes m), m'), e') \<and> welcome_agrees m m' \<and> allocs_ok e'"
    using v
    by (auto simp: message_welcome_decode_def welcome_valid_def welcome_bytes_def welcome_agrees_def
        codec_simps member_ok_append member_key_copy)
qed

text \<open>
  The encoders and decoders that return a sum or need no allocation, in the shape of the
  interface.
\<close>

definition as_int :: "((pittacus_error + nat) \<times> u8 list) option \<Rightarrow> (int \<times> u8 list) option" where
  "as_int r = map_option (map_prod result_int (\<lambda>b. b)) r"

definition no_alloc :: "env \<Rightarrow> 'r option \<Rightarrow> ('r \<times> env) option" where
  "no_alloc e r = map_option (\<lambda>x. (x, e)) r"

lemma as_int_Some [simp]: "as_int (Some (r, b)) = Some (result_int r, b)"
  by (simp add: as_int_def)

lemma as_int_bind [simp]: "as_int (do { x \<leftarrow> m; f x }) = do { x \<leftarrow> m; as_int (f x) }"
  by (cases m) (simp_all add: as_int_def)

lemma as_int_SomeE:
  assumes "as_int r = Some (k, b)"
  obtains x where "r = Some (x, b)" "result_int x = k"
  using assms by (cases r) (auto simp: as_int_def)

lemma err_code_le [simp]: "err_code err \<le> 0"
  by (cases err) simp_all

lemma result_int_eq: "0 < k \<Longrightarrow> result_int x = int k \<longleftrightarrow> x = Inr k"
proof (cases x)
  case (Inl err)
  assume "0 < k"
  then have "err_code err \<noteq> int k" using err_code_le [of err] by linarith
  with Inl show ?thesis by simp
qed simp

lemma no_alloc_Some [simp]: "no_alloc e (Some r) = Some (r, e)"
  by (simp add: no_alloc_def)

definition ack_valid :: "message_ack \<Rightarrow> bool" where
  "ack_valid m \<longleftrightarrow> header_ok MESSAGE_ACK_TYPE (ack_header m)"

definition ack_bytes :: "message_ack \<Rightarrow> u8 list" where
  "ack_bytes m = header_bytes (ack_header m) @ be32 (ack_sequence_num m)"

interpretation ack_codec: message_codec ack_valid ack_bytes "\<lambda>m. 16" "(=)"
  "\<lambda>m buffer off n. as_int (message_ack_encode m buffer off n)"
  "\<lambda>e buffer n. no_alloc e (message_ack_decode buffer n)"
  by unfold_locales
    (auto simp: message_ack_encode_def message_ack_decode_def ack_valid_def ack_bytes_def codec_simps mem_simps)

definition data_valid :: "message_data \<Rightarrow> bool" where
  "data_valid m \<longleftrightarrow> header_ok MESSAGE_DATA_TYPE (data_header m)
     \<and> memcpy_src (data m) (unat (data_size m)) \<noteq> None"

definition payload :: "message_data \<Rightarrow> u8 list" where
  "payload m = the (memcpy_src (data m) (unat (data_size m)))"

definition data_msg_bytes :: "message_data \<Rightarrow> u8 list" where
  "data_msg_bytes m = header_bytes (data_header m) @ record_bytes (data_record m)
     @ be16 (data_size m) @ payload m"

definition data_agrees :: "message_data \<Rightarrow> message_data \<Rightarrow> bool" where
  "data_agrees m m' \<longleftrightarrow> data_header m' = data_header m \<and> data_record m' = data_record m
     \<and> data_size m' = data_size m \<and> memcpy_src (data m') (unat (data_size m')) = Some (payload m)"

lemma memcpy_src_length: "memcpy_src p n = Some bs \<Longrightarrow> length bs = n"
  by (auto simp: memcpy_src_def mem_read_def split: if_splits Option.bind_splits)

lemma payload_Some:
  assumes "data_valid m"
  shows "memcpy_src (data m) (unat (data_size m)) = Some (payload m)" "length (payload m) = unat (data_size m)"
  using assms memcpy_src_length [of "data m"] by (auto simp: data_valid_def payload_def)

interpretation data_codec: message_codec data_valid data_msg_bytes "\<lambda>m. 26 + unat (data_size m)" data_agrees
  "\<lambda>m buffer off n. as_int (message_data_encode m buffer off n)"
  "\<lambda>e buffer n. no_alloc e (message_data_decode buffer n)"
proof unfold_locales
  fix m :: message_data and e :: env and n off buffer rest
  show "n < 26 + unat (data_size m) \<Longrightarrow> as_int (message_data_encode m buffer off n) =
      Some (err_code PITTACUS_ERR_BUFFER_NOT_ENOUGH, buffer)"
    by (simp add: message_data_encode_def)
  assume v: "data_valid m"
  note p = payload_Some [OF v]
  from v have h: "header_ok MESSAGE_DATA_TYPE (data_header m)" by (simp add: data_valid_def)
  then have len: "length (data_msg_bytes m) = 26 + unat (data_size m)"
    using p by (simp add: data_msg_bytes_def)
  then show "length (data_msg_bytes m) \<le> 26 + unat (data_size m)" by simp
  show "as_int (message_data_encode m buffer off n) =
      mem_write buffer off (data_msg_bytes m) \<bind> (\<lambda>b. Some (int (length (data_msg_bytes m)), b))"
    if "26 + unat (data_size m) \<le> n"
  proof -
    have "\<not> n - 12 < 12" using that by simp
    then show ?thesis
      using h p that unfolding len
      by (auto simp: message_data_encode_def data_msg_bytes_def codec_simps mem_simps)
  qed
  show "\<exists>m' e'. no_alloc e (message_data_decode (data_msg_bytes m @ rest) (length (data_msg_bytes m))) =
      Some (Inr (length (data_msg_bytes m), m'), e') \<and> data_agrees m m' \<and> allocs_ok e'" if "allocs_ok e"
    using h p that unfolding len
    by (auto simp: message_data_decode_def data_msg_bytes_def data_agrees_def codec_simps mem_simps
        memcpy_src_def mem_read_def word_gt_0 unat_eq_0)
qed

definition status_valid :: "message_status \<Rightarrow> bool" where
  "status_valid m \<longleftrightarrow> header_ok MESSAGE_STATUS_TYPE (status_header m) \<and> vc_wf (status_version m)"

definition status_bytes :: "message_status \<Rightarrow> u8 list" where
  "status_bytes m = header_bytes (status_header m) @ clock_bytes (status_version m)"

definition status_agrees :: "message_status \<Rightarrow> message_status \<Rightarrow> bool" where
  "status_agrees m m' \<longleftrightarrow> status_header m' = status_header m \<and> vc_wf (status_version m')
     \<and> vc_map (status_version m') = vc_map (status_version m)"

interpretation status_codec: message_codec status_valid status_bytes
  "\<lambda>m. 14 + 12 * vc_size (status_version m)" status_agrees
  "\<lambda>m buffer off n. as_int (message_status_encode m buffer off n)"
  "\<lambda>e buffer n. no_alloc e (message_status_decode buffer n vector_clock_zero)"
proof unfold_locales
  fix m :: message_status and e :: env and n off and buffer rest :: "u8 list"
  show "n < 14 + 12 * vc_size (status_version m) \<Longrightarrow> as_int (message_status_encode m buffer off n) =
      Some (err_code PITTACUS_ERR_BUFFER_NOT_ENOUGH, buffer)"
    by (simp add: message_status_encode_def)
  assume v: "status_valid m"
  then have wf: "vc_wf (status_version m)" and h: "header_ok MESSAGE_STATUS_TYPE (status_header m)"
    by (auto simp: status_valid_def)
  from h have len: "length (status_bytes m) = 14 + 12 * vc_size (status_version m)"
    by (simp add: status_bytes_def length_clock_bytes [OF wf])
  then show "length (status_bytes m) \<le> 14 + 12 * vc_size (status_version m)" by simp
  show "as_int (message_status_encode m buffer off n) =
      mem_write buffer off (status_bytes m) \<bind> (\<lambda>b. Some (int (length (status_bytes m)), b))"
    if n: "14 + 12 * vc_size (status_version m) \<le> n" "off + n \<le> length buffer" "length buffer < 2 ^ 64"
  proof -
    obtain b where b: "mem_write buffer off (header_bytes (status_header m)) = Some b"
      using n h by (simp add: mem_write_def)
    have room: "\<not> n < 12" "\<not> n - 12 < 2 + 12 * vc_size (status_version m)" using n(1) by auto
    have "vector_clock_encode (status_version m) b (off + 12) (n - 12) =
        do { b \<leftarrow> mem_write b (off + 12) (clock_bytes (status_version m));
             Some (Inr (2 + 12 * vc_size (status_version m)), b) }"
      using vector_clock_encode_write [OF wf, of "off + 12" "n - 12" b] n mem_write_Some_length [OF b] room
      by simp
    moreover have "mem_write b (off + 12) (clock_bytes (status_version m)) = mem_write buffer off (status_bytes m)"
      using mem_write_mem_write [of "off + 12" off "header_bytes (status_header m)" buffer] b h
      by (simp add: status_bytes_def)
    ultimately show ?thesis
      using n(1) room b h unfolding len by (simp add: message_status_encode_def codec_simps)
  qed
  show "\<exists>m' e'. no_alloc e (message_status_decode (status_bytes m @ rest) (length (status_bytes m)) vector_clock_zero) =
      Some (Inr (length (status_bytes m), m'), e') \<and> status_agrees m m' \<and> allocs_ok e'"
    if "allocs_ok e" "length (status_bytes m) < 2 ^ 64"
    using vector_clock_decode_bytes(1) [OF wf, of vector_clock_zero "2 + 12 * vc_size (status_version m)" rest]
      vector_clock_decode_bytes(2,3) [OF wf, of vector_clock_zero "2 + 12 * vc_size (status_version m)"] h that
    unfolding len
    by (simp add: message_status_decode_def status_bytes_def status_agrees_def codec_simps vector_clock_zero_def)
qed

definition list_bytes :: "cluster_member list \<Rightarrow> u8 list" where
  "list_bytes ms = concat (map member_bytes ms)"

definition list_valid :: "message_member_list \<Rightarrow> bool" where
  "list_valid m \<longleftrightarrow> header_ok MESSAGE_MEMBER_LIST_TYPE (member_list_header m)
     \<and> unat (members_n m) = length (list_members m)
     \<and> (\<forall>x \<in> set (list_members m). member_ok x \<and> unat (address_len x) \<le> sizeof_sockaddr_storage)"

definition list_msg_bytes :: "message_member_list \<Rightarrow> u8 list" where
  "list_msg_bytes m = header_bytes (member_list_header m) @ be16 (members_n m) @ list_bytes (list_members m)"

definition same_member :: "cluster_member \<Rightarrow> cluster_member \<Rightarrow> bool" where
  "same_member a b \<longleftrightarrow> member_ok b \<and> member_key a = member_key b"

definition list_agrees :: "message_member_list \<Rightarrow> message_member_list \<Rightarrow> bool" where
  "list_agrees m m' \<longleftrightarrow> member_list_header m' = member_list_header m \<and> members_n m' = members_n m
     \<and> list_all2 same_member (list_members m) (list_members m')"

lemma length_list_bytes:
  "\<forall>x \<in> set ms. member_ok x \<and> unat (address_len x) \<le> 128 \<Longrightarrow> length (list_bytes ms) \<le> 138 * length ms"
  by (induction ms) (auto simp: list_bytes_def)

lemma encode_members_write:
  assumes "\<forall>x \<in> set ms. member_ok x" "cursor + length (list_bytes ms) \<le> buffer_end"
    "buffer_end \<le> length buffer" "buffer_end < 2 ^ 64"
  shows "encode_members ms buffer_end buffer (int cursor) = do {
           b \<leftarrow> mem_write buffer cursor (list_bytes ms);
           Some (int (cursor + length (list_bytes ms)), b) }"
  using assms
proof (induction ms arbitrary: buffer cursor)
  case Nil
  then show ?case by (simp add: mem_write_def list_bytes_def)
next
  case (Cons m ms)
  let ?n = "10 + unat (address_len m)"
  have m: "member_ok m" and n: "length (member_bytes m) = ?n" using Cons.prems by auto
  have fits: "cursor + ?n + length (list_bytes ms) \<le> buffer_end"
    using Cons.prems n by (simp add: list_bytes_def)
  have size: "size_of_diff (int buffer_end - int cursor) = buffer_end - cursor"
    using fits Cons.prems by (simp add: nat_diff_distrib flip: of_nat_diff)
  have room: "\<not> buffer_end - cursor < ?n" using fits by simp
  obtain b where b: "mem_write buffer cursor (member_bytes m) = Some b"
    using fits n Cons.prems by (simp add: mem_write_def)
  have "encode_members (m # ms) buffer_end buffer (int cursor) =
      encode_members ms buffer_end b (int (cursor + ?n))"
    using size room b m by (simp add: codec_simps add.assoc)
  also have "\<dots> = do { b \<leftarrow> mem_write b (cursor + ?n) (list_bytes ms);
      Some (int (cursor + ?n + length (list_bytes ms)), b) }"
    using Cons.prems fits mem_write_Some_length [OF b] by (intro Cons.IH) auto
  also have "mem_write b (cursor + ?n) (list_bytes ms) = mem_write buffer cursor (list_bytes (m # ms))"
    using mem_write_mem_write [of "cursor + ?n" cursor "member_bytes m" buffer "list_bytes ms"] b n
    by (simp add: list_bytes_def)
  also have "cursor + ?n + length (list_bytes ms) = cursor + length (list_bytes (m # ms))"
    using n by (simp add: list_bytes_def)
  finally show ?case .
qed

lemma decode_members_bytes:
  assumes "\<forall>x \<in> set ms. member_ok x" "length pre + length (list_bytes ms) \<le> buffer_size" "buffer_size < 2 ^ 64"
  shows "\<exists>ms'. decode_members (pre @ list_bytes ms @ rest) buffer_size (length ms) (length pre) acc =
           Some (Inr (length pre + length (list_bytes ms), acc @ ms')) \<and> list_all2 same_member ms ms'"
  using assms
proof (induction ms arbitrary: pre acc)
  case Nil
  then show ?case by (simp add: list_bytes_def)
next
  case (Cons m ms)
  let ?n = "10 + unat (address_len m)"
  have m: "member_ok m" and n: "length (member_bytes m) = ?n" using Cons.prems by auto
  have bytes: "list_bytes (m # ms) = member_bytes m @ list_bytes ms" by (simp add: list_bytes_def)
  have size: "size_of_diff (int buffer_size - int (length pre)) = buffer_size - length pre"
    using Cons.prems by (simp add: nat_diff_distrib flip: of_nat_diff)
  let ?m' = "m\<lparr>address := Some (member_addr m @ list_bytes ms @ rest)\<rparr>"
  have "cluster_member_decode (member_bytes m @ list_bytes ms @ rest) (buffer_size - length pre) =
      Some (Inr (?n, ?m'))"
    using Cons.prems(2) m n bytes by (intro cluster_member_decode_bytes) auto
  moreover obtain ms' where
    "decode_members ((pre @ member_bytes m) @ list_bytes ms @ rest) buffer_size (length ms)
       (length (pre @ member_bytes m)) (acc @ [?m']) =
     Some (Inr (length (pre @ member_bytes m) + length (list_bytes ms), (acc @ [?m']) @ ms'))"
    "list_all2 same_member ms ms'"
    using Cons.IH [of "pre @ member_bytes m" "acc @ [?m']"] Cons.prems bytes by auto
  moreover have "same_member m ?m'"
    using m by (simp add: same_member_def member_ok_append member_key_copy)
  ultimately show ?case
    using size n bytes by (intro exI [of _ "?m' # ms'"]) (simp add: add.assoc)
qed

interpretation member_list_codec: message_codec list_valid list_msg_bytes
  "\<lambda>m. 14 + unat (members_n m) * 138" list_agrees message_member_list_encode message_member_list_decode
proof unfold_locales
  fix m :: message_member_list and e :: env and n off and buffer rest :: "u8 list"
  let ?ms = "list_members m"
  show "n < 14 + unat (members_n m) * 138 \<Longrightarrow> message_member_list_encode m buffer off n =
      Some (err_code PITTACUS_ERR_BUFFER_NOT_ENOUGH, buffer)"
    by (simp add: message_member_list_encode_def)
  assume v: "list_valid m"
  then have h: "header_ok MESSAGE_MEMBER_LIST_TYPE (member_list_header m)"
    and c: "unat (members_n m) = length ?ms" and ok: "\<forall>x \<in> set ?ms. member_ok x"
    and short: "length (list_bytes ?ms) \<le> 138 * length ?ms"
    using length_list_bytes by (auto simp: list_valid_def)
  from h have len: "length (list_msg_bytes m) = 14 + length (list_bytes ?ms)"
    by (simp add: list_msg_bytes_def)
  then show "length (list_msg_bytes m) \<le> 14 + unat (members_n m) * 138" using short c by simp
  show "message_member_list_encode m buffer off n =
      mem_write buffer off (list_msg_bytes m) \<bind> (\<lambda>b. Some (int (length (list_msg_bytes m)), b))"
    if n: "14 + unat (members_n m) * 138 \<le> n" "off + n \<le> length buffer" "length buffer < 2 ^ 64"
  proof -
    let ?pre = "header_bytes (member_list_header m) @ be16 (members_n m)"
    obtain b where b: "mem_write buffer off ?pre = Some b" using n h by (simp add: mem_write_def)
    have "encode_members ?ms (off + n) b (int (off + 14)) = do {
        b \<leftarrow> mem_write b (off + 14) (list_bytes ?ms); Some (int (off + 14 + length (list_bytes ?ms)), b) }"
      using n c short ok mem_write_Some_length [OF b] by (intro encode_members_write) auto
    moreover have "mem_write b (off + 14) (list_bytes ?ms) = mem_write buffer off (list_msg_bytes m)"
      using mem_write_mem_write [of "off + 14" off ?pre buffer "list_bytes ?ms"] b h
      by (simp add: list_msg_bytes_def)
    moreover have "\<not> n < 14 + unat (members_n m) * 138" "\<not> n < 12" using n(1) by auto
    ultimately show ?thesis
      using b h c unfolding len
      by (simp add: message_member_list_encode_def codec_simps mem_simps add.assoc)
        (simp add: add.commute [of "14 :: int"] split: Option.bind_splits)
  qed
  show "\<exists>m' e'. message_member_list_decode e (list_msg_bytes m @ rest) (length (list_msg_bytes m)) =
      Some (Inr (length (list_msg_bytes m), m'), e') \<and> list_agrees m m' \<and> allocs_ok e'"
    if e: "allocs_ok e" and small: "length (list_msg_bytes m) < 2 ^ 64"
  proof -
    obtain e' where "malloc e = (True, e')" "allocs_ok e'" using malloc_ok [OF e] by blast
    moreover obtain ms' where
      "decode_members (list_msg_bytes m @ rest) (length (list_msg_bytes m)) (length ?ms) 14 [] =
         Some (Inr (length (list_msg_bytes m), ms'))" "list_all2 same_member ?ms ms'"
      using decode_members_bytes [of ?ms "header_bytes (member_list_header m) @ be16 (members_n m)"
          "length (list_msg_bytes m)" rest "[]"] ok h len small
      by (auto simp: list_msg_bytes_def)
    ultimately show ?thesis
      using h c unfolding len
      by (auto simp: message_member_list_decode_def list_msg_bytes_def list_agrees_def codec_simps)
  qed
qed

section \<open>Properties\<close>

definition ex_hello :: message_hello where
  "ex_hello = \<lparr>hello_header = message_header_init MESSAGE_HELLO_TYPE 9, hello_this_member = ex_member\<rparr>"

definition ex_welcome :: message_welcome where
  "ex_welcome = \<lparr>welcome_header = message_header_init MESSAGE_WELCOME_TYPE 10, hello_sequence_num = 9,
     welcome_this_member = ex_member\<rparr>"

definition ex_list :: message_member_list where
  "ex_list = \<lparr>member_list_header = message_header_init MESSAGE_MEMBER_LIST_TYPE 3, members_n = 2,
     list_members = [ex_member, ex_member\<lparr>uid := 8\<rparr>]\<rparr>"

definition ex_data :: message_data where
  "ex_data = \<lparr>data_header = message_header_init MESSAGE_DATA_TYPE 4,
     data_record = \<lparr>sequence_number = 6, member_id = 1\<rparr>, data_size = 3, data = Some [104, 101, 121]\<rparr>"

definition ex_status :: message_status where
  "ex_status = \<lparr>status_header = message_header_init MESSAGE_STATUS_TYPE 5, status_version = ex_clock [(1, 5), (2, 3)]\<rparr>"

definition ex_ack :: message_ack where
  "ex_ack = \<lparr>ack_header = message_header_init MESSAGE_ACK_TYPE 0, ack_sequence_num = 77\<rparr>"

lemma ex_messages_valid [simp]:
  "hello_valid ex_hello" "welcome_valid ex_welcome" "list_valid ex_list" "data_valid ex_data"
  "status_valid ex_status" "ack_valid ex_ack"
  by (simp_all add: hello_valid_def ex_hello_def welcome_valid_def ex_welcome_def list_valid_def ex_list_def
      data_valid_def ex_data_def memcpy_src_def mem_read_def status_valid_def ex_status_def ack_valid_def ex_ack_def)
     (simp_all add: member_ok_def ex_member_def)

lemma ex_messages_need [simp]:
  "hello_this_member ex_hello = ex_member" "welcome_this_member ex_welcome = ex_member"
  "members_n ex_list = 2" "data_size ex_data = 3" "vc_size (status_version ex_status) = 2"
  by (simp_all add: ex_hello_def ex_welcome_def ex_list_def ex_data_def ex_status_def ex_clock_def)

text \<open>A welcome message that fits into the buffer is encoded to its specified bytes and decoded
  from them as a message with the same header, number of the answered hello, version, uid and address.\<close>

lemma welcome_roundtrip:
  assumes "welcome_valid m" "32 + unat (address_len (welcome_this_member m)) \<le> n" "off + n \<le> length buffer"
    "length buffer < 2 ^ 64" "allocs_ok e"
  shows "\<exists>b m' e'. message_welcome_encode m buffer off n = Some (int (length (welcome_bytes m)), b)
           \<and> message_welcome_decode e (drop off b) (length (welcome_bytes m)) = Some (Inr (length (welcome_bytes m), m'), e')
           \<and> welcome_agrees m m' \<and> allocs_ok e'"
  using welcome_codec.roundtrip [OF assms] .


text \<open>A member list that fits into the buffer is encoded to its specified bytes and decoded from
  them as a list with the same header and the same members in the same order.\<close>

lemma member_list_roundtrip:
  assumes "list_valid m" "14 + unat (members_n m) * 138 \<le> n" "off + n \<le> length buffer"
    "length buffer < 2 ^ 64" "allocs_ok e"
  shows "\<exists>b m' e'. message_member_list_encode m buffer off n = Some (int (length (list_msg_bytes m)), b)
           \<and> message_member_list_decode e (drop off b) (length (list_msg_bytes m)) = Some (Inr (length (list_msg_bytes m), m'), e')
           \<and> list_agrees m m' \<and> allocs_ok e'"
  using member_list_codec.roundtrip [OF assms] .


text \<open>A data message that fits into the buffer survives encoding and decoding: the header, the
  record and the payload arrive, the empty payload as no
  payload.\<close>

lemma data_roundtrip:
  assumes "data_valid m" "26 + unat (data_size m) \<le> n" "off + n \<le> length buffer" "length buffer < 2 ^ 64"
  shows "\<exists>b m'. message_data_encode m buffer off n = Some (Inr (26 + unat (data_size m)), b)
           \<and> message_data_decode (drop off b) (26 + unat (data_size m)) = Some (Inr (26 + unat (data_size m), m'))
           \<and> data_agrees m m'"
proof -
  have len: "length (data_msg_bytes m) = 26 + unat (data_size m)"
    using assms(1) payload_Some(2) [OF assms(1)] by (auto simp: data_msg_bytes_def data_valid_def)
  show ?thesis
    using data_codec.roundtrip [OF assms ex_env_ok] unfolding len
    by (auto elim!: as_int_SomeE simp: no_alloc_def result_int_eq simp del: of_nat_add of_nat_numeral)
qed


text \<open>A status message that fits into the buffer survives encoding and decoding: the header
  arrives and the decoded clock knows what the encoded one knows.\<close>

lemma status_roundtrip:
  assumes "status_valid m" "14 + 12 * vc_size (status_version m) \<le> n" "off + n \<le> length buffer"
    "length buffer < 2 ^ 64"
  shows "\<exists>b m'. message_status_encode m buffer off n = Some (Inr (14 + 12 * vc_size (status_version m)), b)
           \<and> message_status_decode (drop off b) (14 + 12 * vc_size (status_version m)) vector_clock_zero
               = Some (Inr (14 + 12 * vc_size (status_version m), m'))
           \<and> status_agrees m m'"
proof -
  have len: "length (status_bytes m) = 14 + 12 * vc_size (status_version m)"
    using assms(1) length_clock_bytes by (auto simp: status_bytes_def status_valid_def)
  show ?thesis
    using status_codec.roundtrip [OF assms ex_env_ok] unfolding len
    by (auto elim!: as_int_SomeE simp: no_alloc_def result_int_eq simp del: of_nat_add of_nat_numeral)
qed


text \<open>Acknowledgements are decoded exactly as they were encoded.\<close>

lemma ack_roundtrip:
  assumes "ack_valid m" "16 \<le> n" "off + n \<le> length buffer" "length buffer < 2 ^ 64"
  shows "\<exists>b. message_ack_encode m buffer off n = Some (Inr 16, b)
           \<and> message_ack_decode (drop off b) 16 = Some (Inr (16, m))"
proof -
  have len: "length (ack_bytes m) = 16" using assms(1) by (simp add: ack_bytes_def ack_valid_def)
  show ?thesis
    using ack_codec.roundtrip [OF assms ex_env_ok] unfolding len
    by (auto elim!: as_int_SomeE simp: no_alloc_def result_int_eq simp del: of_nat_add of_nat_numeral)
qed

text \<open>C34. No decoder accepts foreign bytes: of a datagram in a buffer of at least a header's size, the
  decoder of each type rejects, as an invalid message, whatever is too short for a header, does not
  start with the protocol id or is of another type.\<close>

theorem decoders_reject_foreign:
  assumes "12 \<le> length buffer" "n < 12 \<or> take 5 buffer \<noteq> PROTOCOL_ID \<or> buffer ! 5 \<noteq> t"
  shows "(t = MESSAGE_HELLO_TYPE \<longrightarrow> message_hello_decode e buffer n = Some (Inl PITTACUS_ERR_INVALID_MESSAGE, e))
       \<and> (t = MESSAGE_WELCOME_TYPE \<longrightarrow> message_welcome_decode e buffer n = Some (Inl PITTACUS_ERR_INVALID_MESSAGE, e))
       \<and> (t = MESSAGE_MEMBER_LIST_TYPE \<longrightarrow>
            message_member_list_decode e buffer n = Some (Inl PITTACUS_ERR_INVALID_MESSAGE, e))
       \<and> (t = MESSAGE_ACK_TYPE \<longrightarrow> message_ack_decode buffer n = Some (Inl PITTACUS_ERR_INVALID_MESSAGE))
       \<and> (t = MESSAGE_DATA_TYPE \<longrightarrow> message_data_decode buffer n = Some (Inl PITTACUS_ERR_INVALID_MESSAGE))
       \<and> (t = MESSAGE_STATUS_TYPE \<longrightarrow>
            message_status_decode buffer n stack = Some (Inl PITTACUS_ERR_INVALID_MESSAGE))"
proof -
  have "message_is_payload_valid buffer n t = Some False"
    using assms by (auto simp: message_is_payload_valid_iff)
  then show ?thesis
    by (auto simp: message_hello_decode_def message_welcome_decode_def message_member_list_decode_def
        message_ack_decode_def message_data_decode_def message_status_decode_def)
qed

theorem decoders_reject_foreign_witness:
  "message_data_decode (PROTOCOL_ID @ 1 # replicate 40 0) 46 = Some (Inl PITTACUS_ERR_INVALID_MESSAGE)"
  using decoders_reject_foreign [of "PROTOCOL_ID @ 1 # replicate 40 0" 46 5] by (simp add: PROTOCOL_ID_def)

text \<open>C40. The rest of the datagram behind a decoded member is computed without a test that the address ended
  inside it, and is then taken for unsigned: a list of two members that was cut off inside the first
  address is not refused but read to the end of the second member, behind the bytes that were
  received, whatever lies there.\<close>

theorem member_list_reads_past_end:
  assumes v: "list_valid l" "list_members l = [a, b]" and n: "24 \<le> n" "n < 24 + unat (address_len a)" and e: "allocs_ok e"
  shows "\<exists>m' e'. message_member_list_decode e (list_msg_bytes l @ rest) n = Some (Inr (length (list_msg_bytes l), m'), e')
     \<and> n < length (list_msg_bytes l)"
proof -
  have h: "header_ok MESSAGE_MEMBER_LIST_TYPE (member_list_header l)" "unat (members_n l) = Suc (Suc 0)" "member_ok a" "member_ok b"
    "unat (address_len a) \<le> 128" using v by (auto simp: list_valid_def)
  obtain e' where m: "malloc e = (True, e')" using malloc_ok [OF e] by blast
  let ?pre = "header_bytes (member_list_header l) @ be16 (members_n l)"
  have bytes: "list_msg_bytes l = ?pre @ member_bytes a @ member_bytes b"
    using v(2) by (simp add: list_msg_bytes_def list_bytes_def)
  have len: "length ?pre = 14" "length (member_bytes a) = 10 + unat (address_len a)" "length (member_bytes b) = 10 + unat (address_len b)"
    using h by auto
  have size1: "size_of_diff (int n - 14) = n - 14" using n h(5) by (simp add: nat_diff_distrib flip: of_nat_diff)
  have "int n - (24 + uint (address_len a)) < 0" "- 128 \<le> int n - (24 + uint (address_len a))"
    unfolding uint_nat using n h(5) by linarith+
  then have size2: "10 \<le> size_of_diff (int n - (24 + uint (address_len a)))" by (simp add: size_of_diff_neg)
  have "decode_members (list_msg_bytes l @ rest) n (Suc (Suc 0)) 14 [] =
      Some (Inr (length (list_msg_bytes l), [a\<lparr>address := Some (member_addr a @ member_bytes b @ rest)\<rparr>,
        b\<lparr>address := Some (member_addr b @ rest)\<rparr>]))"
    using len cluster_member_decode_bytes [OF h(3), of "n - 14" "member_bytes b @ rest"]
      cluster_member_decode_bytes [OF h(4) size2, of rest] n(1) size1
    by (simp add: bytes)
  then show ?thesis
    using n h m len by (auto simp: message_member_list_decode_def bytes codec_simps)
qed

theorem member_list_reads_past_end_witness:
  "\<exists>m' e'. message_member_list_decode ex_env (list_msg_bytes ex_list @ []) 30 = Some (Inr (length (list_msg_bytes ex_list), m'), e')
     \<and> 30 < length (list_msg_bytes ex_list)"
  by (rule member_list_reads_past_end [where a = ex_member]) (simp, simp add: ex_list_def, simp_all)

end
