(* ===== verification/Pt_Queue.thy ===== *)
theory Pt_Queue
  imports Pt_Messages
begin

text \<open>
  The queue of outbound messages of \<^verbatim>\<open>gossip.c\<close>.

  In the program it is a doubly linked list of heap-allocated envelopes. The first part of this
  theory follows the code pointer by pointer: a heap maps addresses to nodes, \<open>None\<close> is
  \<^verbatim>\<open>NULL\<close>, an access to an unallocated node is undefined, and a walk through a cyclic list does
  not return. The lemmas show that on a heap that represents a list of envelopes
  (\<open>queue_rep\<close>) every operation returns and represents the result of the list operation:
  appending, deleting at a position, finding the first match, emptying. The locale
  \<open>outbound_queue\<close> states this contract; the theories above use the queue through the list.
\<close>

record envelope =
  recipient :: "u8 list"
  recipient_len :: u32
  env_buffer :: nat
  env_buffer_size :: nat
  sequence_num :: u32
  attempt_ts :: u64
  attempt_num :: u16
  max_attempts :: u16

text \<open>
  \<^verbatim>\<open>gossip_envelope_create\<close>. The buffer pointer is an offset in the output buffer. The
  recipient holds the \<^verbatim>\<open>recipient_len\<close> bytes copied from the address; more than
  \<^verbatim>\<open>sizeof(pt_sockaddr_storage)\<close> overflow the field.
\<close>

definition gossip_envelope_create ::
  "env \<Rightarrow> u32 \<Rightarrow> nat \<Rightarrow> nat \<Rightarrow> u16 \<Rightarrow> u8 list option \<Rightarrow> u32 \<Rightarrow> (envelope option \<times> env) option" where
  "gossip_envelope_create e seq_num buffer buffer_size attempts to len =
     (let (ok, e) = malloc e
      in if \<not> ok then Some (None, e)
         else if unat len > sizeof_sockaddr_storage then None
         else do {
           bs \<leftarrow> memcpy_src to (unat len);
           Some (Some \<lparr>recipient = bs, recipient_len = len, env_buffer = buffer,
                  env_buffer_size = buffer_size, sequence_num = seq_num, attempt_ts = 0,
                  attempt_num = 0, max_attempts = attempts\<rparr>, e)
         })"

section \<open>The linked list\<close>

type_synonym ptr = nat

record node =
  node_envelope :: envelope
  prev_ptr :: "ptr option"
  next_ptr :: "ptr option"

type_synonym heap = "ptr \<rightharpoonup> node"

record message_queue =
  head :: "ptr option"
  tail :: "ptr option"

text \<open>The node of a created envelope, at the address \<^verbatim>\<open>malloc\<close> returned.\<close>

definition heap_envelope :: "heap \<Rightarrow> ptr \<Rightarrow> envelope \<Rightarrow> heap" where
  "heap_envelope h p envelope = h(p \<mapsto> \<lparr>node_envelope = envelope, prev_ptr = None, next_ptr = None\<rparr>)"

definition set_next :: "heap \<Rightarrow> ptr \<Rightarrow> ptr option \<Rightarrow> heap option" where
  "set_next h p v = do { n \<leftarrow> h p; Some (h(p \<mapsto> n\<lparr>next_ptr := v\<rparr>)) }"

definition set_prev :: "heap \<Rightarrow> ptr \<Rightarrow> ptr option \<Rightarrow> heap option" where
  "set_prev h p v = do { n \<leftarrow> h p; Some (h(p \<mapsto> n\<lparr>prev_ptr := v\<rparr>)) }"

definition gossip_envelope_enqueue ::
  "heap \<Rightarrow> message_queue \<Rightarrow> ptr \<Rightarrow> (heap \<times> message_queue) option" where
  "gossip_envelope_enqueue h queue envelope = do {
     h \<leftarrow> set_next h envelope None;
     if head queue = None \<or> tail queue = None
     then Some (h, queue\<lparr>head := Some envelope, tail := Some envelope\<rparr>)
     else do {
       h \<leftarrow> set_prev h envelope (tail queue);
       t \<leftarrow> tail queue;
       h \<leftarrow> set_next h t (Some envelope);
       Some (h, queue\<lparr>tail := Some envelope\<rparr>)
     }
   }"

definition gossip_envelope_destroy :: "heap \<Rightarrow> ptr \<Rightarrow> heap option" where
  "gossip_envelope_destroy h p = (if p \<in> dom h then Some (h(p := None)) else None)"

definition gossip_envelope_remove ::
  "heap \<Rightarrow> message_queue \<Rightarrow> ptr \<Rightarrow> (heap \<times> message_queue) option" where
  "gossip_envelope_remove h queue envelope = do {
     n \<leftarrow> h envelope;
     let pr = prev_ptr n;
     let nx = next_ptr n;
     (h, queue) \<leftarrow> (case nx of
         Some x \<Rightarrow> do { h \<leftarrow> set_prev h x pr; Some (h, queue) }
       | None \<Rightarrow> Some (h, queue\<lparr>tail := pr\<rparr>));
     (h, queue) \<leftarrow> (case pr of
         Some x \<Rightarrow> do { h \<leftarrow> set_next h x nx; Some (h, queue) }
       | None \<Rightarrow> Some (h, queue\<lparr>head := nx\<rparr>));
     h \<leftarrow> gossip_envelope_destroy h envelope;
     Some (h, queue)
   }"

partial_function (option) find_from :: "heap \<Rightarrow> u32 \<Rightarrow> ptr option \<Rightarrow> ptr option option" where
  "find_from h seq_num cur = (case cur of
       None \<Rightarrow> Some None
     | Some p \<Rightarrow> do {
         n \<leftarrow> h p;
         if sequence_num (node_envelope n) = seq_num then Some (Some p)
         else find_from h seq_num (next_ptr n)
       })"

definition gossip_envelope_find_by_sequence_num ::
  "heap \<Rightarrow> message_queue \<Rightarrow> u32 \<Rightarrow> ptr option option" where
  "gossip_envelope_find_by_sequence_num h queue seq_num = find_from h seq_num (head queue)"

partial_function (option) clear_from :: "heap \<Rightarrow> ptr option \<Rightarrow> heap option" where
  "clear_from h cur = (case cur of
       None \<Rightarrow> Some h
     | Some p \<Rightarrow> do {
         n \<leftarrow> h p;
         h \<leftarrow> gossip_envelope_destroy h p;
         clear_from h (next_ptr n)
       })"

definition gossip_envelope_clear :: "heap \<Rightarrow> message_queue \<Rightarrow> (heap \<times> message_queue) option" where
  "gossip_envelope_clear h queue = do {
     h \<leftarrow> clear_from h (head queue);
     Some (h, queue\<lparr>head := None, tail := None\<rparr>)
   }"

section \<open>Which list a heap represents\<close>

text \<open>
  A segment: from the pointer \<open>cur\<close>, whose predecessor is \<open>pr\<close>, through the nodes \<open>ps\<close> to the
  pointer \<open>cur'\<close>, whose predecessor is \<open>pr'\<close>.
\<close>

fun dseg :: "heap \<Rightarrow> ptr option \<Rightarrow> ptr option \<Rightarrow> ptr list \<Rightarrow> ptr option \<Rightarrow> ptr option \<Rightarrow> bool" where
  "dseg h pr cur [] pr' cur' \<longleftrightarrow> pr = pr' \<and> cur = cur'"
| "dseg h pr cur (p # ps) pr' cur' \<longleftrightarrow>
     cur = Some p \<and> (\<exists>n. h p = Some n \<and> prev_ptr n = pr \<and> dseg h (Some p) (next_ptr n) ps pr' cur')"

definition queue_rep :: "heap \<Rightarrow> message_queue \<Rightarrow> (ptr \<times> envelope) list \<Rightarrow> bool" where
  "queue_rep h q xs \<longleftrightarrow> dseg h None (head q) (map fst xs) (tail q) None \<and> distinct (map fst xs)
     \<and> (\<forall>(p, x) \<in> set xs. \<exists>n. h p = Some n \<and> node_envelope n = x)"

lemma dseg_append:
  "dseg h a b (xs @ ys) c d \<longleftrightarrow> (\<exists>m n. dseg h a b xs m n \<and> dseg h m n ys c d)"
  by (induction xs arbitrary: a b) auto

lemma dseg_frame: "p \<notin> set ps \<Longrightarrow> dseg (h(p := v)) a b ps c d = dseg h a b ps c d"
  by (induction ps arbitrary: a b) auto

lemma dseg_cong: "(\<And>p. p \<in> set ps \<Longrightarrow> h p = h' p) \<Longrightarrow> dseg h a b ps c d = dseg h' a b ps c d"
  by (induction ps arbitrary: a b) auto

lemma dseg_in_dom: "dseg h a b ps c d \<Longrightarrow> p \<in> set ps \<Longrightarrow> \<exists>n. h p = Some n"
  by (induction ps arbitrary: a b) auto

text \<open>The end of a segment: its predecessor is its last node, or what it started with.\<close>

lemma dseg_last: "dseg h a b ps c d \<Longrightarrow> c = (if ps = [] then a else Some (last ps))"
  by (induction ps arbitrary: a b) auto

lemma dseg_first: "dseg h a b ps c d \<Longrightarrow> b = (if ps = [] then d else Some (hd ps))"
  by (cases ps) auto

text \<open>Changing the forward pointer of the last node, the backward pointer of the first one.\<close>

lemma dseg_set_next:
  assumes "dseg h a b (ps @ [p]) c d" "p \<notin> set ps"
  shows "\<exists>h'. set_next h p v = Some h' \<and> dseg h' a b (ps @ [p]) (Some p) v"
  using assms by (auto simp: dseg_append set_next_def dseg_frame)

lemma dseg_set_prev:
  assumes "dseg h a b (p # ps) c d" "p \<notin> set ps"
  shows "\<exists>h'. set_prev h p v = Some h' \<and> dseg h' v b (p # ps) c d"
  using assms by (auto simp: set_prev_def dseg_frame)

lemma set_next_frame:
  assumes "set_next h p v = Some h'"
  shows "p \<notin> set ps \<Longrightarrow> dseg h' a b ps c d = dseg h a b ps c d"
    "dom h' = dom h" "map_option node_envelope (h' q) = map_option node_envelope (h q)"
    "q \<noteq> p \<Longrightarrow> h' q = h q"
  using assms by (auto simp: set_next_def dseg_frame split: Option.bind_splits if_splits)

lemma set_prev_frame:
  assumes "set_prev h p v = Some h'"
  shows "p \<notin> set ps \<Longrightarrow> dseg h' a b ps c d = dseg h a b ps c d"
    "dom h' = dom h" "map_option node_envelope (h' q) = map_option node_envelope (h q)"
    "q \<noteq> p \<Longrightarrow> h' q = h q"
  using assms by (auto simp: set_prev_def dseg_frame split: Option.bind_splits if_splits)

lemma queue_rep_alt:
  "queue_rep h q xs \<longleftrightarrow> dseg h None (head q) (map fst xs) (tail q) None \<and> distinct (map fst xs)
     \<and> (\<forall>(p, x) \<in> set xs. map_option node_envelope (h p) = Some x)"
  by (auto simp: queue_rep_def split: prod.splits)

lemma queue_rep_node: "queue_rep h q xs \<Longrightarrow> (p, x) \<in> set xs \<Longrightarrow> map_option node_envelope (h p) = Some x"
  by (auto simp: queue_rep_alt)

lemma queue_rep_empty_iff: "queue_rep h q xs \<Longrightarrow> head q = None \<longleftrightarrow> xs = []"
  "queue_rep h q xs \<Longrightarrow> tail q = None \<longleftrightarrow> xs = []"
  using dseg_first [of h None "head q" "map fst xs" "tail q" None]
    dseg_last [of h None "head q" "map fst xs" "tail q" None]
  by (auto simp: queue_rep_def split: if_splits)

section \<open>The operations implement a list\<close>

lemma enqueue_rep:
  assumes rep: "queue_rep h q xs" and fresh: "h p = None"
  shows "\<exists>h' q'. gossip_envelope_enqueue (heap_envelope h p x) q p = Some (h', q')
           \<and> queue_rep h' q' (xs @ [(p, x)]) \<and> dom h' = insert p (dom h)"
proof -
  let ?n = "\<lparr>node_envelope = x, prev_ptr = None, next_ptr = None\<rparr>"
  let ?h1 = "h(p \<mapsto> ?n)"
  have new: "p \<notin> set (map fst xs)" using rep fresh by (auto simp: queue_rep_def)
  have seg: "dseg h None (head q) (map fst xs) (tail q) None" using rep by (simp add: queue_rep_def)
  show ?thesis
  proof (cases xs rule: rev_cases)
    case Nil
    then show ?thesis
      using queue_rep_empty_iff [OF rep]
      by (auto simp: gossip_envelope_enqueue_def heap_envelope_def set_next_def queue_rep_def)
  next
    case (snoc ys ty)
    obtain t y where ty: "ty = (t, y)" by (cases ty)
    have tail: "tail q = Some t" using dseg_last [OF seg] snoc ty by simp
    obtain f where ne: "head q = Some f" using queue_rep_empty_iff(1) [OF rep] snoc by auto
    let ?h2 = "h(p \<mapsto> ?n\<lparr>prev_ptr := Some t\<rparr>)"
    have "dseg ?h2 None (head q) (map fst ys @ [t]) (Some t) None"
      using seg new snoc ty tail by (simp add: dseg_frame)
    moreover have t: "t \<notin> set (map fst ys)" "t \<noteq> p" using rep new snoc ty by (auto simp: queue_rep_def)
    ultimately obtain h' where h': "set_next ?h2 t (Some p) = Some h'"
      "dseg h' None (head q) (map fst ys @ [t]) (Some t) (Some p)"
      using dseg_set_next [of ?h2 None "head q" "map fst ys" t "Some t" None "Some p"] by blast
    note f = set_next_frame [OF h'(1)]
    have "h' p = Some (?n\<lparr>prev_ptr := Some t\<rparr>)" using f(4) [of p] t by simp
    then have "dseg h' None (head q) (map fst (xs @ [(p, x)])) (Some p) None"
      using h'(2) snoc ty by (auto simp: dseg_append)
    moreover have "map_option node_envelope (h' a) = Some b" if "(a, b) \<in> set (xs @ [(p, x)])" for a b
    proof (cases "a = p")
      case True
      then have "b = x" using that new by force
      then show ?thesis using True f(3) [of p] by simp
    next
      case False
      then show ?thesis using that rep f(3) [of a] by (auto simp: queue_rep_alt)
    qed
    ultimately have "queue_rep h' (q\<lparr>tail := Some p\<rparr>) (xs @ [(p, x)])"
      using rep new by (auto simp: queue_rep_alt)
    moreover have "gossip_envelope_enqueue (heap_envelope h p x) q p = Some (h', q\<lparr>tail := Some p\<rparr>)"
      using tail ne h'(1) by (simp add: gossip_envelope_enqueue_def heap_envelope_def set_next_def [of _ p] set_prev_def)
    moreover have "dom h' = insert p (dom h)" using f(2) by simp
    ultimately show ?thesis by blast
  qed
qed

text \<open>
  Unlinking is done in two steps, the successor side and the predecessor side. Each joins
  what it can see of the list.
\<close>

lemma unlink_next:
  assumes "dseg h (Some p) nx ys c None" "distinct ys" and c: "ys \<noteq> [] \<longrightarrow> tail q = c"
  shows "\<exists>h' q'. (case nx of
        Some x \<Rightarrow> do { h \<leftarrow> set_prev h x pr; Some (h, q) }
      | None \<Rightarrow> Some (h, q\<lparr>tail := pr\<rparr>)) = Some (h', q')
      \<and> dseg h' pr nx ys (tail q') None \<and> head q' = head q
      \<and> (ys \<noteq> [] \<longrightarrow> tail q' = tail q) \<and> dom h' = dom h
      \<and> (\<forall>a. a \<notin> set ys \<longrightarrow> h' a = h a)
      \<and> (\<forall>a. map_option node_envelope (h' a) = map_option node_envelope (h a))"
proof (cases ys)
  case Nil
  then show ?thesis using assms by auto
next
  case (Cons y ys')
  then have "nx = Some y" "c = tail q" using assms by auto
  moreover obtain h' where "set_prev h y pr = Some h'" "dseg h' pr (Some y) (y # ys') c None"
    using dseg_set_prev [of h "Some p" nx y ys' c None pr] assms Cons by auto
  ultimately show ?thesis using Cons set_prev_frame [of h y pr h'] by auto
qed

lemma unlink_prev:
  assumes "dseg h None (head q) xs pr cur" "distinct xs"
  shows "\<exists>h' q'. (case pr of
        Some x \<Rightarrow> do { h \<leftarrow> set_next h x nx; Some (h, q) }
      | None \<Rightarrow> Some (h, q\<lparr>head := nx\<rparr>)) = Some (h', q')
      \<and> dseg h' None (head q') xs pr nx \<and> tail q' = tail q \<and> dom h' = dom h
      \<and> (\<forall>a. a \<notin> set xs \<longrightarrow> h' a = h a)
      \<and> (\<forall>a. map_option node_envelope (h' a) = map_option node_envelope (h a))"
proof (cases xs rule: rev_cases)
  case Nil
  then show ?thesis using assms by auto
next
  case (snoc ys y)
  then have "pr = Some y" using dseg_last [OF assms(1)] by simp
  moreover obtain h' where "set_next h y nx = Some h'" "dseg h' None (head q) (ys @ [y]) (Some y) nx"
    using dseg_set_next [of h None "head q" ys y pr cur nx] assms snoc by auto
  ultimately show ?thesis using snoc set_next_frame [of h y nx h'] by auto
qed

lemma remove_rep:
  assumes rep: "queue_rep h q (xs @ (p, x) # ys)"
  shows "\<exists>h' q'. gossip_envelope_remove h q p = Some (h', q') \<and> queue_rep h' q' (xs @ ys)
           \<and> dom h' = dom h - {p}"
proof -
  let ?xs = "map fst xs" and ?ys = "map fst ys"
  have dist: "distinct ?xs" "distinct ?ys" "p \<notin> set ?xs" "p \<notin> set ?ys" "set ?xs \<inter> set ?ys = {}"
    using rep by (auto simp: queue_rep_def)
  obtain n where n: "h p = Some n" "dseg h None (head q) ?xs (prev_ptr n) (Some p)"
    "dseg h (Some p) (next_ptr n) ?ys (tail q) None"
    using rep by (auto simp: queue_rep_def dseg_append)
  let ?pr = "prev_ptr n" and ?nx = "next_ptr n"
  obtain h1 q1 where s1: "(case ?nx of Some x \<Rightarrow> do { h \<leftarrow> set_prev h x ?pr; Some (h, q) }
      | None \<Rightarrow> Some (h, q\<lparr>tail := ?pr\<rparr>)) = Some (h1, q1)"
    "dseg h1 ?pr ?nx ?ys (tail q1) None" "head q1 = head q" "dom h1 = dom h"
    and keep1: "\<forall>a. a \<notin> set ?ys \<longrightarrow> h1 a = h a"
      "\<forall>a. map_option node_envelope (h1 a) = map_option node_envelope (h a)"
    using unlink_next [OF n(3) dist(2), of q ?pr] by blast
  have "\<And>a. a \<in> set ?xs \<Longrightarrow> h1 a = h a" using keep1(1) dist(5) by blast
  from dseg_cong [of ?xs h1 h, OF this] have "dseg h1 None (head q1) ?xs ?pr (Some p)" using n(2) s1(3) by simp
  then obtain h2 q2 where s2: "(case ?pr of Some x \<Rightarrow> do { h \<leftarrow> set_next h1 x ?nx; Some (h, q1) }
      | None \<Rightarrow> Some (h1, q1\<lparr>head := ?nx\<rparr>)) = Some (h2, q2)"
    "dseg h2 None (head q2) ?xs ?pr ?nx" "tail q2 = tail q1" "dom h2 = dom h1"
    and keep2: "\<forall>a. a \<notin> set ?xs \<longrightarrow> h2 a = h1 a"
      "\<forall>a. map_option node_envelope (h2 a) = map_option node_envelope (h1 a)"
    using unlink_prev [OF _ dist(1)] by blast
  have "\<And>a. a \<in> set ?ys \<Longrightarrow> h2 a = h1 a" using keep2(1) dist(5) by blast
  from dseg_cong [of ?ys h2 h1, OF this] have "dseg h2 ?pr ?nx ?ys (tail q1) None" using s1(2) by simp
  then have seg: "dseg h2 None (head q2) (?xs @ ?ys) (tail q2) None"
    using s2(2,3) by (auto simp: dseg_append)
  have p: "p \<in> dom h2" using n(1) s1(4) s2(4) by auto
  let ?h' = "h2(p := None)"
  have "map_option node_envelope (?h' a) = Some b" if "(a, b) \<in> set (xs @ ys)" for a b
  proof -
    have "a \<noteq> p" using that dist(3,4) by force
    moreover have "map_option node_envelope (h a) = Some b"
      using that by (intro queue_rep_node [OF rep]) auto
    ultimately show ?thesis using keep1(2) keep2(2) by simp
  qed
  then have "queue_rep ?h' q2 (xs @ ys)"
    using seg dist by (auto simp: queue_rep_alt dseg_frame)
  moreover have "gossip_envelope_remove h q p = Some (?h', q2)"
    using n(1) s1(1) s2(1) p
    by (simp only: gossip_envelope_remove_def gossip_envelope_destroy_def Let_def bind.bind_lunit
        prod.case if_True)
  ultimately show ?thesis using s1(4) s2(4) by auto
qed

lemma find_from_rep:
  assumes "dseg h a cur (map fst xs) c None" "\<forall>(p, x) \<in> set xs. \<exists>n. h p = Some n \<and> node_envelope n = x"
  shows "find_from h s cur = Some (map_option fst (List.find (\<lambda>(p, x). sequence_num x = s) xs))"
  using assms
proof (induction xs arbitrary: a cur)
  case Nil
  then show ?case by (simp add: find_from.simps)
next
  case (Cons px xs)
  then show ?case by (cases px) (auto simp: find_from.simps [of h s "Some _"])
qed

lemma clear_from_rep:
  assumes "dseg h a cur ps c None" "distinct ps"
  shows "clear_from h cur = Some (h |` (- set ps))"
  using assms
proof (induction ps arbitrary: h a cur)
  case Nil
  then show ?case by (simp add: clear_from.simps)
next
  case (Cons p ps)
  then obtain n where n: "cur = Some p" "h p = Some n" "dseg h (Some p) (next_ptr n) ps c None" by auto
  have "dseg (h(p := None)) (Some p) (next_ptr n) ps c None" using n Cons.prems by (simp add: dseg_frame)
  then have "clear_from (h(p := None)) (next_ptr n) = Some (h(p := None) |` (- set ps))"
    by (rule Cons.IH) (use Cons.prems(2) in simp)
  moreover have "h(p := None) |` (- set ps) = h |` (- set (p # ps))"
    by (auto simp: restrict_map_def)
  ultimately show ?case
    using n by (subst clear_from.simps) (auto simp: gossip_envelope_destroy_def)
qed

section \<open>The contract of the queue\<close>

text \<open>
  \<open>rep s xs\<close>: the state \<open>s\<close> holds the envelopes \<open>xs\<close>, in this order, under
  distinct handles.
\<close>

locale outbound_queue =
  fixes rep :: "'s \<Rightarrow> ('p \<times> envelope) list \<Rightarrow> bool"
    and fresh :: "'s \<Rightarrow> 'p \<Rightarrow> bool"
    and push :: "'s \<Rightarrow> 'p \<Rightarrow> envelope \<Rightarrow> 's option"
    and remove :: "'s \<Rightarrow> 'p \<Rightarrow> 's option"
    and lookup :: "'s \<Rightarrow> u32 \<Rightarrow> 'p option option"
    and clear :: "'s \<Rightarrow> 's option"
  assumes handles: "rep s xs \<Longrightarrow> distinct (map fst xs)"
    and push_ok: "rep s xs \<Longrightarrow> fresh s p \<Longrightarrow> \<exists>s'. push s p x = Some s' \<and> rep s' (xs @ [(p, x)])"
    and remove_ok: "rep s (xs @ (p, x) # ys) \<Longrightarrow> \<exists>s'. remove s p = Some s' \<and> rep s' (xs @ ys) \<and> fresh s' p"
    and lookup_ok: "rep s xs \<Longrightarrow>
      lookup s n = Some (map_option fst (List.find (\<lambda>(p, x). sequence_num x = n) xs))"
    and clear_ok: "rep s xs \<Longrightarrow> \<exists>s'. clear s = Some s' \<and> rep s' [] \<and> (\<forall>(p, x) \<in> set xs. fresh s' p)"
begin

text \<open>
  What the handlers of acknowledgements do: look the number up, remove the envelope found. The
  first envelope with the number goes, the others stay.
\<close>

lemma acknowledge:
  assumes "rep s xs"
  shows "\<exists>s'. (do { found \<leftarrow> lookup s n; case found of None \<Rightarrow> Some s | Some p \<Rightarrow> remove s p }) = Some s'
           \<and> rep s' (remove_first (\<lambda>(p, x). sequence_num x = n) xs)"
proof (cases "List.find (\<lambda>(p, x). sequence_num x = n) xs")
  case None
  then have "\<forall>px \<in> set xs. \<not> (case px of (p, x) \<Rightarrow> sequence_num x = n)" by (auto simp: find_None_iff)
  then have "remove_first (\<lambda>(p, x). sequence_num x = n) xs = xs" by (rule remove_first_none)
  then show ?thesis using assms lookup_ok [OF assms, of n] by (simp only: None) simp
next
  case (Some px)
  then obtain i where i: "i < length xs" "case xs ! i of (p, x) \<Rightarrow> sequence_num x = n" "px = xs ! i"
    "\<forall>j<i. \<not> (case xs ! j of (p, x) \<Rightarrow> sequence_num x = n)"
    by (auto simp: find_Some_iff)
  obtain p x where px: "px = (p, x)" by (cases px)
  have split: "xs = take i xs @ (p, x) # drop (Suc i) xs"
    using i px id_take_nth_drop by metis
  then obtain s' where "remove s p = Some s'" "rep s' (take i xs @ drop (Suc i) xs)"
    using remove_ok [of s "take i xs" p x "drop (Suc i) xs"] assms by metis
  then show ?thesis
    using Some px lookup_ok [OF assms, of n] remove_first_split [of i xs, OF i(1,2,4)] by auto
qed

text \<open>A number no queued envelope has leads to the envelope pushed with it.\<close>

lemma push_lookup:
  assumes "rep s xs" "fresh s p" "\<forall>(q, y) \<in> set xs. sequence_num y \<noteq> sequence_num x"
  shows "\<exists>s'. push s p x = Some s' \<and> lookup s' (sequence_num x) = Some (Some p)"
proof -
  obtain s' where s': "push s p x = Some s'" "rep s' (xs @ [(p, x)])"
    using push_ok [OF assms(1,2)] by blast
  have "List.find (\<lambda>(q, y). sequence_num y = sequence_num x) xs = None"
    using assms(3) by (auto simp: find_None_iff)
  then have "List.find (\<lambda>(q, y). sequence_num y = sequence_num x) (xs @ [(p, x)]) = Some (p, x)"
    by (induction xs) (auto split: if_splits)
  then show ?thesis using s' lookup_ok [OF s'(2)] by simp
qed

end

interpretation heap_queue: outbound_queue "\<lambda>(h, q) xs. queue_rep h q xs" "\<lambda>(h, q) p. h p = None"
  "\<lambda>(h, q) p x. gossip_envelope_enqueue (heap_envelope h p x) q p"
  "\<lambda>(h, q) p. gossip_envelope_remove h q p"
  "\<lambda>(h, q) n. gossip_envelope_find_by_sequence_num h q n"
  "\<lambda>(h, q). gossip_envelope_clear h q"
proof (unfold_locales, goal_cases)
  case (1 s xs)
  then show ?case by (cases s) (simp add: queue_rep_def)
next
  case (2 s xs p x)
  then show ?case using enqueue_rep [of "fst s" "snd s" xs p x] by (cases s) auto
next
  case (3 s xs p x ys)
  then show ?case using remove_rep [of "fst s" "snd s" xs p x ys] by (cases s) fastforce
next
  case (4 s xs n)
  then show ?case
    using find_from_rep [of "fst s" None "head (snd s)" xs "tail (snd s)" n]
    by (cases s) (auto simp: queue_rep_def gossip_envelope_find_by_sequence_num_def)
next
  case (5 s xs)
  obtain h q where s: "s = (h, q)" by (cases s)
  with 5 have "dseg h None (head q) (map fst xs) (tail q) None" "distinct (map fst xs)"
    by (auto simp: queue_rep_def)
  note cleared = clear_from_rep [OF this]
  have "(h |` (- set (map fst xs))) p = None" if "(p, x) \<in> set xs" for p x
    using that by (force simp: restrict_map_def)
  then show ?case
    using cleared by (auto simp: s gossip_envelope_clear_def queue_rep_def)
qed

section \<open>Properties\<close>

definition ex_envelope :: "u32 \<Rightarrow> envelope" where
  "ex_envelope s = \<lparr>recipient = ex_addr, recipient_len = 16, env_buffer = 512, env_buffer_size = 38, sequence_num = s,
     attempt_ts = 0, attempt_num = 0, max_attempts = 3\<rparr>"

definition ex_heap :: heap where
  "ex_heap = [1 \<mapsto> \<lparr>node_envelope = ex_envelope 7, prev_ptr = None, next_ptr = Some 2\<rparr>,
              2 \<mapsto> \<lparr>node_envelope = ex_envelope 8, prev_ptr = Some 1, next_ptr = None\<rparr>]"

definition ex_queue :: message_queue where
  "ex_queue = \<lparr>head = Some 1, tail = Some 2\<rparr>"

lemma ex_queue_rep: "queue_rep ex_heap ex_queue [(1, ex_envelope 7), (2, ex_envelope 8)]"
  by (simp add: queue_rep_def ex_heap_def ex_queue_def)

text \<open>Enqueueing a freshly allocated envelope appends it: if the heap represents the queue \<open>xs\<close> as
  a well-formed doubly linked list, it represents \<open>xs\<close> followed by the new envelope afterwards, and
  only the new node was added.\<close>

lemma queue_enqueue_appends:
  assumes "queue_rep h q xs" "h p = None"
  shows "\<exists>h' q'. gossip_envelope_enqueue (heap_envelope h p x) q p = Some (h', q')
           \<and> queue_rep h' q' (xs @ [(p, x)]) \<and> dom h' = insert p (dom h)"
  using enqueue_rep [OF assms] .


text \<open>C18. Removing an envelope, wherever it stands in the queue, unlinks exactly its node and frees it:
  the pointers around it are joined, head and tail included, and no other node is freed.\<close>

theorem queue_remove_unlinks:
  assumes "queue_rep h q (xs @ (p, x) # ys)"
  shows "\<exists>h' q'. gossip_envelope_remove h q p = Some (h', q') \<and> queue_rep h' q' (xs @ ys)
           \<and> dom h' = dom h - {p}"
  using remove_rep [OF assms] .

theorem queue_remove_unlinks_witness:
  "\<exists>h' q'. gossip_envelope_remove ex_heap ex_queue 1 = Some (h', q')
     \<and> queue_rep h' q' ([] @ [(2, ex_envelope 8)]) \<and> dom h' = dom ex_heap - {1}"
  by (rule queue_remove_unlinks [where x = "ex_envelope 7"]) (simp only: append_Nil ex_queue_rep)

text \<open>C32. Looking up a sequence number and removing the envelope found, as the handler of
  acknowledgements does, always ends without touching freed memory and removes the first envelope
  with that number from the queue, or nothing if there is none.\<close>

theorem queue_acknowledge_removes:
  assumes "queue_rep h q xs"
  shows "\<exists>h' q'. (do { found \<leftarrow> gossip_envelope_find_by_sequence_num h q n;
             case found of None \<Rightarrow> Some (h, q) | Some p \<Rightarrow> gossip_envelope_remove h q p }) = Some (h', q')
           \<and> queue_rep h' q' (remove_first (\<lambda>(p, x). sequence_num x = n) xs)"
  using heap_queue.acknowledge [of "(h, q)" xs n] assms by simp

theorem queue_acknowledge_removes_witness:
  "\<exists>h' q'. (do { found \<leftarrow> gossip_envelope_find_by_sequence_num ex_heap ex_queue 8;
       case found of None \<Rightarrow> Some (ex_heap, ex_queue) | Some p \<Rightarrow> gossip_envelope_remove ex_heap ex_queue p }) = Some (h', q')
     \<and> queue_rep h' q' (remove_first (\<lambda>(p, x). sequence_num x = 8) [(1, ex_envelope 7), (2, ex_envelope 8)])"
  by (rule queue_acknowledge_removes) (rule ex_queue_rep)

text \<open>Clearing the queue ends, leaves an empty queue, frees every node of the queue exactly once and
  no other.\<close>

lemma queue_clear_frees:
  assumes "queue_rep h q xs"
  shows "\<exists>h' q'. gossip_envelope_clear h q = Some (h', q') \<and> queue_rep h' q' []
           \<and> dom h' = dom h - fst ` set xs \<and> (\<forall>p. p \<notin> fst ` set xs \<longrightarrow> h' p = h p)"
proof -
  let ?h = "h |` (- fst ` set xs)"
  have "clear_from h (head q) = Some ?h"
    using assms clear_from_rep [of h None "head q" "map fst xs" "tail q"] by (simp add: queue_rep_def)
  then have "gossip_envelope_clear h q = Some (?h, q\<lparr>head := None, tail := None\<rparr>)"
    by (simp add: gossip_envelope_clear_def)
  moreover have "queue_rep ?h (q\<lparr>head := None, tail := None\<rparr>) []" by (simp add: queue_rep_def)
  moreover have "dom ?h = dom h - fst ` set xs" by (simp add: Diff_eq)
  ultimately show ?thesis by (auto simp: restrict_map_def)
qed


end
