(* ===== verification/Pt_Data_Log.thy ===== *)
theory Pt_Data_Log
  imports Pt_Queue
begin

text \<open>
  The data log of \<^verbatim>\<open>gossip.c\<close>: the latest payload of each of up to 25 originators, kept to
  answer nodes that are behind.

  Like the vector clock it is a fixed array filled in order and then overwritten in turn. The
  abstraction \<open>log_map\<close> maps an originator to its sequence number and payload; logging a message
  sets the originator's entry, and a full log forgets the record in turn for a new originator.
\<close>

record data_log_record =
  log_version :: vector_record
  log_data_size :: u16
  log_data :: "u8 list"

record data_log =
  messages :: "data_log_record list"
  log_size :: nat
  log_current_idx :: nat

definition gossip_data_log_create_message :: "data_log_record \<Rightarrow> message_data" where
  "gossip_data_log_create_message record =
     \<lparr>data_header = message_header_init MESSAGE_DATA_TYPE 0,
      data_record = vector_clock_record_copy (log_version record) (log_version record),
      data_size = log_data_size record, data = Some (log_data record)\<rparr>"

text \<open>The copy of size and payload at the end; a payload longer than the array overflows it.\<close>

definition log_payload :: "data_log_record \<Rightarrow> message_data \<Rightarrow> data_log_record option" where
  "log_payload record msg = do {
     bs \<leftarrow> memcpy_src (data msg) (unat (data_size msg));
     content \<leftarrow> mem_write (log_data record) 0 bs;
     Some (record\<lparr>log_data_size := data_size msg, log_data := content\<rparr>)
   }"

definition gossip_data_log :: "data_log \<Rightarrow> message_data \<Rightarrow> data_log option" where
  "gossip_data_log log msg = do {
     found \<leftarrow> find_loop 0 (log_size log) (\<lambda>i. do {
         r \<leftarrow> arr_get (messages log) i;
         Some (member_id (log_version r) = member_id (data_record msg))
       });
     case found of
       Some i \<Rightarrow> do {
         r \<leftarrow> arr_get (messages log) i;
         let v = (log_version r)\<lparr>sequence_number := sequence_number (data_record msg)\<rparr>;
         r \<leftarrow> log_payload (r\<lparr>log_version := v\<rparr>) msg;
         recs \<leftarrow> arr_set (messages log) i r;
         Some (log\<lparr>messages := recs\<rparr>)
       }
     | None \<Rightarrow> do {
         let new_idx = log_current_idx log;
         r \<leftarrow> arr_get (messages log) new_idx;
         let v = vector_clock_record_copy (log_version r) (data_record msg);
         r \<leftarrow> log_payload (r\<lparr>log_version := v\<rparr>) msg;
         recs \<leftarrow> arr_set (messages log) new_idx r;
         let n = (if log_size log < DATA_LOG_SIZE then log_size log + 1 else log_size log);
         let next = log_current_idx log + 1;
         Some \<lparr>messages = recs, log_size = n,
               log_current_idx = (if next \<ge> DATA_LOG_SIZE then 0 else next)\<rparr>
       }
   }"

section \<open>Tables with one entry per key\<close>

definition table_map :: "('r \<Rightarrow> 'k) \<Rightarrow> nat \<Rightarrow> 'r list \<Rightarrow> 'k \<rightharpoonup> 'r" where
  "table_map key n xs = map_of (map (\<lambda>x. (key x, x)) (take n xs))"

lemma distinct_keys_iff:
  assumes "n \<le> length xs"
  shows "distinct (map key (take n xs)) \<longleftrightarrow> (\<forall>i < n. \<forall>j < n. key (xs ! i) = key (xs ! j) \<longrightarrow> i = j)"
  using assms by (auto simp: distinct_conv_nth)

lemma table_map_Some_iff:
  assumes "distinct (map key (take n xs))" "n \<le> length xs"
  shows "table_map key n xs k = Some v \<longleftrightarrow> (\<exists>i < n. xs ! i = v \<and> key v = k)"
proof -
  have "distinct (map fst (map (\<lambda>x. (key x, x)) (take n xs)))" using assms(1) by (simp add: comp_def)
  then have "table_map key n xs k = Some v \<longleftrightarrow> v \<in> set (take n xs) \<and> key v = k"
    by (auto simp: table_map_def map_of_eq_Some_iff)
  also have "v \<in> set (take n xs) \<longleftrightarrow> (\<exists>i < n. xs ! i = v)"
    using assms(2) by (auto simp: in_set_conv_nth)
  finally show ?thesis by auto
qed

lemma table_map_None_iff:
  assumes "n \<le> length xs"
  shows "table_map key n xs k = None \<longleftrightarrow> (\<forall>i < n. key (xs ! i) \<noteq> k)"
proof -
  have "table_map key n xs k = None \<longleftrightarrow> k \<notin> key ` set (take n xs)"
    by (simp add: table_map_def map_of_eq_None_iff image_image)
  also have "set (take n xs) = (!) xs ` {0..<n}" using nth_image [OF assms] by simp
  finally show ?thesis by (auto simp: image_iff)
qed

text \<open>
  Overwriting the entry at \<open>i\<close> by one with the same key or a new one; \<open>i\<close> may be the
  first free place.
\<close>

lemma table_store:
  fixes v :: 'r
  assumes d: "distinct (map key (take n xs))" and n: "n \<le> length xs" and i: "i \<le> n" "i < length xs"
    and fresh: "\<forall>j < n. j \<noteq> i \<longrightarrow> key (xs ! j) \<noteq> key v"
  defines "n' \<equiv> max n (Suc i)"
  shows "distinct (map key (take n' (xs[i := v])))"
    and "table_map key n' (xs[i := v]) =
      (if i < n then (table_map key n xs)(key (xs ! i) := None) else table_map key n xs)(key v \<mapsto> v)"
proof -
  have n': "n' \<le> length (xs[i := v])" using n i by (simp add: n'_def)
  have lt: "j < n' \<longleftrightarrow> j = i \<or> j < n" for j using i by (auto simp: n'_def max_def)
  have nth': "xs[i := v] ! j = (if j = i then v else xs ! j)" for j
    using i by (simp add: nth_list_update)
  have inj: "a < n \<Longrightarrow> b < n \<Longrightarrow> key (xs ! a) = key (xs ! b) \<Longrightarrow> a = b" for a b
    using d by (simp add: distinct_keys_iff [OF n])
  show d': "distinct (map key (take n' (xs[i := v])))"
    unfolding distinct_keys_iff [OF n']
  proof (intro allI impI)
    fix a b assume "a < n'" "b < n'" "key (xs[i := v] ! a) = key (xs[i := v] ! b)"
    then show "a = b" using lt fresh inj [of a b] i by (auto simp: nth_list_update split: if_splits)
  qed
  let ?m = "if i < n then (table_map key n xs)(key (xs ! i) := None) else table_map key n xs"
  show "table_map key n' (xs[i := v]) = ?m(key v \<mapsto> v)"
  proof (rule map_ext_Some)
    fix k w
    have "table_map key n' (xs[i := v]) k = Some w \<longleftrightarrow>
        (w = v \<and> k = key v) \<or> (\<exists>j < n. j \<noteq> i \<and> xs ! j = w \<and> key w = k)"
      unfolding table_map_Some_iff [OF d' n'] lt by (metis nth')
    also have "\<dots> \<longleftrightarrow> (?m(key v \<mapsto> v)) k = Some w"
    proof (cases "i < n")
      case True
      then show ?thesis using fresh inj [OF _ True] by (auto simp: table_map_Some_iff [OF d n])
    next
      case False
      then show ?thesis using fresh by (auto simp: table_map_Some_iff [OF d n])
    qed
    finally show "table_map key n' (xs[i := v]) k = Some w \<longleftrightarrow> (?m(key v \<mapsto> v)) k = Some w" .
  qed
qed

section \<open>The log as a map\<close>

definition log_key :: "data_log_record \<Rightarrow> member_id_t" where
  "log_key r = member_id (log_version r)"

definition log_entry :: "data_log_record \<Rightarrow> u32 \<times> u8 list" where
  "log_entry r = (sequence_number (log_version r), take (unat (log_data_size r)) (log_data r))"

definition log_map :: "data_log \<Rightarrow> member_id_t \<rightharpoonup> u32 \<times> u8 list" where
  "log_map l = map_option log_entry \<circ> table_map log_key (log_size l) (messages l)"

definition log_record_ok :: "data_log_record \<Rightarrow> bool" where
  "log_record_ok r \<longleftrightarrow> length (log_data r) = MESSAGE_MAX_SIZE"

definition log_inv :: "data_log \<Rightarrow> bool" where
  "log_inv l \<longleftrightarrow> length (messages l) = DATA_LOG_SIZE \<and> log_size l \<le> DATA_LOG_SIZE
     \<and> log_current_idx l < DATA_LOG_SIZE
     \<and> (log_size l < DATA_LOG_SIZE \<longrightarrow> log_current_idx l = log_size l)
     \<and> distinct (map log_key (take (log_size l) (messages l)))
     \<and> (\<forall>r \<in> set (messages l). log_record_ok r)
     \<and> (\<forall>r \<in> set (take (log_size l) (messages l)). unat (log_data_size r) \<le> MESSAGE_MAX_SIZE)"

text \<open>The originator whose record goes when message \<open>m\<close> is logged.\<close>

definition log_victim :: "data_log \<Rightarrow> member_id_t \<Rightarrow> member_id_t option" where
  "log_victim l m =
     (if m \<in> dom (log_map l) \<or> log_size l < DATA_LOG_SIZE then None
      else Some (log_key (messages l ! log_current_idx l)))"

definition evict :: "'k option \<Rightarrow> ('k \<rightharpoonup> 'v) \<Rightarrow> 'k \<rightharpoonup> 'v" where
  "evict v a = (case v of None \<Rightarrow> a | Some k \<Rightarrow> a(k := None))"

lemma log_map_dom: "dom (log_map l) = dom (table_map log_key (log_size l) (messages l))"
  by (auto simp: log_map_def dom_def)

lemma log_payload_ok:
  assumes "log_record_ok r" "data_valid m" "unat (data_size m) \<le> MESSAGE_MAX_SIZE"
  shows "\<exists>r'. log_payload r m = Some r' \<and> log_version r' = log_version r \<and> log_record_ok r'
           \<and> log_data_size r' = data_size m \<and> log_entry r' = (sequence_number (log_version r), payload m)"
  using assms payload_Some [OF assms(2)]
  by (simp add: log_payload_def mem_write_def log_record_ok_def log_entry_def)

lemma log_inv_update:
  assumes inv: "log_inv l" and i: "i \<le> log_size l" "i < DATA_LOG_SIZE"
    and fresh: "\<forall>j < log_size l. j \<noteq> i \<longrightarrow> log_key (messages l ! j) \<noteq> log_key r"
    and r: "log_record_ok r" "unat (log_data_size r) \<le> MESSAGE_MAX_SIZE"
    and k: "k < DATA_LOG_SIZE" "max (log_size l) (Suc i) < DATA_LOG_SIZE \<longrightarrow> k = max (log_size l) (Suc i)"
  defines "l' \<equiv> \<lparr>messages = (messages l)[i := r], log_size = max (log_size l) (Suc i), log_current_idx = k\<rparr>"
  shows "log_inv l'"
    and "log_map l' = (if i < log_size l then (log_map l)(log_key (messages l ! i) := None) else log_map l)
           (log_key r \<mapsto> log_entry r)"
proof -
  have len: "log_size l \<le> length (messages l)" "i < length (messages l)" "length (messages l) = DATA_LOG_SIZE"
    and d: "distinct (map log_key (take (log_size l) (messages l)))"
    using inv i by (auto simp: log_inv_def)
  note store = table_store [OF d len(1) i(1) len(2) fresh]
  have "\<forall>x \<in> set ((messages l)[i := r]). log_record_ok x"
    using inv r(1) set_update_subset_insert [of "messages l" i r] by (auto simp: log_inv_def)
  moreover have "\<forall>x \<in> set (take (max (log_size l) (Suc i)) ((messages l)[i := r])). unat (log_data_size x) \<le> MESSAGE_MAX_SIZE"
  proof
    fix x assume "x \<in> set (take (max (log_size l) (Suc i)) ((messages l)[i := r]))"
    then obtain j where j: "j < max (log_size l) (Suc i)" "x = (messages l)[i := r] ! j"
      by (auto simp: in_set_conv_nth)
    show "unat (log_data_size x) \<le> MESSAGE_MAX_SIZE"
    proof (cases "j = i")
      case False
      then have "j < log_size l" "x = messages l ! j" using j i by auto
      then have "x \<in> set (take (log_size l) (messages l))" using len by (auto simp: in_set_conv_nth)
      then show ?thesis using inv by (auto simp: log_inv_def)
    qed (use j r len in simp)
  qed
  ultimately show "log_inv l'"
    using store(1) len i k inv by (auto simp: log_inv_def l'_def)
  show "log_map l' = (if i < log_size l then (log_map l)(log_key (messages l ! i) := None) else log_map l)
           (log_key r \<mapsto> log_entry r)"
    unfolding log_map_def l'_def data_log.simps store(2) by (auto simp: fun_eq_iff)
qed

lemma log_invD:
  assumes "log_inv l"
  shows "length (messages l) = DATA_LOG_SIZE" "log_size l \<le> length (messages l)"
    "distinct (map log_key (take (log_size l) (messages l)))"
    "log_current_idx l < DATA_LOG_SIZE" "log_size l < DATA_LOG_SIZE \<longrightarrow> log_current_idx l = log_size l"
    "i < DATA_LOG_SIZE \<Longrightarrow> log_record_ok (messages l ! i)"
  using assms by (auto simp: log_inv_def)

lemma gossip_data_log_find:
  assumes "log_inv l"
  shows "find_loop 0 (log_size l) (\<lambda>i. do { r \<leftarrow> arr_get (messages l) i; Some (member_id (log_version r) = o_id) }) =
      Some (List.find (\<lambda>i. log_key (messages l ! i) = o_id) [0..<log_size l])"
  using log_invD(1,2) [OF assms] by (intro find_loop_eq_find) (simp add: arr_get_in log_key_def)

text \<open>
  Logging a message with a readable payload of at most 512 bytes: the originator's entry becomes
  the message's, another entry goes only when a new originator meets a full log.
\<close>

lemma gossip_data_log_new:
  assumes inv: "log_inv l" and m: "data_valid m" "unat (data_size m) \<le> MESSAGE_MAX_SIZE"
  defines "o_id \<equiv> member_id (data_record m)"
  assumes found: "List.find (\<lambda>i. log_key (messages l ! i) = o_id) [0..<log_size l] = None"
  shows "\<exists>l'. gossip_data_log l m = Some l' \<and> log_inv l'
           \<and> log_map l' = (evict (log_victim l o_id) (log_map l))
                (o_id \<mapsto> (sequence_number (data_record m), payload m))"
proof -
  note len = log_invD(1,2) [OF inv] and idx = log_invD(4,5) [OF inv]
  have new: "\<forall>j < log_size l. log_key (messages l ! j) \<noteq> o_id" using found by (simp add: find_upt_None_iff)
  let ?i = "log_current_idx l"
  let ?r = "(messages l ! ?i)\<lparr>log_version := vector_clock_record_copy (log_version (messages l ! ?i)) (data_record m)\<rparr>"
  have "log_record_ok ?r" using log_invD(6) [OF inv idx(1)] by (simp add: log_record_ok_def)
  then obtain r where r: "log_payload ?r m = Some r" "log_version r = log_version ?r" "log_record_ok r"
    "log_data_size r = data_size m" "log_entry r = (sequence_number (log_version ?r), payload m)"
    using log_payload_ok [OF _ m] by blast
  have key: "log_key r = o_id" "log_entry r = (sequence_number (data_record m), payload m)"
    using r(2,5) by (simp_all add: log_key_def vector_clock_record_copy_def o_id_def)
  let ?k = "if ?i + 1 \<ge> DATA_LOG_SIZE then 0 else ?i + 1"
  let ?n = "if log_size l < DATA_LOG_SIZE then log_size l + 1 else log_size l"
  have n: "?n = max (log_size l) (Suc ?i)" "?i \<le> log_size l"
    "?i < log_size l \<longleftrightarrow> \<not> log_size l < DATA_LOG_SIZE"
    using idx len by auto
  have "?k < DATA_LOG_SIZE" "?n < DATA_LOG_SIZE \<longrightarrow> ?k = ?n" using idx len by auto
  from log_inv_update [OF inv n(2) idx(1) _ r(3) _ this(1)] this(2)
  have upd: "log_inv \<lparr>messages = (messages l)[?i := r], log_size = ?n, log_current_idx = ?k\<rparr>"
    "log_map \<lparr>messages = (messages l)[?i := r], log_size = ?n, log_current_idx = ?k\<rparr> =
      (if ?i < log_size l then (log_map l)(log_key (messages l ! ?i) := None) else log_map l)(log_key r \<mapsto> log_entry r)"
    using new key(1) r(4) m(2) unfolding n(1) by auto
  have "o_id \<notin> dom (log_map l)" using new table_map_None_iff [OF len(2), of log_key o_id] by (auto simp: log_map_dom)
  then have "(if ?i < log_size l then (log_map l)(log_key (messages l ! ?i) := None) else log_map l)
      = evict (log_victim l o_id) (log_map l)"
    using n(3) by (simp add: evict_def log_victim_def)
  moreover have "gossip_data_log l m =
      Some \<lparr>messages = (messages l)[?i := r], log_size = ?n, log_current_idx = ?k\<rparr>"
    using gossip_data_log_find [OF inv] found r(1) idx(1) len(1)
    by (simp add: gossip_data_log_def o_id_def arr_get_in arr_set_in Let_def)
  ultimately show ?thesis using upd key by auto
qed

lemma gossip_data_log_known:
  assumes inv: "log_inv l" and m: "data_valid m" "unat (data_size m) \<le> MESSAGE_MAX_SIZE"
  defines "o_id \<equiv> member_id (data_record m)"
  assumes found: "List.find (\<lambda>i. log_key (messages l ! i) = o_id) [0..<log_size l] = Some i"
  shows "\<exists>l'. gossip_data_log l m = Some l' \<and> log_inv l'
           \<and> log_map l' = (evict (log_victim l o_id) (log_map l))
                (o_id \<mapsto> (sequence_number (data_record m), payload m))"
proof -
  note len = log_invD(1,2) [OF inv] and idx = log_invD(4,5) [OF inv]
  have i: "i < log_size l" "log_key (messages l ! i) = o_id" using found by (auto simp: find_upt_Some_iff)
  then have il: "i < DATA_LOG_SIZE" using len by simp
  let ?r = "(messages l ! i)\<lparr>log_version := (log_version (messages l ! i))
    \<lparr>sequence_number := sequence_number (data_record m)\<rparr>\<rparr>"
  have "log_record_ok ?r" using log_invD(6) [OF inv il] by (simp add: log_record_ok_def)
  then obtain r where r: "log_payload ?r m = Some r" "log_version r = log_version ?r" "log_record_ok r"
    "log_data_size r = data_size m" "log_entry r = (sequence_number (log_version ?r), payload m)"
    using log_payload_ok [OF _ m] by blast
  have key: "log_key r = o_id" "log_entry r = (sequence_number (data_record m), payload m)"
    using r(2,5) i(2) by (simp_all add: log_key_def)
  have fresh: "\<forall>j < log_size l. j \<noteq> i \<longrightarrow> log_key (messages l ! j) \<noteq> log_key r"
    using log_invD(3) [OF inv, unfolded distinct_keys_iff [OF len(2)]] i(1) unfolding key(1) i(2) [symmetric] by fast
  have max: "max (log_size l) (Suc i) = log_size l" using i by simp
  let ?l' = "\<lparr>messages = (messages l)[i := r], log_size = log_size l, log_current_idx = log_current_idx l\<rparr>"
  have small: "unat (log_data_size r) \<le> MESSAGE_MAX_SIZE" "i \<le> log_size l"
    "max (log_size l) (Suc i) < DATA_LOG_SIZE \<longrightarrow> log_current_idx l = max (log_size l) (Suc i)"
    using m(2) r(4) i(1) idx(2) by (simp_all add: max)
  note u = log_inv_update [OF inv small(2) il fresh r(3) small(1) idx(1) small(3), unfolded max]
  have upd: "log_inv ?l'" "log_map ?l' = (log_map l)(o_id \<mapsto> log_entry r)"
    using u i by (simp_all add: key(1))
  have "o_id \<in> dom (log_map l)"
    using i table_map_None_iff [OF len(2), of log_key o_id] by (auto simp: log_map_dom domIff)
  then have "evict (log_victim l o_id) (log_map l) = log_map l" by (simp add: evict_def log_victim_def)
  moreover have "gossip_data_log l m = Some ?l'"
    using gossip_data_log_find [OF inv] found r(1) il len(1)
    by (simp add: gossip_data_log_def o_id_def arr_get_in arr_set_in Let_def)
  ultimately show ?thesis using upd key by auto
qed

lemma gossip_data_log_ok:
  assumes "log_inv l" "data_valid m" "unat (data_size m) \<le> MESSAGE_MAX_SIZE"
  shows "\<exists>l'. gossip_data_log l m = Some l' \<and> log_inv l'
           \<and> log_map l' = (evict (log_victim l (member_id (data_record m))) (log_map l))
                (member_id (data_record m) \<mapsto> (sequence_number (data_record m), payload m))"
  using gossip_data_log_new [OF assms] gossip_data_log_known [OF assms]
  by (cases "List.find (\<lambda>i. log_key (messages l ! i) = member_id (data_record m)) [0..<log_size l]") blast+

text \<open>A longer payload overflows the record; nothing tests for it before the copy.\<close>

lemma gossip_data_log_overflow:
  assumes "log_inv l" "data_valid m" "MESSAGE_MAX_SIZE < unat (data_size m)"
  shows "gossip_data_log l m = None"
proof -
  have "log_payload ((messages l ! i)\<lparr>log_version := v\<rparr>) m = None" if "i < DATA_LOG_SIZE" for i v
  proof -
    have "length (log_data (messages l ! i)) = MESSAGE_MAX_SIZE"
      using assms(1) that by (auto simp: log_inv_def log_record_ok_def)
    then show ?thesis
      using assms(3) payload_Some [OF assms(2)] by (simp add: log_payload_def mem_write_def)
  qed
  then show ?thesis
    using assms(1)
    by (auto simp: gossip_data_log_def log_inv_def Let_def arr_get_def split: Option.bind_splits option.splits)
qed

section \<open>Properties\<close>

definition ex_log :: data_log where
  "ex_log = \<lparr>messages = replicate 25 \<lparr>log_version = \<lparr>sequence_number = 0, member_id = 0\<rparr>, log_data_size = 0,
     log_data = replicate 512 0\<rparr>, log_size = 0, log_current_idx = 0\<rparr>"

lemma ex_log_inv [simp]: "log_inv ex_log"
  by (simp add: log_inv_def ex_log_def log_record_ok_def)

text \<open>C27. Logging a message with a payload of at most 512 bytes keeps the log valid, and the log then
  holds the message's number and payload as the entry of its originator; another originator's entry
  is lost only when the log is full and the originator new.\<close>

theorem data_log_stores_latest:
  assumes "log_inv l" "data_valid m" "unat (data_size m) \<le> MESSAGE_MAX_SIZE"
  shows "\<exists>l'. gossip_data_log l m = Some l' \<and> log_inv l'
           \<and> log_map l' = (evict (log_victim l (member_id (data_record m))) (log_map l))
                (member_id (data_record m) \<mapsto> (sequence_number (data_record m), payload m))"
  using gossip_data_log_ok [OF assms] .

theorem data_log_stores_latest_witness:
  "\<exists>l'. gossip_data_log ex_log ex_data = Some l' \<and> log_inv l'
     \<and> log_map l' = (evict (log_victim ex_log (member_id (data_record ex_data))) (log_map ex_log))
          (member_id (data_record ex_data) \<mapsto> (sequence_number (data_record ex_data), payload ex_data))"
  by (rule data_log_stores_latest) simp_all

text \<open>C39. The log copies the payload before anything has tested its size: a payload of more than 512
  bytes is written past the end of the record.\<close>

theorem data_log_overflows:
  assumes "log_inv l" "data_valid m" "MESSAGE_MAX_SIZE < unat (data_size m)"
  shows "gossip_data_log l m = None"
  using gossip_data_log_overflow [OF assms] .

theorem data_log_overflows_witness:
  "gossip_data_log ex_log \<lparr>data_header = message_header_init MESSAGE_DATA_TYPE 0,
     data_record = \<lparr>sequence_number = 1, member_id = 1\<rparr>, data_size = 600, data = Some (replicate 600 0)\<rparr> = None"
  by (rule data_log_overflows) (simp_all add: data_valid_def memcpy_src_def mem_read_def)

end
