(* ===== verification/Pt_Gossip.thy ===== *)
theory Pt_Gossip
  imports Pt_Data_Log
begin

text \<open>
  The gossip descriptor of \<^verbatim>\<open>gossip.c\<close> and everything that puts messages into its outbound
  queue: the choice of an output buffer, encoding, and spreading to one recipient, to random
  members or to all.

  The queue is the list of its envelopes (theory \<open>Pt_Queue\<close> shows that the linked list
  implements it); a pointer to an envelope is a position in the list. A pointer into the output
  buffer is an offset. The record also carries the environment (\<open>genv\<close>) whose answers the calls
  consume. Results are the C \<^verbatim>\<open>int\<close>s: negative values are error codes.
\<close>

datatype gossip_state =
    STATE_INITIALIZED
  | STATE_JOINING
  | STATE_CONNECTED
  | STATE_LEAVING
  | STATE_DISCONNECTED
  | STATE_DESTROYED

abbreviation (input) INPUT_BUFFER_SIZE :: nat where "INPUT_BUFFER_SIZE \<equiv> MESSAGE_MAX_SIZE"
abbreviation (input) OUTPUT_BUFFER_SIZE :: nat where
  "OUTPUT_BUFFER_SIZE \<equiv> MAX_OUTPUT_MESSAGES * MESSAGE_MAX_SIZE"

record pittacus_gossip =
  socket :: int
  input_buffer :: "u8 list"
  output_buffer :: "u8 list"
  output_buffer_offset :: nat
  outbound_messages :: "envelope list"
  gossip_sequence_num :: u32
  data_counter :: u32
  data_version :: vector_clock
  state :: gossip_state
  self_address :: cluster_member
  members :: cluster_member_set
  gossip_log :: data_log
  last_gossip_ts :: u64
  genv :: env

section \<open>Output buffers\<close>

text \<open>
  The walk over the queue in \<^verbatim>\<open>gossip_find_available_output_buffer\<close>: the oldest envelope (most
  attempts, first of its kind) with its position, and which of the 100 regions are in use.
\<close>

fun scan_outbound ::
  "envelope list \<Rightarrow> nat \<Rightarrow> (nat \<times> envelope) option \<Rightarrow> bool list
     \<Rightarrow> ((nat \<times> envelope) option \<times> bool list) option" where
  "scan_outbound [] i oldest occupied = Some (oldest, occupied)"
| "scan_outbound (x # xs) i oldest occupied = do {
     let oldest = (case oldest of
         None \<Rightarrow> Some (i, x)
       | Some (j, y) \<Rightarrow> if attempt_num x > attempt_num y then Some (i, x) else oldest);
     occupied \<leftarrow> arr_set occupied (env_buffer x div MESSAGE_MAX_SIZE) True;
     scan_outbound xs (Suc i) oldest occupied
   }"

text \<open>
  If no region is free, the oldest envelope and those directly behind it that use the same
  region are removed and the region is taken.
\<close>

definition gossip_find_available_output_buffer :: "pittacus_gossip \<Rightarrow> (nat \<times> pittacus_gossip) option" where
  "gossip_find_available_output_buffer self = do {
     (oldest, occupied) \<leftarrow>
       scan_outbound (outbound_messages self) 0 None (replicate MAX_OUTPUT_MESSAGES False);
     free \<leftarrow> find_loop 0 MAX_OUTPUT_MESSAGES (\<lambda>i. do { b \<leftarrow> arr_get occupied i; Some (\<not> b) });
     case free of
       Some i \<Rightarrow> Some (i * MESSAGE_MAX_SIZE, self)
     | None \<Rightarrow> do {
         (j, y) \<leftarrow> oldest;
         let chosen_buffer = env_buffer y;
         Some (chosen_buffer, self\<lparr>outbound_messages :=
           take j (outbound_messages self)
           @ dropWhile (\<lambda>x. env_buffer x = chosen_buffer) (drop j (outbound_messages self))\<rparr>)
       }
   }"

definition gossip_update_output_buffer_offset :: "pittacus_gossip \<Rightarrow> (nat \<times> pittacus_gossip) option" where
  "gossip_update_output_buffer_offset self = do {
     (offset, self) \<leftarrow>
       (if outbound_messages self \<noteq> [] then gossip_find_available_output_buffer self else Some (0, self));
     Some (offset, self\<lparr>output_buffer_offset := offset\<rparr>)
   }"

section \<open>Putting envelopes into the queue\<close>

definition gossip_enqueue_to_outbound ::
  "pittacus_gossip \<Rightarrow> nat \<Rightarrow> nat \<Rightarrow> u16 \<Rightarrow> u8 list option \<Rightarrow> u32 \<Rightarrow> (int \<times> pittacus_gossip) option" where
  "gossip_enqueue_to_outbound self buffer buffer_size attempts receiver receiver_size = do {
     let seq_num = gossip_sequence_num self + 1;
     let self = self\<lparr>gossip_sequence_num := seq_num\<rparr>;
     (new_envelope, e) \<leftarrow>
       gossip_envelope_create (genv self) seq_num buffer buffer_size attempts receiver receiver_size;
     let self = self\<lparr>genv := e\<rparr>;
     case new_envelope of
       None \<Rightarrow> Some (err_code PITTACUS_ERR_ALLOCATION_FAILED, self)
     | Some x \<Rightarrow> Some (err_code PITTACUS_ERR_NONE,
         self\<lparr>outbound_messages := outbound_messages self @ [x]\<rparr>)
   }"

datatype spreading_type = GOSSIP_DIRECT | GOSSIP_RANDOM | GOSSIP_BROADCAST

text \<open>A message behind a \<^verbatim>\<open>const void *\<close>. Reading it as a message of another type is undefined.\<close>

datatype message =
    Hello message_hello
  | Welcome message_welcome
  | Member_List message_member_list
  | Ack message_ack
  | Data message_data
  | Status message_status

text \<open>The result of the encoder, the number of attempts, and the buffer.\<close>

definition gossip_encode_message ::
  "u8 \<Rightarrow> message \<Rightarrow> u8 list \<Rightarrow> nat \<Rightarrow> (int \<times> u16 \<times> u8 list) option" where
  "gossip_encode_message msg_type msg buffer cur =
     (if msg_type = MESSAGE_HELLO_TYPE then (case msg of
          Hello m \<Rightarrow> do {
            (r, b) \<leftarrow> message_hello_encode m buffer cur MESSAGE_MAX_SIZE;
            Some (r, MESSAGE_RETRY_ATTEMPTS, b) }
        | _ \<Rightarrow> None)
      else if msg_type = MESSAGE_WELCOME_TYPE then (case msg of
          Welcome m \<Rightarrow> do {
            (r, b) \<leftarrow> message_welcome_encode m buffer cur MESSAGE_MAX_SIZE;
            Some (r, 1, b) }
        | _ \<Rightarrow> None)
      else if msg_type = MESSAGE_MEMBER_LIST_TYPE then (case msg of
          Member_List m \<Rightarrow> do {
            (r, b) \<leftarrow> message_member_list_encode m buffer cur MESSAGE_MAX_SIZE;
            Some (r, MESSAGE_RETRY_ATTEMPTS, b) }
        | _ \<Rightarrow> None)
      else if msg_type = MESSAGE_DATA_TYPE then (case msg of
          Data m \<Rightarrow> do {
            (r, b) \<leftarrow> as_int (message_data_encode m buffer cur MESSAGE_MAX_SIZE);
            Some (r, MESSAGE_RETRY_ATTEMPTS, b) }
        | _ \<Rightarrow> None)
      else if msg_type = MESSAGE_ACK_TYPE then (case msg of
          Ack m \<Rightarrow> do {
            (r, b) \<leftarrow> as_int (message_ack_encode m buffer cur MESSAGE_MAX_SIZE);
            Some (r, 1, b) }
        | _ \<Rightarrow> None)
      else if msg_type = MESSAGE_STATUS_TYPE then (case msg of
          Status m \<Rightarrow> do {
            (r, b) \<leftarrow> as_int (message_status_encode m buffer cur MESSAGE_MAX_SIZE);
            Some (r, MESSAGE_RETRY_ATTEMPTS, b) }
        | _ \<Rightarrow> None)
      else Some (err_code PITTACUS_ERR_INVALID_MESSAGE, MESSAGE_RETRY_ATTEMPTS, buffer))"

text \<open>
  One envelope per member, all with the same buffer; the first error ends it. \<open>result\<close> is the
  last result.
\<close>

fun enqueue_to_members ::
  "pittacus_gossip \<Rightarrow> nat \<Rightarrow> nat \<Rightarrow> u16 \<Rightarrow> cluster_member option list \<Rightarrow> int \<Rightarrow> (int \<times> pittacus_gossip) option" where
  "enqueue_to_members self buffer n attempts [] result = Some (result, self)"
| "enqueue_to_members self buffer n attempts (p # ps) result = do {
     m \<leftarrow> p;
     (result, self) \<leftarrow> gossip_enqueue_to_outbound self buffer n attempts (address m) (address_len m);
     if result < 0 then Some (result, self)
     else enqueue_to_members self buffer n attempts ps result
   }"

text \<open>The second half of \<^verbatim>\<open>gossip_enqueue_message\<close>: distributing the encoded message.\<close>

definition distribute_message ::
  "pittacus_gossip \<Rightarrow> nat \<Rightarrow> nat \<Rightarrow> u16 \<Rightarrow> u8 list option \<Rightarrow> u32 \<Rightarrow> spreading_type
     \<Rightarrow> (int \<times> pittacus_gossip) option" where
  "distribute_message self buffer n attempts to to_len spreading_type = (case spreading_type of
       GOSSIP_DIRECT \<Rightarrow> gossip_enqueue_to_outbound self buffer n attempts to to_len
     | GOSSIP_RANDOM \<Rightarrow> do {
         (reservoir, e) \<leftarrow> cluster_member_set_random_members (genv self) (members self) MESSAGE_RUMOR_FACTOR;
         enqueue_to_members (self\<lparr>genv := e\<rparr>) buffer n attempts reservoir (err_code PITTACUS_ERR_NONE)
       }
     | GOSSIP_BROADCAST \<Rightarrow> do {
         slots \<leftarrow> (if ms_size (members self) \<le> length (ms_set (members self))
                  then Some (take (ms_size (members self)) (ms_set (members self))) else None);
         enqueue_to_members self buffer n attempts slots (err_code PITTACUS_ERR_NONE)
       })"

definition gossip_enqueue_message ::
  "pittacus_gossip \<Rightarrow> u8 \<Rightarrow> message \<Rightarrow> u8 list option \<Rightarrow> u32 \<Rightarrow> spreading_type
     \<Rightarrow> (int \<times> pittacus_gossip) option" where
  "gossip_enqueue_message self msg_type msg to to_len spreading_type = do {
     (offset, self) \<leftarrow> gossip_update_output_buffer_offset self;
     (encode_result, attempts, out) \<leftarrow> gossip_encode_message msg_type msg (output_buffer self) offset;
     let self = self\<lparr>output_buffer := out\<rparr>;
     if encode_result < 0 then Some (encode_result, self)
     else distribute_message self offset (nat encode_result) attempts to to_len spreading_type
   }"

section \<open>The messages a node sends\<close>

definition gossip_enqueue_ack ::
  "pittacus_gossip \<Rightarrow> u32 \<Rightarrow> u8 list option \<Rightarrow> u32 \<Rightarrow> (int \<times> pittacus_gossip) option" where
  "gossip_enqueue_ack self seq_num to to_len =
     gossip_enqueue_message self MESSAGE_ACK_TYPE
       (Ack \<lparr>ack_header = message_header_init MESSAGE_ACK_TYPE 0, ack_sequence_num = seq_num\<rparr>)
       to to_len GOSSIP_DIRECT"

definition gossip_enqueue_welcome ::
  "pittacus_gossip \<Rightarrow> u32 \<Rightarrow> u8 list option \<Rightarrow> u32 \<Rightarrow> (int \<times> pittacus_gossip) option" where
  "gossip_enqueue_welcome self hello_seq_num to to_len =
     gossip_enqueue_message self MESSAGE_WELCOME_TYPE
       (Welcome \<lparr>welcome_header = message_header_init MESSAGE_WELCOME_TYPE 0,
                 hello_sequence_num = hello_seq_num, welcome_this_member = self_address self\<rparr>)
       to to_len GOSSIP_DIRECT"

definition gossip_enqueue_hello ::
  "pittacus_gossip \<Rightarrow> u8 list option \<Rightarrow> u32 \<Rightarrow> (int \<times> pittacus_gossip) option" where
  "gossip_enqueue_hello self to to_len =
     gossip_enqueue_message self MESSAGE_HELLO_TYPE
       (Hello \<lparr>hello_header = message_header_init MESSAGE_HELLO_TYPE 0,
               hello_this_member = self_address self\<rparr>)
       to to_len GOSSIP_DIRECT"

definition gossip_enqueue_data ::
  "pittacus_gossip \<Rightarrow> u8 list option \<Rightarrow> u16 \<Rightarrow> (int \<times> pittacus_gossip) option" where
  "gossip_enqueue_data self bytes n = do {
     let clock_counter = data_counter self + 1;
     let self = self\<lparr>data_counter := clock_counter\<rparr>;
     (i, clock) \<leftarrow> vector_clock_set (data_version self) (self_address self) clock_counter;
     let self = self\<lparr>data_version := clock\<rparr>;
     record \<leftarrow> arr_get (records clock) i;
     let msg = \<lparr>data_header = message_header_init MESSAGE_DATA_TYPE 0,
                data_record = vector_clock_record_copy record record, data_size = n, data = bytes\<rparr>;
     log \<leftarrow> gossip_data_log (gossip_log self) msg;
     gossip_enqueue_message (self\<lparr>gossip_log := log\<rparr>) MESSAGE_DATA_TYPE (Data msg) None 0 GOSSIP_RANDOM
   }"

text \<open>The clock of the message is a copy on the stack of the caller.\<close>

definition gossip_enqueue_status ::
  "pittacus_gossip \<Rightarrow> u8 list option \<Rightarrow> u32 \<Rightarrow> (int \<times> pittacus_gossip) option" where
  "gossip_enqueue_status self to to_len = do {
     clock \<leftarrow> vector_clock_copy vector_clock_zero (data_version self);
     gossip_enqueue_message self MESSAGE_STATUS_TYPE
       (Status \<lparr>status_header = message_header_init MESSAGE_STATUS_TYPE 0, status_version = clock\<rparr>)
       to to_len (if to = None then GOSSIP_RANDOM else GOSSIP_DIRECT)
   }"

abbreviation (input) MEMBER_LIST_SYNC_SIZE :: nat where
  "MEMBER_LIST_SYNC_SIZE \<equiv> MESSAGE_MAX_SIZE div CLUSTER_MEMBER_SIZE"

text \<open>
  The loop of \<^verbatim>\<open>gossip_enqueue_member_list\<close>: the slots not yet sent, at most \<open>n\<close> of them in one
  message.
\<close>

function send_member_lists ::
  "pittacus_gossip \<Rightarrow> nat \<Rightarrow> cluster_member option list \<Rightarrow> u8 list option \<Rightarrow> u32 \<Rightarrow> int
     \<Rightarrow> (int \<times> pittacus_gossip) option" where
  "send_member_lists self n slots to to_len result =
     (if slots = [] \<or> n = 0 then Some (result, self)
      else do {
        to_send \<leftarrow> those (take n slots);
        (result, self) \<leftarrow> gossip_enqueue_message self MESSAGE_MEMBER_LIST_TYPE
          (Member_List \<lparr>member_list_header = message_header_init MESSAGE_MEMBER_LIST_TYPE 0,
                        members_n = of_nat (length to_send), list_members = to_send\<rparr>)
          to to_len GOSSIP_DIRECT;
        if result < 0 then Some (result, self)
        else send_member_lists self n (drop n slots) to to_len result
      })"
  by pat_completeness auto
termination
  by (relation "measure (\<lambda>(self, n, slots, _). length slots)") auto

declare send_member_lists.simps [simp del]

definition gossip_enqueue_member_list ::
  "pittacus_gossip \<Rightarrow> u8 list option \<Rightarrow> u32 \<Rightarrow> (int \<times> pittacus_gossip) option" where
  "gossip_enqueue_member_list self to to_len = do {
     let n = ms_size (members self);
     let members_num = (if n > MEMBER_LIST_SYNC_SIZE then MEMBER_LIST_SYNC_SIZE else n);
     if members_num = 0 then Some (err_code PITTACUS_ERR_NONE, self)
     else do {
       let (ok, e) = malloc (genv self);
       let self = self\<lparr>genv := e\<rparr>;
       if \<not> ok then Some (err_code PITTACUS_ERR_ALLOCATION_FAILED, self)
       else if length (ms_set (members self)) < n then None
       else send_member_lists self members_num (take n (ms_set (members self))) to to_len
              (err_code PITTACUS_ERR_NONE)
     }
   }"

text \<open>The loop of \<^verbatim>\<open>gossip_enqueue_data_log\<close> over the positions of the log.\<close>

fun send_data_log ::
  "pittacus_gossip \<Rightarrow> vector_clock \<Rightarrow> u8 list option \<Rightarrow> u32 \<Rightarrow> nat list \<Rightarrow> int
     \<Rightarrow> (int \<times> pittacus_gossip) option" where
  "send_data_log self recipient_version to to_len [] result = Some (result, self)"
| "send_data_log self recipient_version to to_len (i # is) result = do {
     record \<leftarrow> arr_get (messages (gossip_log self)) i;
     (res, _) \<leftarrow> vector_clock_compare_with_record recipient_version (log_version record) False;
     if res = VC_BEFORE then do {
       (result, self) \<leftarrow> gossip_enqueue_message self MESSAGE_DATA_TYPE
         (Data (gossip_data_log_create_message record)) to to_len GOSSIP_DIRECT;
       if result < 0 then Some (result, self)
       else send_data_log self recipient_version to to_len is result
     }
     else send_data_log self recipient_version to to_len is result
   }"

definition gossip_enqueue_data_log ::
  "pittacus_gossip \<Rightarrow> vector_clock \<Rightarrow> u8 list option \<Rightarrow> u32 \<Rightarrow> (int \<times> pittacus_gossip) option" where
  "gossip_enqueue_data_log self recipient_version to to_len =
     send_data_log self recipient_version to to_len [0..<log_size (gossip_log self)]
       (err_code PITTACUS_ERR_NONE)"

section \<open>The invariant of the descriptor\<close>

text \<open>
  A cluster has addresses of one family: all are \<open>L\<close> bytes long (16 for IPv4, 28 for IPv6).
\<close>

definition member_fam :: "nat \<Rightarrow> cluster_member \<Rightarrow> bool" where
  "member_fam L m \<longleftrightarrow> member_ok m \<and> unat (address_len m) = L"

text \<open>A queued envelope lies in one region of the output buffer and has attempts left or used up.\<close>

definition region_ok :: "nat \<Rightarrow> bool" where
  "region_ok off \<longleftrightarrow> off mod MESSAGE_MAX_SIZE = 0 \<and> off < OUTPUT_BUFFER_SIZE"

definition envelope_ok :: "nat \<Rightarrow> envelope \<Rightarrow> bool" where
  "envelope_ok L x \<longleftrightarrow> length (recipient x) = L \<and> unat (recipient_len x) = L
     \<and> region_ok (env_buffer x) \<and> 12 \<le> env_buffer_size x \<and> env_buffer_size x \<le> MESSAGE_MAX_SIZE
     \<and> attempt_num x \<le> max_attempts x \<and> (max_attempts x = 1 \<or> max_attempts x = MESSAGE_RETRY_ATTEMPTS)"

definition gossip_inv :: "nat \<Rightarrow> pittacus_gossip \<Rightarrow> bool" where
  "gossip_inv L g \<longleftrightarrow> 12 \<le> L \<and> L \<le> sizeof_sockaddr_storage
     \<and> length (input_buffer g) = INPUT_BUFFER_SIZE \<and> length (output_buffer g) = OUTPUT_BUFFER_SIZE
     \<and> (\<forall>x \<in> set (outbound_messages g). envelope_ok L x)
     \<and> vc_inv (data_version g) \<and> log_inv (gossip_log g)
     \<and> members_inv (members g) \<and> (\<forall>m \<in> set (ms_list (members g)). member_fam L m)
     \<and> member_fam L (self_address g) \<and> allocs_ok (genv g)"

text \<open>What queueing leaves alone.\<close>

definition same_node :: "pittacus_gossip \<Rightarrow> pittacus_gossip \<Rightarrow> bool" where
  "same_node g g' \<longleftrightarrow> socket g' = socket g \<and> input_buffer g' = input_buffer g
     \<and> data_counter g' = data_counter g \<and> data_version g' = data_version g \<and> state g' = state g
     \<and> self_address g' = self_address g \<and> members g' = members g \<and> gossip_log g' = gossip_log g
     \<and> last_gossip_ts g' = last_gossip_ts g
     \<and> env_wire (genv g') = env_wire (genv g) \<and> env_app (genv g') = env_app (genv g)"

lemma same_node_refl [simp]: "same_node g g"
  by (simp add: same_node_def)

lemma same_node_trans: "same_node g h \<Longrightarrow> same_node h k \<Longrightarrow> same_node g k"
  by (simp add: same_node_def)

section \<open>Choosing an output buffer\<close>

definition oldest_ok :: "envelope list \<Rightarrow> (nat \<times> envelope) option \<Rightarrow> bool" where
  "oldest_ok xs oldest \<longleftrightarrow> (case oldest of None \<Rightarrow> xs = []
     | Some (j, y) \<Rightarrow> j < length xs \<and> y = xs ! j
         \<and> (\<forall>k < j. attempt_num (xs ! k) < attempt_num y)
         \<and> (\<forall>k < length xs. attempt_num (xs ! k) \<le> attempt_num y))"

lemma oldest_ok_snoc:
  assumes "oldest_ok xs oldest"
  shows "oldest_ok (xs @ [x]) (case oldest of None \<Rightarrow> Some (length xs, x)
     | Some (j, y) \<Rightarrow> if attempt_num x > attempt_num y then Some (length xs, x) else oldest)"
proof (cases oldest)
  case None
  then show ?thesis using assms by (simp add: oldest_ok_def)
next
  case (Some jy)
  obtain j y where jy: "jy = (j, y)" by (cases jy)
  then have o: "j < length xs" "y = xs ! j" "\<forall>k < j. attempt_num (xs ! k) < attempt_num y"
    "\<forall>k < length xs. attempt_num (xs ! k) \<le> attempt_num y"
    using assms Some by (auto simp: oldest_ok_def)
  show ?thesis
    using o Some jy by (auto simp: oldest_ok_def nth_append less_Suc_eq intro: order.strict_trans1)
qed

lemma oldest_ok_unique:
  assumes "oldest_ok (xs @ y # zs) oldest" "\<forall>x \<in> set xs. attempt_num x < attempt_num y"
    "\<forall>z \<in> set zs. attempt_num z \<le> attempt_num y"
  shows "oldest = Some (length xs, y)"
proof -
  let ?q = "xs @ y # zs"
  obtain j where j: "oldest = Some (j, ?q ! j)" "j < length ?q"
    "\<forall>k < j. attempt_num (?q ! k) < attempt_num (?q ! j)" "\<forall>k < length ?q. attempt_num (?q ! k) \<le> attempt_num (?q ! j)"
    using assms(1) by (auto simp: oldest_ok_def split: option.splits)
  have "\<not> j < length xs"
  proof
    assume "j < length xs"
    then have "attempt_num (?q ! j) < attempt_num y" using assms(2) by (simp add: nth_append)
    with j(4) [rule_format, of "length xs"] show False by simp
  qed
  moreover have "\<not> length xs < j"
  proof
    assume "length xs < j"
    then have "?q ! j \<in> set zs" using j(2) by (auto simp: nth_append nth_Cons')
    then have "attempt_num (?q ! j) \<le> attempt_num y" using assms(3) by blast
    with j(3) [rule_format, of "length xs"] \<open>length xs < j\<close> show False by (simp add: nth_append)
  qed
  ultimately show ?thesis using j(1) by (simp add: nth_append le_antisym)
qed

lemma scan_outbound_ok:
  assumes "oldest_ok pre oldest" "\<forall>x \<in> set xs. env_buffer x div MESSAGE_MAX_SIZE < length occ"
  shows "\<exists>oldest' occ'. scan_outbound xs (length pre) oldest occ = Some (oldest', occ')
           \<and> oldest_ok (pre @ xs) oldest' \<and> length occ' = length occ
           \<and> (\<forall>k < length occ. occ' ! k \<longleftrightarrow> occ ! k \<or> (\<exists>x \<in> set xs. env_buffer x div MESSAGE_MAX_SIZE = k))"
  using assms
proof (induction xs arbitrary: pre oldest occ)
  case Nil
  then show ?case by simp
next
  case (Cons x xs)
  let ?o = "case oldest of None \<Rightarrow> Some (length pre, x)
     | Some (j, y) \<Rightarrow> if attempt_num x > attempt_num y then Some (length pre, x) else oldest"
  let ?i = "env_buffer x div MESSAGE_MAX_SIZE"
  have i: "?i < length occ" using Cons.prems by simp
  have "oldest_ok (pre @ [x]) ?o" using oldest_ok_snoc [OF Cons.prems(1)] .
  then obtain o' occ' where step: "scan_outbound xs (length (pre @ [x])) ?o (occ[?i := True]) = Some (o', occ')"
    "oldest_ok ((pre @ [x]) @ xs) o'" "length occ' = length occ"
    "\<forall>k < length occ. occ' ! k \<longleftrightarrow> occ[?i := True] ! k \<or> (\<exists>x \<in> set xs. env_buffer x div MESSAGE_MAX_SIZE = k)"
    using Cons.IH [of "pre @ [x]" ?o "occ[?i := True]"] Cons.prems(2) by auto
  have "scan_outbound (x # xs) (length pre) oldest occ = Some (o', occ')"
    using step(1) i by (simp add: arr_set_in Let_def)
  moreover have "\<forall>k < length occ. occ' ! k \<longleftrightarrow> occ ! k \<or> (\<exists>y \<in> set (x # xs). env_buffer y div MESSAGE_MAX_SIZE = k)"
    using step(4) i by (auto simp: nth_list_update)
  ultimately show ?case using step(2,3) by simp
qed

text \<open>
  Envelopes of one message are next to each other, and none of them has been tried less often
  than a later one.
\<close>

definition regions_ordered :: "envelope list \<Rightarrow> bool" where
  "regions_ordered q \<longleftrightarrow> (\<forall>i j k. i < j \<and> j < length q \<and> env_buffer (q ! i) = env_buffer (q ! j) \<longrightarrow>
     attempt_num (q ! j) \<le> attempt_num (q ! i)
     \<and> (i < k \<and> k < j \<longrightarrow> env_buffer (q ! k) = env_buffer (q ! i)))"

lemma region_div: "region_ok off \<Longrightarrow> off div MESSAGE_MAX_SIZE < MAX_OUTPUT_MESSAGES \<and> off div MESSAGE_MAX_SIZE * MESSAGE_MAX_SIZE = off"
  by (auto simp: region_ok_def)

lemma region_mult: "i < MAX_OUTPUT_MESSAGES \<Longrightarrow> region_ok (i * MESSAGE_MAX_SIZE)"
  by (simp add: region_ok_def)

lemma dropWhile_run:
  assumes "\<forall>i j k. i < k \<and> k < j \<and> j < length xs \<and> P (xs ! i) \<and> P (xs ! j) \<longrightarrow> P (xs ! k)" "xs \<noteq> [] \<longrightarrow> P (hd xs)"
  shows "\<forall>x \<in> set (dropWhile P xs). \<not> P x"
proof
  fix x assume "x \<in> set (dropWhile P xs)"
  then obtain m where m: "m < length (dropWhile P xs)" "x = dropWhile P xs ! m" by (auto simp: in_set_conv_nth)
  let ?d = "length (takeWhile P xs)"
  have split: "xs = takeWhile P xs @ dropWhile P xs" by simp
  have at: "xs ! (?d + m) = x" using m split by (metis nth_append_length_plus)
  have len: "?d + m < length xs" using m split by (metis length_append nat_add_left_cancel_less)
  have first: "\<not> P (xs ! ?d)" using len nth_length_takeWhile [of P xs] by simp
  show "\<not> P x"
  proof
    assume "P x"
    have ne: "xs \<noteq> []" using len by auto
    then have "P (xs ! 0)" using assms(2) by (simp add: hd_conv_nth)
    moreover have "?d \<noteq> 0" "m \<noteq> 0" using first at \<open>P x\<close> \<open>P (xs ! 0)\<close> by (metis, metis add.right_neutral)
    ultimately have "P (xs ! ?d)"
      using assms(1) [rule_format, of 0 ?d "?d + m"] len at \<open>P x\<close> by simp
    with first show False ..
  qed
qed

lemma all_regions_used:
  assumes "\<forall>k < MAX_OUTPUT_MESSAGES. \<exists>x \<in> set q. env_buffer x div MESSAGE_MAX_SIZE = k"
  shows "MAX_OUTPUT_MESSAGES \<le> length q"
proof -
  have "{..<MAX_OUTPUT_MESSAGES} \<subseteq> (\<lambda>x. env_buffer x div MESSAGE_MAX_SIZE) ` set q" using assms by force
  then have "MAX_OUTPUT_MESSAGES \<le> card ((\<lambda>x. env_buffer x div MESSAGE_MAX_SIZE) ` set q)"
    using card_mono [of "(\<lambda>x. env_buffer x div MESSAGE_MAX_SIZE) ` set q" "{..<MAX_OUTPUT_MESSAGES}"] by simp
  also have "\<dots> \<le> length q" using card_image_le [of "set q"] card_length [of q] le_trans by blast
  finally show ?thesis .
qed

text \<open>In a queue with ordered regions, what eviction leaves does not use the region it takes.\<close>

lemma evicted_region_unused:
  assumes ord: "regions_ordered q" and j: "j < length q" "\<forall>k < j. attempt_num (q ! k) < attempt_num (q ! j)"
  defines "off \<equiv> env_buffer (q ! j)"
  shows "\<forall>x \<in> set (take j q @ dropWhile (\<lambda>x. env_buffer x = off) (drop j q)). env_buffer x \<noteq> off"
proof -
  have "\<forall>x \<in> set (take j q). env_buffer x \<noteq> off"
  proof
    fix x assume "x \<in> set (take j q)"
    then obtain i where i: "i < j" "x = q ! i" using j(1) by (auto simp: in_set_conv_nth)
    then show "env_buffer x \<noteq> off"
      using ord [unfolded regions_ordered_def, rule_format, of i j i] j(1) j(2) [rule_format, of i] by (auto simp: off_def)
  qed
  moreover have "\<forall>x \<in> set (dropWhile (\<lambda>x. env_buffer x = off) (drop j q)). \<not> env_buffer x = off"
  proof (rule dropWhile_run)
    show "drop j q \<noteq> [] \<longrightarrow> env_buffer (hd (drop j q)) = off" using j(1) by (simp add: hd_drop_conv_nth off_def)
    show "\<forall>i n k. i < k \<and> k < n \<and> n < length (drop j q) \<and> env_buffer (drop j q ! i) = off
        \<and> env_buffer (drop j q ! n) = off \<longrightarrow> env_buffer (drop j q ! k) = off"
    proof (intro allI impI)
      fix i n k assume "i < k \<and> k < n \<and> n < length (drop j q) \<and> env_buffer (drop j q ! i) = off
        \<and> env_buffer (drop j q ! n) = off"
      then show "env_buffer (drop j q ! k) = off"
        using ord [unfolded regions_ordered_def, rule_format, of "j + i" "j + n" "j + k"] j(1) by auto
    qed
  qed
  ultimately show ?thesis unfolding set_append ball_Un by (intro conjI)
qed

lemma gossip_find_available_output_buffer_ok:
  assumes "\<forall>x \<in> set (outbound_messages g). region_ok (env_buffer x)"
  shows "\<exists>off q. gossip_find_available_output_buffer g = Some (off, g\<lparr>outbound_messages := q\<rparr>)
           \<and> region_ok off \<and> set q \<subseteq> set (outbound_messages g)
           \<and> (regions_ordered (outbound_messages g) \<longrightarrow> (\<forall>x \<in> set q. env_buffer x \<noteq> off))
           \<and> (length (outbound_messages g) < MAX_OUTPUT_MESSAGES \<longrightarrow>
                q = outbound_messages g \<and> (\<forall>x \<in> set q. env_buffer x \<noteq> off))"
proof -
  let ?q = "outbound_messages g"
  let ?occ0 = "replicate MAX_OUTPUT_MESSAGES False"
  have "\<forall>x \<in> set ?q. env_buffer x div MESSAGE_MAX_SIZE < length ?occ0"
    using assms region_div by auto
  then obtain oldest occ where scan: "scan_outbound ?q 0 None ?occ0 = Some (oldest, occ)"
    "oldest_ok ?q oldest" "length occ = MAX_OUTPUT_MESSAGES"
    and occ: "\<forall>k < MAX_OUTPUT_MESSAGES. occ ! k \<longleftrightarrow> (\<exists>x \<in> set ?q. env_buffer x div MESSAGE_MAX_SIZE = k)"
    using scan_outbound_ok [of "[]" None ?q ?occ0] by (auto simp: oldest_ok_def)
  let ?free = "List.find (\<lambda>i. \<not> occ ! i) [0..<MAX_OUTPUT_MESSAGES]"
  have find: "find_loop 0 MAX_OUTPUT_MESSAGES (\<lambda>i. do { b \<leftarrow> arr_get occ i; Some (\<not> b) }) = Some ?free"
    using scan(3) by (intro find_loop_eq_find) (simp add: arr_get_in)
  show ?thesis
  proof (cases ?free)
    case (Some i)
    then have i: "i < MAX_OUTPUT_MESSAGES" "\<not> occ ! i" by (auto simp: find_upt_Some_iff)
    have "gossip_find_available_output_buffer g = Some (i * MESSAGE_MAX_SIZE, g\<lparr>outbound_messages := ?q\<rparr>)"
      using scan(1) find Some by (simp add: gossip_find_available_output_buffer_def)
    moreover have "\<forall>x \<in> set ?q. env_buffer x \<noteq> i * MESSAGE_MAX_SIZE" using i occ by auto
    ultimately show ?thesis using region_mult [OF i(1)] by blast
  next
    case None
    then have all: "\<forall>k < MAX_OUTPUT_MESSAGES. \<exists>x \<in> set ?q. env_buffer x div MESSAGE_MAX_SIZE = k"
      using occ by (auto simp: find_upt_None_iff)
    then have full: "MAX_OUTPUT_MESSAGES \<le> length ?q" by (rule all_regions_used)
    then obtain j where o: "oldest = Some (j, ?q ! j)" "j < length ?q"
      "\<forall>k < j. attempt_num (?q ! k) < attempt_num (?q ! j)"
      using scan(2) by (auto simp: oldest_ok_def split: option.splits)
    let ?off = "env_buffer (?q ! j)"
    let ?q' = "take j ?q @ dropWhile (\<lambda>x. env_buffer x = ?off) (drop j ?q)"
    have "gossip_find_available_output_buffer g = Some (?off, g\<lparr>outbound_messages := ?q'\<rparr>)"
      using scan(1) find None o(1) by (simp add: gossip_find_available_output_buffer_def Let_def)
    moreover have "set ?q' \<subseteq> set ?q"
      by (auto dest: in_set_takeD in_set_dropD set_dropWhileD)
    moreover have "region_ok ?off" using assms o(2) by simp
    moreover have "\<forall>x \<in> set ?q'. env_buffer x \<noteq> ?off" if "regions_ordered ?q"
      using evicted_region_unused [OF that o(2,3)] .
    moreover have "\<not> length ?q < MAX_OUTPUT_MESSAGES" using full by simp
    ultimately show ?thesis by blast
  qed
qed

lemma gossip_update_output_buffer_offset_ok:
  assumes "\<forall>x \<in> set (outbound_messages g). region_ok (env_buffer x)"
  shows "\<exists>off q. gossip_update_output_buffer_offset g =
             Some (off, g\<lparr>outbound_messages := q, output_buffer_offset := off\<rparr>)
           \<and> region_ok off \<and> set q \<subseteq> set (outbound_messages g)
           \<and> (regions_ordered (outbound_messages g) \<longrightarrow> (\<forall>x \<in> set q. env_buffer x \<noteq> off))
           \<and> (length (outbound_messages g) < MAX_OUTPUT_MESSAGES \<longrightarrow>
                q = outbound_messages g \<and> (\<forall>x \<in> set q. env_buffer x \<noteq> off))"
proof (cases "outbound_messages g = []")
  case True
  then show ?thesis
    by (auto simp: gossip_update_output_buffer_offset_def region_ok_def intro!: exI [of _ "[]"])
next
  case False
  obtain off q where "gossip_find_available_output_buffer g = Some (off, g\<lparr>outbound_messages := q\<rparr>)"
    "region_ok off" "set q \<subseteq> set (outbound_messages g)"
    "regions_ordered (outbound_messages g) \<longrightarrow> (\<forall>x \<in> set q. env_buffer x \<noteq> off)"
    "length (outbound_messages g) < MAX_OUTPUT_MESSAGES \<longrightarrow>
       q = outbound_messages g \<and> (\<forall>x \<in> set q. env_buffer x \<noteq> off)"
    using gossip_find_available_output_buffer_ok [OF assms] by blast
  then show ?thesis
    using False by (intro exI [of _ off] exI [of _ q]) (simp add: gossip_update_output_buffer_offset_def)
qed

section \<open>Encoding\<close>

text \<open>The messages a node hands to \<^verbatim>\<open>gossip_enqueue_message\<close>, with their bytes and attempts.\<close>

fun message_ok :: "nat \<Rightarrow> u8 \<Rightarrow> message \<Rightarrow> bool" where
  "message_ok L t (Hello m) \<longleftrightarrow> t = MESSAGE_HELLO_TYPE \<and> hello_valid m
     \<and> unat (address_len (hello_this_member m)) = L"
| "message_ok L t (Welcome m) \<longleftrightarrow> t = MESSAGE_WELCOME_TYPE \<and> welcome_valid m
     \<and> unat (address_len (welcome_this_member m)) = L"
| "message_ok L t (Member_List m) \<longleftrightarrow> t = MESSAGE_MEMBER_LIST_TYPE \<and> list_valid m
     \<and> length (list_members m) \<le> MEMBER_LIST_SYNC_SIZE \<and> (\<forall>x \<in> set (list_members m). unat (address_len x) = L)"
| "message_ok L t (Ack m) \<longleftrightarrow> t = MESSAGE_ACK_TYPE \<and> ack_valid m"
| "message_ok L t (Data m) \<longleftrightarrow> t = MESSAGE_DATA_TYPE \<and> data_valid m"
| "message_ok L t (Status m) \<longleftrightarrow> t = MESSAGE_STATUS_TYPE \<and> status_valid m"

fun message_bytes :: "message \<Rightarrow> u8 list" where
  "message_bytes (Hello m) = hello_bytes m"
| "message_bytes (Welcome m) = welcome_bytes m"
| "message_bytes (Member_List m) = list_msg_bytes m"
| "message_bytes (Ack m) = ack_bytes m"
| "message_bytes (Data m) = data_msg_bytes m"
| "message_bytes (Status m) = status_bytes m"

fun message_attempts :: "message \<Rightarrow> u16" where
  "message_attempts (Welcome m) = 1"
| "message_attempts (Ack m) = 1"
| "message_attempts _ = MESSAGE_RETRY_ATTEMPTS"

text \<open>Only a payload can be too long for a region.\<close>

fun message_fits :: "message \<Rightarrow> bool" where
  "message_fits (Data m) \<longleftrightarrow> 26 + unat (data_size m) \<le> MESSAGE_MAX_SIZE"
| "message_fits _ \<longleftrightarrow> True"

lemma gossip_encode_message_ok:
  assumes "message_ok L t m" "L \<le> 128" "off + MESSAGE_MAX_SIZE \<le> length buffer" "length buffer < 2 ^ 64"
  shows "gossip_encode_message t m buffer off =
    (if message_fits m
     then do { b \<leftarrow> mem_write buffer off (message_bytes m);
               Some (int (length (message_bytes m)), message_attempts m, b) }
     else Some (err_code PITTACUS_ERR_BUFFER_NOT_ENOUGH, message_attempts m, buffer))"
proof (cases m)
  case (Hello x)
  then show ?thesis
    using assms hello_codec.encode_bytes [of x 512 off buffer] by (simp add: gossip_encode_message_def)
next
  case (Welcome x)
  then show ?thesis
    using assms welcome_codec.encode_bytes [of x 512 off buffer] by (simp add: gossip_encode_message_def)
next
  case (Member_List x)
  then have "unat (members_n x) \<le> 3" using assms(1) by (simp add: list_valid_def)
  then have "14 + unat (members_n x) * 138 \<le> 512" by simp
  with Member_List show ?thesis
    using assms member_list_codec.encode_bytes [of x 512 off buffer] by (simp add: gossip_encode_message_def)
next
  case (Ack x)
  then show ?thesis
    using assms ack_codec.encode_bytes [of x 512 off buffer] by (simp add: gossip_encode_message_def)
next
  case (Data x)
  then show ?thesis
    using assms data_codec.encode_bytes [of x 512 off buffer] data_codec.encode_short [of 512 x buffer off]
    by (simp add: gossip_encode_message_def)
next
  case (Status x)
  then have "vc_size (status_version x) \<le> 20" using assms(1) by (simp add: status_valid_def vc_wf_def)
  with Status show ?thesis
    using assms status_codec.encode_bytes [of x 512 off buffer] by (simp add: gossip_encode_message_def)
qed

lemma message_bytes_length:
  assumes "message_ok L t m" "message_fits m" "L \<le> 128"
  shows "12 \<le> length (message_bytes m)" "length (message_bytes m) \<le> MESSAGE_MAX_SIZE"
proof -
  show "12 \<le> length (message_bytes m)"
    using assms(1)
    by (cases m)
      (auto simp: hello_bytes_def hello_valid_def welcome_bytes_def welcome_valid_def list_msg_bytes_def
        list_valid_def ack_bytes_def ack_valid_def data_msg_bytes_def data_valid_def status_bytes_def status_valid_def)
  show "length (message_bytes m) \<le> MESSAGE_MAX_SIZE"
  proof (cases m)
    case (Member_List x)
    then have "unat (members_n x) \<le> 3" using assms(1) by (simp add: list_valid_def)
    then show ?thesis using Member_List assms(1) member_list_codec.length_bytes [of x] by simp
  next
    case (Status x)
    then have "vc_size (status_version x) \<le> 20" using assms(1) by (simp add: status_valid_def vc_wf_def)
    then show ?thesis using Status assms(1) status_codec.length_bytes [of x] by simp
  qed (use assms hello_codec.length_bytes welcome_codec.length_bytes ack_codec.length_bytes
      data_codec.length_bytes in \<open>force+\<close>)
qed

section \<open>Queueing\<close>

text \<open>The envelopes queued for one message, and what they point to.\<close>

definition carries :: "u8 list \<Rightarrow> message \<Rightarrow> envelope \<Rightarrow> bool" where
  "carries out m x \<longleftrightarrow> take (env_buffer_size x) (drop (env_buffer x) out) = message_bytes m
     \<and> env_buffer_size x = length (message_bytes m)
     \<and> attempt_num x = 0 \<and> attempt_ts x = 0 \<and> max_attempts x = message_attempts m"

lemma malloc_frame: "malloc e = (ok, e') \<Longrightarrow> env_wire e' = env_wire e \<and> env_app e' = env_app e"
  by (auto simp: malloc_def)

lemma gossip_enqueue_to_outbound_ok:
  assumes "allocs_ok (genv g)" "to = Some bs" "unat len \<le> length bs" "unat len \<le> 128"
  shows "\<exists>e. gossip_enqueue_to_outbound g off n attempts to len =
     Some (0, g\<lparr>gossip_sequence_num := gossip_sequence_num g + 1, genv := e,
        outbound_messages := outbound_messages g @
          [\<lparr>recipient = take (unat len) bs, recipient_len = len, env_buffer = off, env_buffer_size = n,
            sequence_num = gossip_sequence_num g + 1, attempt_ts = 0, attempt_num = 0,
            max_attempts = attempts\<rparr>]\<rparr>)
     \<and> allocs_ok e \<and> env_wire e = env_wire (genv g) \<and> env_app e = env_app (genv g)"
proof -
  obtain e where e: "malloc (genv g) = (True, e)" "allocs_ok e" using malloc_ok [OF assms(1)] by blast
  then show ?thesis
    using assms malloc_frame [OF e(1)]
    by (auto simp: gossip_enqueue_to_outbound_def gossip_envelope_create_def memcpy_src_def mem_read_def Let_def)
qed

text \<open>The envelopes \<^verbatim>\<open>gossip_enqueue_message\<close> appends, given the addresses they go to.\<close>

fun new_envelopes :: "nat \<Rightarrow> nat \<Rightarrow> u16 \<Rightarrow> u32 \<Rightarrow> (u32 \<times> u8 list) list \<Rightarrow> envelope list" where
  "new_envelopes off n attempts s [] = []"
| "new_envelopes off n attempts s ((len, a) # as) =
     \<lparr>recipient = a, recipient_len = len, env_buffer = off, env_buffer_size = n, sequence_num = s + 1,
      attempt_ts = 0, attempt_num = 0, max_attempts = attempts\<rparr> # new_envelopes off n attempts (s + 1) as"

lemma new_envelopes_in:
  "x \<in> set (new_envelopes off n attempts s as) \<Longrightarrow>
     (recipient_len x, recipient x) \<in> set as \<and> env_buffer x = off \<and> env_buffer_size x = n
     \<and> attempt_num x = 0 \<and> attempt_ts x = 0 \<and> max_attempts x = attempts"
proof (induction as arbitrary: s)
  case (Cons la as)
  obtain l a where "la = (l, a)" by (cases la)
  with Cons.prems Cons.IH [of "s + 1"] show ?case by auto
qed simp

lemma enqueue_to_members_ok:
  assumes "allocs_ok (genv g)" "\<forall>p \<in> set ps. \<exists>m. p = Some m \<and> member_fam L m" "L \<le> 128"
  shows "\<exists>e. enqueue_to_members g off n attempts ps 0 =
     Some (0, g\<lparr>gossip_sequence_num := gossip_sequence_num g + of_nat (length ps), genv := e,
        outbound_messages := outbound_messages g @
          new_envelopes off n attempts (gossip_sequence_num g)
            (map (\<lambda>p. (address_len (the p), member_addr (the p))) ps)\<rparr>)
     \<and> allocs_ok e \<and> env_wire e = env_wire (genv g) \<and> env_app e = env_app (genv g)"
  using assms
proof (induction ps arbitrary: g)
  case Nil
  then show ?case by (intro exI [of _ "genv g"]) simp
next
  case (Cons p ps)
  then obtain m where m: "p = Some m" "member_ok m" "unat (address_len m) = L" by (auto simp: member_fam_def)
  then obtain a where a: "address m = Some a" "L \<le> length a" "member_addr m = take L a"
    by (auto elim: member_okE)
  let ?x = "\<lparr>recipient = take (unat (address_len m)) a, recipient_len = address_len m, env_buffer = off,
      env_buffer_size = n, sequence_num = gossip_sequence_num g + 1, attempt_ts = 0, attempt_num = 0,
      max_attempts = attempts\<rparr>"
  obtain e where step: "gossip_enqueue_to_outbound g off n attempts (address m) (address_len m) =
     Some (0, g\<lparr>gossip_sequence_num := gossip_sequence_num g + 1, genv := e,
        outbound_messages := outbound_messages g @ [?x]\<rparr>)"
    and e: "allocs_ok e" "env_wire e = env_wire (genv g)" "env_app e = env_app (genv g)"
    using gossip_enqueue_to_outbound_ok [OF Cons.prems(1) a(1), of "address_len m" off n attempts] m a Cons.prems(3)
    by auto
  let ?g1 = "g\<lparr>gossip_sequence_num := gossip_sequence_num g + 1, genv := e,
        outbound_messages := outbound_messages g @ [?x]\<rparr>"
  obtain e' where "enqueue_to_members ?g1 off n attempts ps 0 =
     Some (0, ?g1\<lparr>gossip_sequence_num := gossip_sequence_num ?g1 + of_nat (length ps), genv := e',
        outbound_messages := outbound_messages ?g1 @
          new_envelopes off n attempts (gossip_sequence_num ?g1)
            (map (\<lambda>p. (address_len (the p), member_addr (the p))) ps)\<rparr>)"
    "allocs_ok e'" "env_wire e' = env_wire (genv ?g1)" "env_app e' = env_app (genv ?g1)"
    using Cons.IH [of ?g1] Cons.prems e(1) by auto
  then show ?case
    using step e m a by (auto simp: add.assoc)
qed

text \<open>The recipients of a message, and the effect of queueing it.\<close>

definition addr_of :: "cluster_member \<Rightarrow> u32 \<times> u8 list" where
  "addr_of m = (address_len m, member_addr m)"

fun targets_ok ::
  "pittacus_gossip \<Rightarrow> u8 list option \<Rightarrow> u32 \<Rightarrow> spreading_type \<Rightarrow> (u32 \<times> u8 list) list \<Rightarrow> bool" where
  "targets_ok g to len GOSSIP_DIRECT as \<longleftrightarrow> as = [(len, take (unat len) (the to))]"
| "targets_ok g to len GOSSIP_BROADCAST as \<longleftrightarrow> as = map addr_of (ms_list (members g))"
| "targets_ok g to len GOSSIP_RANDOM as \<longleftrightarrow>
     (\<exists>idxs. distinct idxs \<and> set idxs \<subseteq> {..<ms_size (members g)}
        \<and> length idxs = min (ms_size (members g)) MESSAGE_RUMOR_FACTOR
        \<and> as = map (\<lambda>i. addr_of (ms_list (members g) ! i)) idxs)"

lemma targets_exist: "\<exists>as. targets_ok g to len sp as"
proof (cases sp)
  case GOSSIP_RANDOM
  then show ?thesis
    by (auto intro!: exI [of _ "[0..<min (ms_size (members g)) MESSAGE_RUMOR_FACTOR]"])
qed auto

definition region :: "u8 list \<Rightarrow> nat \<Rightarrow> u8 list" where
  "region out off = take MESSAGE_MAX_SIZE (drop off out)"

lemma carries_region:
  assumes "carries out m x" "region out' (env_buffer x) = region out (env_buffer x)" "env_buffer_size x \<le> MESSAGE_MAX_SIZE"
  shows "carries out' m x"
proof -
  have "take (env_buffer_size x) (drop (env_buffer x) o') = take (env_buffer_size x) (region o' (env_buffer x))" for o'
    using assms(3) by (simp add: region_def min_def)
  then show ?thesis using assms(1,2) by (auto simp: carries_def)
qed

text \<open>
  Encoding a message touches one region, that of its envelopes, and writes the message's bytes there.
\<close>

definition one_region :: "pittacus_gossip \<Rightarrow> message \<Rightarrow> pittacus_gossip \<Rightarrow> bool" where
  "one_region g m g' \<longleftrightarrow> (\<exists>off. region_ok off
     \<and> (\<forall>k. region_ok k \<and> k \<noteq> off \<longrightarrow> region (output_buffer g') k = region (output_buffer g) k)
     \<and> (\<forall>x \<in> set (outbound_messages g'). x \<in> set (outbound_messages g) \<or> env_buffer x = off)
     \<and> (output_buffer g' = output_buffer g \<and> set (outbound_messages g') \<subseteq> set (outbound_messages g)
        \<or> take (length (message_bytes m)) (region (output_buffer g') off) = message_bytes m))"

definition enqueued ::
  "nat \<Rightarrow> pittacus_gossip \<Rightarrow> message \<Rightarrow> (u32 \<times> u8 list) list \<Rightarrow> pittacus_gossip \<Rightarrow> bool" where
  "enqueued L g m as g' \<longleftrightarrow> gossip_inv L g' \<and> same_node g g' \<and> one_region g m g'
     \<and> (\<exists>q new. outbound_messages g' = q @ new \<and> set q \<subseteq> set (outbound_messages g)
          \<and> (length (outbound_messages g) < MAX_OUTPUT_MESSAGES \<longrightarrow> q = outbound_messages g)
          \<and> map (\<lambda>x. (recipient_len x, recipient x)) new = as
          \<and> (\<forall>x \<in> set new. carries (output_buffer g') m x)
          \<and> (regions_ordered (outbound_messages g) \<or> length (outbound_messages g) < MAX_OUTPUT_MESSAGES \<longrightarrow>
               (\<forall>x \<in> set q. region (output_buffer g') (env_buffer x) = region (output_buffer g) (env_buffer x))))"

lemma enqueuedI:
  assumes "gossip_inv L g'" "same_node g g'" "one_region g m g'" "outbound_messages g' = q @ new"
    "set q \<subseteq> set (outbound_messages g)"
    "length (outbound_messages g) < MAX_OUTPUT_MESSAGES \<Longrightarrow> q = outbound_messages g"
    "map (\<lambda>x. (recipient_len x, recipient x)) new = as"
    "\<And>x. x \<in> set new \<Longrightarrow> carries (output_buffer g') m x"
    "\<And>x. x \<in> set q \<Longrightarrow>
       regions_ordered (outbound_messages g) \<or> length (outbound_messages g) < MAX_OUTPUT_MESSAGES \<Longrightarrow>
       region (output_buffer g') (env_buffer x) = region (output_buffer g) (env_buffer x)"
  shows "enqueued L g m as g'"
  unfolding enqueued_def using assms by blast

lemma map_new_envelopes [simp]:
  "map (\<lambda>x. (recipient_len x, recipient x)) (new_envelopes off n attempts s as) = as"
  by (induction as arbitrary: s) auto

lemma region_other:
  assumes "mem_write out off bs = Some out'" "length bs \<le> MESSAGE_MAX_SIZE" "region_ok off" "region_ok k" "k \<noteq> off"
    "length out = OUTPUT_BUFFER_SIZE"
  shows "region out' k = region out k"
proof -
  obtain a b where ab: "off = a * 512" "k = b * 512" "a < 100" "b < 100"
    using assms(3,4) by (metis region_div)
  then consider "b < a" | "a < b" using assms(5) by fastforce
  then show ?thesis
  proof cases
    case 1
    then have le: "k + 512 \<le> off" using ab by simp
    have "region out' k = take 512 (drop k (take off out'))" using le by (simp add: region_def drop_take)
    also have "take off out' = take off out" using assms(1) by (auto simp: mem_write_Some_iff)
    also have "take 512 (drop k (take off out)) = region out k" using le by (simp add: region_def drop_take)
    finally show ?thesis .
  next
    case 2
    then have le: "off + length bs \<le> k" using ab assms(2) by simp
    have "drop k out' = drop (k - (off + length bs)) (drop (off + length bs) out')" using le by simp
    also have "drop (off + length bs) out' = drop (off + length bs) out"
      using assms(1) by (auto simp: mem_write_Some_iff)
    finally show ?thesis using le by (simp add: region_def)
  qed
qed

lemma region_same:
  assumes "mem_write out off bs = Some out'"
  shows "take (length bs) (drop off out') = bs"
  using assms by (auto simp: mem_write_Some_iff)

text \<open>The choice of the recipients and the envelopes for them, after encoding.\<close>

lemma member_slots:
  assumes "gossip_inv L g" "i < ms_size (members g)"
  shows "ms_set (members g) ! i = Some (ms_list (members g) ! i) \<and> member_fam L (ms_list (members g) ! i)"
  using members_inv_slot [OF _ assms(2)] assms(1) by (auto simp: gossip_inv_def)

lemma addr_of_fam: "member_fam L m \<Longrightarrow> unat (fst (addr_of m)) = L \<and> length (snd (addr_of m)) = L"
  by (auto simp: addr_of_def member_fam_def)

lemma spread_random:
  assumes inv: "gossip_inv L g"
  shows "\<exists>as e. distribute_message g off n attempts to len GOSSIP_RANDOM =
     Some (0, g\<lparr>gossip_sequence_num := gossip_sequence_num g + of_nat (length as), genv := e,
            outbound_messages := outbound_messages g @ new_envelopes off n attempts (gossip_sequence_num g) as\<rparr>)
     \<and> targets_ok g to len GOSSIP_RANDOM as \<and> (\<forall>(l, a) \<in> set as. unat l = L \<and> length a = L)
     \<and> allocs_ok e \<and> env_wire e = env_wire (genv g) \<and> env_app e = env_app (genv g)"
proof -
  have L: "L \<le> 128" and ms: "members_inv (members g)" "\<forall>m \<in> set (ms_list (members g)). member_fam L m"
    and al: "allocs_ok (genv g)" using inv by (auto simp: gossip_inv_def)
  have size: "ms_size (members g) \<le> length (ms_set (members g))" using ms(1) by (auto simp: members_inv_def)
  obtain idxs e where r: "cluster_member_set_random_members (genv g) (members g) 3 = Some (map ((!) (ms_set (members g))) idxs, e)"
    "distinct idxs" "set idxs \<subseteq> {..<ms_size (members g)}" "length idxs = min (ms_size (members g)) 3"
    "env_allocs e = env_allocs (genv g)" "env_wire e = env_wire (genv g)" "env_app e = env_app (genv g)"
    using cluster_member_set_random_members_ok [OF size, of "genv g" 3] by blast
  let ?ps = "map ((!) (ms_set (members g))) idxs"
  let ?as = "map (\<lambda>i. addr_of (ms_list (members g) ! i)) idxs"
  have ps: "\<forall>p \<in> set ?ps. \<exists>m. p = Some m \<and> member_fam L m" using r(3) member_slots [OF inv] by auto
  have eq: "map (\<lambda>p. (address_len (the p), member_addr (the p))) ?ps = ?as"
    using r(3) member_slots [OF inv] by (auto simp: addr_of_def)
  have al': "allocs_ok (genv (g\<lparr>genv := e\<rparr>))" using al r(5) by (simp add: allocs_ok_def)
  from enqueue_to_members_ok [OF al' ps L, of off n attempts] obtain e' where
    "enqueue_to_members (g\<lparr>genv := e\<rparr>) off n attempts ?ps 0 =
       Some (0, g\<lparr>gossip_sequence_num := gossip_sequence_num g + of_nat (length ?as), genv := e',
         outbound_messages := outbound_messages g @ new_envelopes off n attempts (gossip_sequence_num g) ?as\<rparr>)"
    "allocs_ok e'" "env_wire e' = env_wire (genv g)" "env_app e' = env_app (genv g)"
    unfolding eq using r(6,7) by auto
  moreover have "\<forall>(l, a) \<in> set ?as. unat l = L \<and> length a = L"
  proof -
    have "unat (fst (addr_of (ms_list (members g) ! i))) = L
        \<and> length (snd (addr_of (ms_list (members g) ! i))) = L" if "i \<in> set idxs" for i
      using that r(3) by (intro addr_of_fam) (auto dest: member_slots [OF inv])
    then show ?thesis by (simp add: case_prod_beta)
  qed
  ultimately show ?thesis
    using r(1-4) by (intro exI [of _ ?as] exI [of _ e']) (auto simp: distribute_message_def)
qed

lemma spread_broadcast:
  assumes inv: "gossip_inv L g"
  shows "\<exists>as e. distribute_message g off n attempts to len GOSSIP_BROADCAST =
     Some (0, g\<lparr>gossip_sequence_num := gossip_sequence_num g + of_nat (length as), genv := e,
            outbound_messages := outbound_messages g @ new_envelopes off n attempts (gossip_sequence_num g) as\<rparr>)
     \<and> targets_ok g to len GOSSIP_BROADCAST as \<and> (\<forall>(l, a) \<in> set as. unat l = L \<and> length a = L)
     \<and> allocs_ok e \<and> env_wire e = env_wire (genv g) \<and> env_app e = env_app (genv g)"
proof -
  have L: "L \<le> 128" and ms: "members_inv (members g)" "\<forall>m \<in> set (ms_list (members g)). member_fam L m"
    and al: "allocs_ok (genv g)" using inv by (auto simp: gossip_inv_def)
  have size: "ms_size (members g) \<le> length (ms_set (members g))" using ms(1) by (auto simp: members_inv_def)
  let ?ps = "take (ms_size (members g)) (ms_set (members g))"
  let ?as = "map addr_of (ms_list (members g))"
  have ps: "\<forall>p \<in> set ?ps. \<exists>m. p = Some m \<and> member_fam L m"
    using member_slots [OF inv] size by (auto simp: in_set_conv_nth)
  have eq: "map (\<lambda>p. (address_len (the p), member_addr (the p))) ?ps = ?as"
    by (simp add: ms_list_def addr_of_def)
  have len: "length ?ps = length ?as" using size length_ms_list [OF ms(1)] by simp
  from enqueue_to_members_ok [OF al ps L, of off n attempts] obtain e' where
    "enqueue_to_members g off n attempts ?ps 0 =
       Some (0, g\<lparr>gossip_sequence_num := gossip_sequence_num g + of_nat (length ?as), genv := e',
         outbound_messages := outbound_messages g @ new_envelopes off n attempts (gossip_sequence_num g) ?as\<rparr>)"
    "allocs_ok e'" "env_wire e' = env_wire (genv g)" "env_app e' = env_app (genv g)"
    unfolding eq len by auto
  moreover have "\<forall>(l, a) \<in> set ?as. unat l = L \<and> length a = L"
    using ms(2) addr_of_fam by (simp add: case_prod_beta)
  ultimately show ?thesis
    using size by (intro exI [of _ ?as] exI [of _ e']) (auto simp: distribute_message_def)
qed

lemma spread_ok:
  assumes inv: "gossip_inv L g"
    and dest: "sp = GOSSIP_DIRECT \<Longrightarrow> \<exists>bs. to = Some bs \<and> L \<le> length bs \<and> unat len = L"
  shows "\<exists>as e. distribute_message g off n attempts to len sp =
     Some (0, g\<lparr>gossip_sequence_num := gossip_sequence_num g + of_nat (length as), genv := e,
            outbound_messages := outbound_messages g @ new_envelopes off n attempts (gossip_sequence_num g) as\<rparr>)
     \<and> targets_ok g to len sp as \<and> (\<forall>(l, a) \<in> set as. unat l = L \<and> length a = L)
     \<and> allocs_ok e \<and> env_wire e = env_wire (genv g) \<and> env_app e = env_app (genv g)"
proof (cases sp)
  case GOSSIP_DIRECT
  have L: "L \<le> 128" and al: "allocs_ok (genv g)" using inv by (auto simp: gossip_inv_def)
  obtain bs where bs: "to = Some bs" "L \<le> length bs" "unat len = L" using dest GOSSIP_DIRECT by blast
  then show ?thesis
    using gossip_enqueue_to_outbound_ok [OF al bs(1), of len off n attempts] L GOSSIP_DIRECT
    by (intro exI [of _ "[(len, take (unat len) bs)]"]) (auto simp: distribute_message_def)
qed (use spread_random [OF inv] spread_broadcast [OF inv] in simp_all)

lemma attempts_cases: "message_attempts m = 1 \<or> message_attempts m = MESSAGE_RETRY_ATTEMPTS"
  by (cases m) auto

text \<open>
  \<^verbatim>\<open>gossip_enqueue_message\<close>: it returns, keeps the invariant, and either refuses a payload that is
  too long or queues one envelope per recipient that points to the message's encoding.
\<close>

text \<open>The envelopes of a message that was written into the region at \<open>off\<close>.\<close>

lemma new_envelope_ok:
  assumes m: "message_ok L t m" "message_fits m" and L: "L \<le> 128" and off: "region_ok off"
    and out': "mem_write out off (message_bytes m) = Some out'" and as: "\<forall>(l, a) \<in> set as. unat l = L \<and> length a = L"
    and x: "x \<in> set (new_envelopes off (length (message_bytes m)) (message_attempts m) s as)"
  shows "envelope_ok L x \<and> carries out' m x"
proof -
  note x = new_envelopes_in [OF x]
  moreover have "unat (recipient_len x) = L" "length (recipient x) = L" using x as by auto
  ultimately show ?thesis
    using off message_bytes_length [OF m L] region_same [OF out'] attempts_cases [of m]
    by (auto simp: envelope_ok_def carries_def)
qed

text \<open>Queueing a message that fits, once its region is known.\<close>

lemma enqueue_fitting:
  assumes inv: "gossip_inv L g" and m: "message_ok L t m" and fits: "message_fits m"
    and dest: "sp = GOSSIP_DIRECT \<Longrightarrow> \<exists>bs. to = Some bs \<and> L \<le> length bs \<and> unat len = L"
    and upd: "gossip_update_output_buffer_offset g = Some (off, g\<lparr>outbound_messages := q', output_buffer_offset := off\<rparr>)"
    and off: "region_ok off" and q': "set q' \<subseteq> set (outbound_messages g)"
  obtains as e out' where "mem_write (output_buffer g) off (message_bytes m) = Some out'"
    "gossip_enqueue_message g t m to len sp = Some (0, g\<lparr>output_buffer_offset := off, output_buffer := out',
       gossip_sequence_num := gossip_sequence_num g + of_nat (length as), genv := e, outbound_messages := q' @
         new_envelopes off (length (message_bytes m)) (message_attempts m) (gossip_sequence_num g) as\<rparr>)"
    "targets_ok g to len sp as" "\<forall>(l, a) \<in> set as. unat l = L \<and> length a = L"
    "allocs_ok e" "env_wire e = env_wire (genv g)" "env_app e = env_app (genv g)"
proof -
  let ?bs = "message_bytes m" and ?g1 = "g\<lparr>outbound_messages := q', output_buffer_offset := off\<rparr>"
  have L: "L \<le> 128" and out: "length (output_buffer g) = OUTPUT_BUFFER_SIZE" using inv by (auto simp: gossip_inv_def)
  have fit: "off + MESSAGE_MAX_SIZE \<le> length (output_buffer g)"
    using off out region_div [OF off] by (auto simp: region_ok_def)
  have small: "length (output_buffer g) < 2 ^ 64" using out by simp
  note len_bs = message_bytes_length [OF m fits L]
  obtain out' where out': "mem_write (output_buffer g) off ?bs = Some out'"
    using fit len_bs(2) by (simp add: mem_write_def)
  have len': "length out' = OUTPUT_BUFFER_SIZE" using mem_write_Some_length [OF out'] out by simp
  let ?g2 = "?g1\<lparr>output_buffer := out'\<rparr>"
  have inv2: "gossip_inv L ?g2" using inv q' len' by (auto simp: gossip_inv_def)
  obtain as e where sp: "distribute_message ?g2 off (length ?bs) (message_attempts m) to len sp =
    Some (0, ?g2\<lparr>gossip_sequence_num := gossip_sequence_num ?g2 + of_nat (length as), genv := e,
          outbound_messages := outbound_messages ?g2 @
            new_envelopes off (length ?bs) (message_attempts m) (gossip_sequence_num ?g2) as\<rparr>)"
    and as: "targets_ok ?g2 to len sp as" "\<forall>(l, a) \<in> set as. unat l = L \<and> length a = L"
    and e: "allocs_ok e" "env_wire e = env_wire (genv ?g2)" "env_app e = env_app (genv ?g2)"
    using spread_ok [OF inv2 dest, where sp = sp and off = off and n = "length ?bs" and attempts = "message_attempts m"]
    by blast
  have "gossip_enqueue_message g t m to len sp = Some (0, g\<lparr>output_buffer_offset := off, output_buffer := out',
       gossip_sequence_num := gossip_sequence_num g + of_nat (length as), genv := e, outbound_messages := q' @
         new_envelopes off (length ?bs) (message_attempts m) (gossip_sequence_num g) as\<rparr>)"
    using upd gossip_encode_message_ok [OF m L fit small] fits out' sp
    by (simp add: gossip_enqueue_message_def)
  moreover have "targets_ok g to len sp as" using as(1) by (cases sp) simp_all
  ultimately show ?thesis using that [OF out' _ _ as(2) e(1)] e(2,3) by simp
qed

lemma gossip_enqueue_message_ok:
  assumes inv: "gossip_inv L g" and m: "message_ok L t m"
    and dest: "sp = GOSSIP_DIRECT \<Longrightarrow> \<exists>bs. to = Some bs \<and> L \<le> length bs \<and> unat len = L"
  shows "\<exists>as g'. gossip_enqueue_message g t m to len sp =
             Some (if message_fits m then 0 else err_code PITTACUS_ERR_BUFFER_NOT_ENOUGH, g')
           \<and> enqueued L g m (if message_fits m then as else []) g' \<and> targets_ok g to len sp as"
proof -
  have L: "L \<le> 128" and out: "length (output_buffer g) = OUTPUT_BUFFER_SIZE"
    and q: "\<forall>x \<in> set (outbound_messages g). envelope_ok L x" using inv by (auto simp: gossip_inv_def)
  have "\<forall>x \<in> set (outbound_messages g). region_ok (env_buffer x)" using q by (auto simp: envelope_ok_def)
  from gossip_update_output_buffer_offset_ok [OF this] obtain off q' where
    upd: "gossip_update_output_buffer_offset g = Some (off, g\<lparr>outbound_messages := q', output_buffer_offset := off\<rparr>)"
    and off: "region_ok off" and q': "set q' \<subseteq> set (outbound_messages g)"
      "regions_ordered (outbound_messages g) \<longrightarrow> (\<forall>x \<in> set q'. env_buffer x \<noteq> off)"
      "length (outbound_messages g) < MAX_OUTPUT_MESSAGES \<longrightarrow>
         q' = outbound_messages g \<and> (\<forall>x \<in> set q'. env_buffer x \<noteq> off)" by blast
  let ?g1 = "g\<lparr>outbound_messages := q', output_buffer_offset := off\<rparr>"
  have fit: "off + MESSAGE_MAX_SIZE \<le> length (output_buffer g)"
    using off out region_div [OF off] by (auto simp: region_ok_def)
  have small: "length (output_buffer g) < 2 ^ 64" using out by simp
  have inv1: "gossip_inv L (?g1\<lparr>output_buffer := o'\<rparr>)" if "length o' = OUTPUT_BUFFER_SIZE" for o'
    using inv q' that by (auto simp: gossip_inv_def)
  show ?thesis
  proof (cases "message_fits m")
    case False
    obtain as where "targets_ok g to len sp as" using targets_exist by blast
    moreover have "gossip_enqueue_message g t m to len sp = Some (err_code PITTACUS_ERR_BUFFER_NOT_ENOUGH, ?g1)"
      using upd gossip_encode_message_ok [OF m L fit small] False by (simp add: gossip_enqueue_message_def)
    moreover have "one_region g m ?g1" using off q'(1) by (auto simp: one_region_def)
    then have "enqueued L g m [] ?g1"
      using inv1 [OF out] q' by (intro enqueuedI [where q = q' and new = "[]"]) (simp_all add: same_node_def)
    ultimately show ?thesis using False by auto
  next
    case True
    let ?bs = "message_bytes m"
    note len_bs = message_bytes_length [OF m True L]
    obtain as e out' where out': "mem_write (output_buffer g) off ?bs = Some out'"
      and run: "gossip_enqueue_message g t m to len sp = Some (0, g\<lparr>output_buffer_offset := off, output_buffer := out',
       gossip_sequence_num := gossip_sequence_num g + of_nat (length as), genv := e, outbound_messages := q' @
         new_envelopes off (length ?bs) (message_attempts m) (gossip_sequence_num g) as\<rparr>)"
      and as: "targets_ok g to len sp as" "\<forall>(l, a) \<in> set as. unat l = L \<and> length a = L"
      and e: "allocs_ok e" "env_wire e = env_wire (genv g)" "env_app e = env_app (genv g)"
      using enqueue_fitting [OF inv m True dest upd off q'(1)] by metis
    let ?new = "new_envelopes off (length ?bs) (message_attempts m) (gossip_sequence_num g) as"
    let ?g' = "g\<lparr>output_buffer_offset := off, output_buffer := out',
       gossip_sequence_num := gossip_sequence_num g + of_nat (length as), genv := e, outbound_messages := q' @ ?new\<rparr>"
    have len': "length out' = OUTPUT_BUFFER_SIZE" using mem_write_Some_length [OF out'] out by simp
    note inv2 = inv1 [OF len']
    note new = new_envelope_ok [OF m True L off out' as(2), where s = "gossip_sequence_num g"]
    have "gossip_inv L ?g'" using inv2 new q' e(1) q by (auto simp: gossip_inv_def)
    moreover have "region out' (env_buffer x) = region (output_buffer g) (env_buffer x)"
      if "x \<in> set q'" "regions_ordered (outbound_messages g) \<or> length (outbound_messages g) < MAX_OUTPUT_MESSAGES" for x
    proof -
      have "env_buffer x \<noteq> off" using that q'(2,3) by blast
      moreover have "region_ok (env_buffer x)" using that(1) q'(1) q by (auto simp: envelope_ok_def)
      ultimately show ?thesis using region_other [OF out' len_bs(2) off] out by simp
    qed
    moreover have "one_region g m ?g'"
      using off q'(1) region_other [OF out' len_bs(2) off _ _ out] region_same [OF out'] len_bs(2)
      by (auto simp: one_region_def region_def [of out' off] min_def intro!: exI [of _ off] dest: new_envelopes_in)
    ultimately have "enqueued L g m as ?g'"
      using q' new e(2,3) by (intro enqueuedI [where q = q' and new = ?new]) (simp_all add: same_node_def)
    then show ?thesis using run True as(1) by auto
  qed
qed

section \<open>What the senders do\<close>

text \<open>An address a message can be sent to, given by pointer and length.\<close>

definition dest_ok :: "nat \<Rightarrow> u8 list option \<Rightarrow> u32 \<Rightarrow> bool" where
  "dest_ok L to len \<longleftrightarrow> (\<exists>bs. to = Some bs \<and> L \<le> length bs) \<and> unat len = L"

lemma enqueued_inv: "enqueued L g m as g' \<Longrightarrow> gossip_inv L g' \<and> same_node g g'"
  by (simp add: enqueued_def)

text \<open>
  A message of data is sent on only when the log holds what it says. \<open>evolves\<close> says what a node does
  that learns no new data: it queues such messages, drops envelopes and changes its members and state.
\<close>

definition logged :: "pittacus_gossip \<Rightarrow> message_data \<Rightarrow> bool" where
  "logged g m \<longleftrightarrow> log_map (gossip_log g) (member_id (data_record m)) = Some (sequence_number (data_record m), payload m)"

definition same_data :: "pittacus_gossip \<Rightarrow> pittacus_gossip \<Rightarrow> bool" where
  "same_data g g' \<longleftrightarrow> output_buffer g' = output_buffer g \<and> set (outbound_messages g') \<subseteq> set (outbound_messages g)
     \<and> data_version g' = data_version g \<and> gossip_log g' = gossip_log g
     \<and> env_wire (genv g') = env_wire (genv g) \<and> env_app (genv g') = env_app (genv g)"

inductive evolves :: "nat \<Rightarrow> pittacus_gossip \<Rightarrow> pittacus_gossip \<Rightarrow> bool" for L g where
  stay [intro]: "evolves L g g"
| queue: "evolves L g g1 \<Longrightarrow> message_ok L t m \<Longrightarrow> \<forall>d. m = Data d \<longrightarrow> logged g1 d \<Longrightarrow> enqueued L g1 m as g2 \<Longrightarrow> evolves L g g2"
| other: "evolves L g g1 \<Longrightarrow> gossip_inv L g2 \<Longrightarrow> same_data g1 g2 \<Longrightarrow> evolves L g g2"

lemma evolves_trans: "evolves L g1 g2 \<Longrightarrow> evolves L g g1 \<Longrightarrow> evolves L g g2"
  by (induction rule: evolves.induct) (auto intro: evolves.intros)

lemma evolves_inv: "evolves L g g' \<Longrightarrow> gossip_inv L g \<Longrightarrow> gossip_inv L g'"
  by (induction rule: evolves.induct) (auto simp: enqueued_inv)

lemmas evolves_queue = evolves.queue [OF evolves.stay]
lemmas evolves_other = evolves.other [OF evolves.stay]

text \<open>With room in the queue nothing is dropped: new envelopes come behind the old ones, which keep their bytes.\<close>

definition grows :: "pittacus_gossip \<Rightarrow> pittacus_gossip \<Rightarrow> nat \<Rightarrow> bool" where
  "grows g g' k \<longleftrightarrow> (\<exists>new. outbound_messages g' = outbound_messages g @ new \<and> length new = k \<and> (\<forall>x \<in> set new. attempt_num x = 0)
     \<and> (\<forall>x \<in> set (outbound_messages g). region (output_buffer g') (env_buffer x) = region (output_buffer g) (env_buffer x)))"

lemma grows_refl: "outbound_messages g' = outbound_messages g \<Longrightarrow> output_buffer g' = output_buffer g \<Longrightarrow> grows g g' 0"
  by (simp add: grows_def)

lemma grows_trans: "grows g g1 j \<Longrightarrow> grows g1 g2 k \<Longrightarrow> grows g g2 (j + k)"
  unfolding grows_def by (elim exE) (rule exI, auto)

lemma grows_length: "grows g g' k \<Longrightarrow> length (outbound_messages g') = length (outbound_messages g) + k"
  by (auto simp: grows_def)

lemma enqueued_grows:
  assumes "enqueued L g m as g'" "length (outbound_messages g) < MAX_OUTPUT_MESSAGES"
  shows "grows g g' (length as)"
  using assms by (auto simp: enqueued_def grows_def carries_def)

lemma direct_ok:
  assumes "gossip_inv L g" "message_ok L t m" "message_fits m" "dest_ok L to len"
  shows "\<exists>g'. gossip_enqueue_message g t m to len GOSSIP_DIRECT = Some (0, g')
           \<and> enqueued L g m [(len, take L (the to))] g'"
  using gossip_enqueue_message_ok [OF assms(1,2), of GOSSIP_DIRECT to len] assms(3,4)
  by (auto simp: dest_ok_def)

lemma gossip_enqueue_ack_ok:
  assumes "gossip_inv L g" "dest_ok L to len"
  shows "\<exists>g'. gossip_enqueue_ack g n to len = Some (0, g')
     \<and> enqueued L g (Ack \<lparr>ack_header = message_header_init MESSAGE_ACK_TYPE 0, ack_sequence_num = n\<rparr>)
         [(len, take L (the to))] g'"
  unfolding gossip_enqueue_ack_def using assms by (intro direct_ok) (simp_all add: ack_valid_def)

lemma gossip_enqueue_welcome_ok:
  assumes "gossip_inv L g" "dest_ok L to len"
  shows "\<exists>g'. gossip_enqueue_welcome g n to len = Some (0, g')
     \<and> enqueued L g (Welcome \<lparr>welcome_header = message_header_init MESSAGE_WELCOME_TYPE 0,
           hello_sequence_num = n, welcome_this_member = self_address g\<rparr>) [(len, take L (the to))] g'"
  unfolding gossip_enqueue_welcome_def
  using assms by (intro direct_ok) (auto simp: welcome_valid_def gossip_inv_def member_fam_def)

lemma gossip_enqueue_hello_ok:
  assumes "gossip_inv L g" "dest_ok L to len"
  shows "\<exists>g'. gossip_enqueue_hello g to len = Some (0, g')
     \<and> enqueued L g (Hello \<lparr>hello_header = message_header_init MESSAGE_HELLO_TYPE 0,
           hello_this_member = self_address g\<rparr>) [(len, take L (the to))] g'"
  unfolding gossip_enqueue_hello_def
  using assms by (intro direct_ok) (auto simp: hello_valid_def gossip_inv_def member_fam_def)

text \<open>The status message has the node's version, to one recipient or to random members.\<close>

lemma gossip_enqueue_status_ok:
  assumes inv: "gossip_inv L g" and dest: "to \<noteq> None \<Longrightarrow> dest_ok L to len"
  shows "\<exists>m as g'. gossip_enqueue_status g to len = Some (0, g') \<and> enqueued L g (Status m) as g'
           \<and> status_valid m \<and> vc_map (status_version m) = vc_map (data_version g)
           \<and> targets_ok g to len (if to = None then GOSSIP_RANDOM else GOSSIP_DIRECT) as"
proof -
  have "vc_wf (data_version g)" using inv by (simp add: gossip_inv_def vc_inv_def)
  then obtain c where c: "vector_clock_copy vector_clock_zero (data_version g) = Some c" "vc_wf c"
    "vc_map c = vc_map (data_version g)"
    using vector_clock_copy_ok [of "data_version g" vector_clock_zero] by (auto simp: vector_clock_zero_def)
  let ?m = "\<lparr>status_header = message_header_init MESSAGE_STATUS_TYPE 0, status_version = c\<rparr>"
  let ?sp = "if to = None then GOSSIP_RANDOM else GOSSIP_DIRECT"
  have v: "status_valid ?m" using c(2) by (simp add: status_valid_def)
  have "?sp = GOSSIP_DIRECT \<Longrightarrow> \<exists>bs. to = Some bs \<and> L \<le> length bs \<and> unat len = L"
    using dest by (auto simp: dest_ok_def split: if_splits)
  from gossip_enqueue_message_ok [OF inv, of MESSAGE_STATUS_TYPE "Status ?m" ?sp to len, OF _ this] v
  obtain as g' where "gossip_enqueue_message g MESSAGE_STATUS_TYPE (Status ?m) to len ?sp = Some (0, g')"
    "enqueued L g (Status ?m) as g'" "targets_ok g to len ?sp as" by auto
  then show ?thesis
    using c v by (intro exI [of _ ?m] exI [of _ as] exI [of _ g']) (simp add: gossip_enqueue_status_def)
qed

lemma enqueue_evolves:
  assumes inv: "gossip_inv L g" and dest: "dest_ok L to len"
  shows "\<exists>g'. gossip_enqueue_ack g n to len = Some (0, g') \<and> evolves L g g' \<and> gossip_inv L g' \<and> same_node g g'"
    "\<exists>g'. gossip_enqueue_welcome g n to len = Some (0, g') \<and> evolves L g g' \<and> gossip_inv L g' \<and> same_node g g'"
    "\<exists>g'. gossip_enqueue_hello g to len = Some (0, g') \<and> evolves L g g' \<and> gossip_inv L g' \<and> same_node g g'"
    "\<exists>g'. gossip_enqueue_status g to len = Some (0, g') \<and> evolves L g g' \<and> gossip_inv L g' \<and> same_node g g'"
proof -
  have valid: "message_ok L MESSAGE_WELCOME_TYPE (Welcome \<lparr>welcome_header = message_header_init MESSAGE_WELCOME_TYPE 0,
        hello_sequence_num = n, welcome_this_member = self_address g\<rparr>)"
    "message_ok L MESSAGE_HELLO_TYPE (Hello \<lparr>hello_header = message_header_init MESSAGE_HELLO_TYPE 0,
        hello_this_member = self_address g\<rparr>)"
    using inv by (auto simp: gossip_inv_def member_fam_def welcome_valid_def hello_valid_def)
  have q: "evolves L g g' \<and> gossip_inv L g' \<and> same_node g g'"
    if "enqueued L g m as g'" "message_ok L t m" "\<forall>d. m \<noteq> Data d" for t m as g'
    using evolves_queue [OF that(2) _ that(1)] enqueued_inv [OF that(1)] that(3) by blast
  show "\<exists>g'. gossip_enqueue_ack g n to len = Some (0, g') \<and> evolves L g g' \<and> gossip_inv L g' \<and> same_node g g'"
    using gossip_enqueue_ack_ok [OF assms, of n] by (auto simp: ack_valid_def dest!: q [where t = MESSAGE_ACK_TYPE])
  show "\<exists>g'. gossip_enqueue_welcome g n to len = Some (0, g') \<and> evolves L g g' \<and> gossip_inv L g' \<and> same_node g g'"
    using gossip_enqueue_welcome_ok [OF assms, of n] q [where m = "Welcome _" and t = MESSAGE_WELCOME_TYPE] valid(1) by blast
  show "\<exists>g'. gossip_enqueue_hello g to len = Some (0, g') \<and> evolves L g g' \<and> gossip_inv L g' \<and> same_node g g'"
    using gossip_enqueue_hello_ok [OF assms] q [where m = "Hello _" and t = MESSAGE_HELLO_TYPE] valid(2) by blast
  obtain m as g' where "gossip_enqueue_status g to len = Some (0, g')" "enqueued L g (Status m) as g'" "status_valid m"
    using gossip_enqueue_status_ok [OF inv, of to len] dest by blast
  then show "\<exists>g'. gossip_enqueue_status g to len = Some (0, g') \<and> evolves L g g' \<and> gossip_inv L g' \<and> same_node g g'"
    using q [of "Status m" as g' MESSAGE_STATUS_TYPE] by auto
qed

lemma member_fam_valid:
  "\<forall>m \<in> set ms. member_fam L m \<Longrightarrow> L \<le> 128 \<Longrightarrow> length ms \<le> 3 \<Longrightarrow>
     list_valid \<lparr>member_list_header = message_header_init MESSAGE_MEMBER_LIST_TYPE 0,
                 members_n = of_nat (length ms), list_members = ms\<rparr>"
  by (auto simp: list_valid_def member_fam_def unat_of_nat)

lemma those_map_Some: "those (map Some xs) = Some xs"
  by (induction xs) auto

lemma send_member_lists_ok:
  assumes "gossip_inv L g" "dest_ok L to len" "\<forall>m \<in> set ms. member_fam L m" "0 < n" "n \<le> 3"
  shows "\<exists>g'. send_member_lists g n (map Some ms) to len 0 = Some (0, g') \<and> evolves L g g' \<and> same_node g g'
     \<and> (length (outbound_messages g) + length ms \<le> MAX_OUTPUT_MESSAGES \<longrightarrow> (\<exists>k \<le> length ms. grows g g' k))"
  using assms
proof (induction "length ms" arbitrary: g ms rule: less_induct)
  case less
  show ?case
  proof (cases "ms = []")
    case True
    then show ?thesis using less.prems grows_refl by (auto simp: send_member_lists.simps)
  next
    case False
    let ?ms = "take n ms"
    let ?m = "\<lparr>member_list_header = message_header_init MESSAGE_MEMBER_LIST_TYPE 0,
                members_n = of_nat (length ?ms), list_members = ?ms\<rparr>"
    have L: "L \<le> 128" using less.prems(1) by (simp add: gossip_inv_def)
    have "list_valid ?m" using less.prems(3,5) L by (intro member_fam_valid) (auto dest: in_set_takeD)
    then have m: "message_ok L MESSAGE_MEMBER_LIST_TYPE (Member_List ?m)"
      using less.prems(3,5) by (auto simp: member_fam_def min_le_iff_disj dest: in_set_takeD)
    then obtain g1 where g1: "gossip_enqueue_message g MESSAGE_MEMBER_LIST_TYPE (Member_List ?m) to len GOSSIP_DIRECT = Some (0, g1)"
      "enqueued L g (Member_List ?m) [(len, take L (the to))] g1"
      using direct_ok [OF less.prems(1), of MESSAGE_MEMBER_LIST_TYPE "Member_List ?m" to len] less.prems(2) by auto
    have ev: "evolves L g g1" using evolves_queue [OF m _ g1(2)] by simp
    have shorter: "length (drop n ms) < length ms" using False less.prems(4) by (cases ms) auto
    moreover have "\<forall>m \<in> set (drop n ms). member_fam L m" using less.prems(3) by (auto dest: in_set_dropD)
    ultimately obtain g' where "send_member_lists g1 n (map Some (drop n ms)) to len 0 = Some (0, g')"
      "evolves L g1 g'" "same_node g1 g'" and
      room: "length (outbound_messages g1) + length (drop n ms) \<le> MAX_OUTPUT_MESSAGES \<longrightarrow> (\<exists>k \<le> length (drop n ms). grows g1 g' k)"
      using less.hyps [of "drop n ms" g1] less.prems enqueued_inv [OF g1(2)] by blast
    moreover have "\<exists>k \<le> length ms. grows g g' k" if q: "length (outbound_messages g) + length ms \<le> MAX_OUTPUT_MESSAGES"
    proof -
      have grow: "grows g g1 1" using enqueued_grows [OF g1(2)] q shorter by simp
      then obtain k where "k \<le> length (drop n ms)" "grows g1 g' k" using room grows_length [OF grow] q shorter by auto
      then show ?thesis using grows_trans [OF grow] shorter by (intro exI [of _ "1 + k"]) auto
    qed
    ultimately show ?thesis
      using False less.prems(4) g1 enqueued_inv [OF g1(2)] those_map_Some [of ?ms] evolves_trans [OF _ ev, of g']
      by (subst send_member_lists.simps) (auto simp: take_map drop_map intro: same_node_trans)
  qed
qed

lemma slots_map_Some:
  assumes "members_inv s"
  shows "take (ms_size s) (ms_set s) = map Some (ms_list s)"
proof (rule nth_equalityI)
  show "length (take (ms_size s) (ms_set s)) = length (map Some (ms_list s))" by (simp add: ms_list_def)
  fix i assume "i < length (take (ms_size s) (ms_set s))"
  then show "take (ms_size s) (ms_set s) ! i = map Some (ms_list s) ! i"
    using members_inv_slot(1) [OF assms, of i] by (simp add: length_ms_list [OF assms])
qed

lemma gossip_inv_genv:
  "gossip_inv L g \<Longrightarrow> allocs_ok e \<Longrightarrow> gossip_inv L (g\<lparr>genv := e\<rparr>)"
  by (simp add: gossip_inv_def)

lemma gossip_enqueue_member_list_ok:
  assumes inv: "gossip_inv L g" and dest: "dest_ok L to len"
  shows "\<exists>g'. gossip_enqueue_member_list g to len = Some (0, g') \<and> evolves L g g' \<and> same_node g g'
     \<and> (length (outbound_messages g) + ms_size (members g) \<le> MAX_OUTPUT_MESSAGES \<longrightarrow> (\<exists>k \<le> ms_size (members g). grows g g' k))"
proof (cases "ms_size (members g) = 0")
  case True
  then show ?thesis using grows_refl by (auto simp: gossip_enqueue_member_list_def)
next
  case False
  have ms: "members_inv (members g)" "\<forall>m \<in> set (ms_list (members g)). member_fam L m"
    and size: "ms_size (members g) \<le> length (ms_set (members g))"
    using inv by (auto simp: gossip_inv_def members_inv_def)
  have "allocs_ok (genv g)" using inv by (simp add: gossip_inv_def)
  then obtain e where e: "malloc (genv g) = (True, e)" "allocs_ok e" using malloc_ok by blast
  let ?n = "if ms_size (members g) > MEMBER_LIST_SYNC_SIZE then MEMBER_LIST_SYNC_SIZE else ms_size (members g)"
  have n: "0 < ?n" "?n \<le> 3" using False by auto
  have slots: "take (ms_size (members g)) (ms_set (members g)) = map Some (ms_list (members g))"
    by (rule slots_map_Some [OF ms(1)])
  obtain g' where g': "send_member_lists (g\<lparr>genv := e\<rparr>) ?n (map Some (ms_list (members g))) to len 0 = Some (0, g')"
    "evolves L (g\<lparr>genv := e\<rparr>) g'" "same_node (g\<lparr>genv := e\<rparr>) g'"
    "length (outbound_messages (g\<lparr>genv := e\<rparr>)) + length (ms_list (members g)) \<le> MAX_OUTPUT_MESSAGES \<longrightarrow>
      (\<exists>k \<le> length (ms_list (members g)). grows (g\<lparr>genv := e\<rparr>) g' k)"
    using send_member_lists_ok [OF gossip_inv_genv [OF inv e(2)] dest ms(2) n] by blast
  have "gossip_enqueue_member_list g to len = Some (0, g')"
    using g'(1) e(1) False size slots by (simp add: gossip_enqueue_member_list_def Let_def not_less)
  moreover have "same_node g g'" using g'(3) malloc_frame [OF e(1)] by (simp add: same_node_def)
  moreover have "evolves L g (g\<lparr>genv := e\<rparr>)"
    using malloc_frame [OF e(1)] by (intro evolves_other [OF gossip_inv_genv [OF inv e(2)]]) (simp add: same_data_def)
  moreover have "length (outbound_messages g) + ms_size (members g) \<le> MAX_OUTPUT_MESSAGES \<longrightarrow> (\<exists>k \<le> ms_size (members g). grows g g' k)"
    using g'(4) by (simp add: length_ms_list [OF ms(1)] grows_def)
  ultimately show ?thesis using evolves_trans [OF g'(2)] by blast
qed

lemma log_message_valid:
  assumes "log_inv l" "i < log_size l"
  shows "data_valid (gossip_data_log_create_message (messages l ! i))"
    "unat (log_data_size (messages l ! i)) \<le> 512"
proof -
  have "i < length (messages l)" using assms by (auto simp: log_inv_def)
  then have r: "messages l ! i \<in> set (take (log_size l) (messages l))" "messages l ! i \<in> set (messages l)"
    using assms(2) by (auto simp: in_set_conv_nth)
  then show n: "unat (log_data_size (messages l ! i)) \<le> 512" using assms(1) by (auto simp: log_inv_def)
  have "length (log_data (messages l ! i)) = 512" using r assms(1) by (auto simp: log_inv_def log_record_ok_def)
  with n show "data_valid (gossip_data_log_create_message (messages l ! i))"
    by (simp add: data_valid_def gossip_data_log_create_message_def memcpy_src_def mem_read_def)
qed

lemma log_message_logged:
  assumes "log_inv l" "i < log_size l"
  defines "m \<equiv> gossip_data_log_create_message (messages l ! i)"
  shows "log_map l (member_id (data_record m)) = Some (sequence_number (data_record m), payload m)"
proof -
  let ?r = "messages l ! i"
  have n: "log_size l \<le> length (messages l)" and d: "distinct (map log_key (take (log_size l) (messages l)))"
    using assms(1) by (auto simp: log_inv_def)
  then have "table_map log_key (log_size l) (messages l) (log_key ?r) = Some ?r"
    using table_map_Some_iff [OF d n] assms(2) by auto
  moreover have "payload m = take (unat (log_data_size ?r)) (log_data ?r)"
    using payload_Some(1) [OF log_message_valid(1) [OF assms(1,2)]]
    by (auto simp: m_def gossip_data_log_create_message_def memcpy_src_def mem_read_def split: if_splits)
  ultimately show ?thesis
    by (simp add: m_def log_map_def log_entry_def log_key_def gossip_data_log_create_message_def vector_clock_record_copy_def)
qed

text \<open>
  Answering a node that is behind: whatever happens the invariant holds; a logged payload that
  does not fit a message ends the answer with an error.
\<close>

lemma send_data_log_ok:
  assumes "gossip_inv L g" "dest_ok L to len" "vc_bounded c" "\<forall>i \<in> set is. i < log_size (gossip_log g)" "0 \<le> res"
  shows "\<exists>r g'. send_data_log g c to len is res = Some (r, g') \<and> evolves L g g' \<and> same_node g g'"
  using assms
proof (induction "is" arbitrary: g res)
  case Nil
  then show ?case by auto
next
  case (Cons i "is")
  have l: "log_inv (gossip_log g)" using Cons.prems(1) by (simp add: gossip_inv_def)
  then have i: "i < length (messages (gossip_log g))" "i < log_size (gossip_log g)"
    using Cons.prems(4) by (auto simp: log_inv_def)
  let ?r = "messages (gossip_log g) ! i"
  let ?m = "gossip_data_log_create_message ?r"
  obtain v where v: "vector_clock_compare_with_record c (log_version ?r) False = Some (v, c)"
    using compare_with_record_bounded [OF Cons.prems(3)] by blast
  show ?case
  proof (cases "v = VC_BEFORE")
    case True
    have m: "message_ok L MESSAGE_DATA_TYPE (Data ?m)" using log_message_valid [OF l i(2)] by simp
    from gossip_enqueue_message_ok [OF Cons.prems(1) this, of GOSSIP_DIRECT to len] Cons.prems(2)
    obtain as g1 where g1: "gossip_enqueue_message g MESSAGE_DATA_TYPE (Data ?m) to len GOSSIP_DIRECT =
        Some (if message_fits (Data ?m) then 0 else err_code PITTACUS_ERR_BUFFER_NOT_ENOUGH, g1)"
      "enqueued L g (Data ?m) as g1"
      by (auto simp: dest_ok_def split: if_splits)
    note inv1 = enqueued_inv [OF g1(2)]
    have ev: "evolves L g g1" using evolves_queue [OF m _ g1(2)] log_message_logged [OF l i(2)] by (simp add: logged_def)
    show ?thesis
    proof (cases "message_fits (Data ?m)")
      case fits: True
      have "\<forall>j \<in> set is. j < log_size (gossip_log g1)"
        using Cons.prems(4) inv1 by (simp add: same_node_def)
      then obtain r g' where "send_data_log g1 c to len is 0 = Some (r, g')" "evolves L g1 g'" "same_node g1 g'"
        using Cons.IH [of g1 0] inv1 Cons.prems by auto
      then show ?thesis
        using True v i g1(1) fits inv1 evolves_trans [OF _ ev, of g'] by (auto simp: arr_get_in intro: same_node_trans)
    next
      case False
      then show ?thesis using True v i g1(1) inv1 ev by (auto simp: arr_get_in)
    qed
  next
    case False
    then show ?thesis using Cons v i by (simp add: arr_get_in)
  qed
qed

lemma gossip_enqueue_data_log_ok:
  assumes "gossip_inv L g" "dest_ok L to len" "vc_bounded c"
  shows "\<exists>r g'. gossip_enqueue_data_log g c to len = Some (r, g') \<and> evolves L g g' \<and> same_node g g'"
  unfolding gossip_enqueue_data_log_def using assms by (intro send_data_log_ok) auto

text \<open>The originator id of a node.\<close>

definition self_id :: "pittacus_gossip \<Rightarrow> member_id_t" where
  "self_id g = the (vector_clock_create_member_id (self_address g))"

lemma self_id_defined:
  assumes "gossip_inv L g"
  shows "vector_clock_create_member_id (self_address g) = Some (self_id g)"
proof -
  obtain a where "address (self_address g) = Some a" "12 \<le> length a"
    using assms by (auto simp: gossip_inv_def member_fam_def elim!: member_okE)
  then show ?thesis by (simp add: self_id_def vector_clock_create_member_id_def mem_read_def Let_def)
qed

text \<open>
  Publishing data: the counter goes up, the node's version and its log get the new entry, and the
  message is queued for random members, unless it is too long for a message, in which case only
  the error tells.
\<close>

lemma gossip_enqueue_data_ok:
  assumes inv: "gossip_inv L g" and p: "memcpy_src bytes (unat n) = Some p" and n: "unat n \<le> MESSAGE_MAX_SIZE"
  shows "\<exists>g1 m as g'. gossip_enqueue_data g bytes n =
             Some (if 26 + unat n \<le> MESSAGE_MAX_SIZE then 0 else err_code PITTACUS_ERR_BUFFER_NOT_ENOUGH, g')
       \<and> enqueued L g1 (Data m) (if 26 + unat n \<le> MESSAGE_MAX_SIZE then as else []) g'
       \<and> targets_ok g None 0 GOSSIP_RANDOM as
       \<and> data_record m = \<lparr>sequence_number = data_counter g + 1, member_id = self_id g\<rparr> \<and> payload m = p \<and> data_valid m
       \<and> g1 = g\<lparr>data_counter := data_counter g + 1, data_version := data_version g', gossip_log := gossip_log g'\<rparr>
       \<and> vc_map (data_version g') = (vc_evict (vc_victim (data_version g) (self_id g)) (vc_map (data_version g)))
            (self_id g \<mapsto> data_counter g + 1)
       \<and> log_map (gossip_log g') = (evict (log_victim (gossip_log g) (self_id g)) (log_map (gossip_log g)))
            (self_id g \<mapsto> (data_counter g + 1, p))"
proof -
  let ?k = "data_counter g + 1"
  have vc: "vc_inv (data_version g)" and log: "log_inv (gossip_log g)" using inv by (auto simp: gossip_inv_def)
  obtain i c where c: "vector_clock_set_by_id (data_version g) (self_id g) ?k = Some (i, c)" "vc_inv c"
    "vc_map c = (vc_evict (vc_victim (data_version g) (self_id g)) (vc_map (data_version g)))(self_id g \<mapsto> ?k)"
    "i < vc_size c" "records c ! i = \<lparr>sequence_number = ?k, member_id = self_id g\<rparr>"
    using vector_clock_set_by_id_ok [OF vc, of "self_id g" ?k] by blast
  let ?r = "\<lparr>sequence_number = ?k, member_id = self_id g\<rparr>"
  let ?m = "\<lparr>data_header = message_header_init MESSAGE_DATA_TYPE 0, data_record = ?r, data_size = n, data = bytes\<rparr>"
  have v: "data_valid ?m" "payload ?m = p" using p by (simp_all add: data_valid_def payload_def)
  have "\<exists>l. gossip_data_log (gossip_log g) ?m = Some l \<and> log_inv l
      \<and> log_map l = (evict (log_victim (gossip_log g) (self_id g)) (log_map (gossip_log g)))(self_id g \<mapsto> (?k, p))"
    using gossip_data_log_ok [OF log v(1)] n v(2) by simp
  then obtain l where l: "gossip_data_log (gossip_log g) ?m = Some l" "log_inv l"
    "log_map l = (evict (log_victim (gossip_log g) (self_id g)) (log_map (gossip_log g)))(self_id g \<mapsto> (?k, p))"
    by blast
  let ?g1 = "g\<lparr>data_counter := ?k, data_version := c, gossip_log := l\<rparr>"
  have inv1: "gossip_inv L ?g1" using inv c(2) l(2) by (simp add: gossip_inv_def)
  have "message_ok L MESSAGE_DATA_TYPE (Data ?m)" using v by simp
  from gossip_enqueue_message_ok [OF inv1 this, of GOSSIP_RANDOM None 0] obtain as g' where
    g': "gossip_enqueue_message ?g1 MESSAGE_DATA_TYPE (Data ?m) None 0 GOSSIP_RANDOM =
       Some (if 26 + unat n \<le> MESSAGE_MAX_SIZE then 0 else err_code PITTACUS_ERR_BUFFER_NOT_ENOUGH, g')"
    "enqueued L ?g1 (Data ?m) (if 26 + unat n \<le> MESSAGE_MAX_SIZE then as else []) g'"
    "targets_ok ?g1 None 0 GOSSIP_RANDOM as" by auto
  have same: "data_version g' = c" "gossip_log g' = l" using enqueued_inv [OF g'(2)] by (auto simp: same_node_def)
  have "i < length (records c)" using c(2,4) by (simp add: vc_inv_def vc_wf_def)
  then have "gossip_enqueue_data g bytes n =
      Some (if 26 + unat n \<le> MESSAGE_MAX_SIZE then 0 else err_code PITTACUS_ERR_BUFFER_NOT_ENOUGH, g')"
    using g'(1) c(1,5) l(1) self_id_defined [OF inv]
    by (simp add: gossip_enqueue_data_def vector_clock_set_def vector_clock_record_copy_def arr_get_in Let_def)
  then show ?thesis
    using g' v c(3) l(3) same by (intro exI [of _ ?g1] exI [of _ ?m] exI [of _ as] exI [of _ g']) simp
qed

section \<open>Properties\<close>

text \<open>A connected node that knows one member and has nothing queued.\<close>

definition ex_node :: pittacus_gossip where
  "ex_node = \<lparr>socket = 3, input_buffer = replicate 512 0, output_buffer = replicate 51200 0,
     output_buffer_offset = 0, outbound_messages = [], gossip_sequence_num = 0, data_counter = 0,
     data_version = ex_clock [(1, 5)], state = STATE_CONNECTED, self_address = ex_member\<lparr>uid := 9\<rparr>,
     members = ex_set, gossip_log = ex_log, last_gossip_ts = 0, genv = ex_env\<rparr>"

lemma ex_node_inv [simp]: "gossip_inv 16 ex_node"
  by (simp add: gossip_inv_def ex_node_def member_fam_def member_ok_def [of "_\<lparr>uid := _\<rparr>"])
     (simp add: ex_member_def ex_addr_def)

lemma ex_dest [simp]: "dest_ok 16 (Some ex_addr) 16"
  by (simp add: dest_ok_def)

text \<open>Every region is in use, and the first region twice: by an envelope sent once and, behind it, by
  one sent twice.\<close>

definition ex_full :: "envelope list" where
  "ex_full = [(ex_envelope 1)\<lparr>env_buffer := 0, attempt_num := 1\<rparr>] @ (ex_envelope 2)\<lparr>env_buffer := 0, attempt_num := 2\<rparr>
     # map (\<lambda>i. (ex_envelope 3)\<lparr>env_buffer := i * 512\<rparr>) [1..<100]"

text \<open>C28. The region chosen for the next message is one of the 100 regions of the output buffer. While
  fewer than 100 envelopes are queued none of them uses it and none is removed; with a full queue
  whose envelopes of one message stand together, the earlier ones not sent less often than the later
  ones, none of the envelopes that stay queued uses it.\<close>

theorem output_region_available:
  assumes "\<forall>x \<in> set (outbound_messages g). region_ok (env_buffer x)"
  shows "\<exists>off q. gossip_find_available_output_buffer g = Some (off, g\<lparr>outbound_messages := q\<rparr>)
           \<and> region_ok off \<and> set q \<subseteq> set (outbound_messages g)
           \<and> (regions_ordered (outbound_messages g) \<longrightarrow> (\<forall>x \<in> set q. env_buffer x \<noteq> off))
           \<and> (length (outbound_messages g) < MAX_OUTPUT_MESSAGES \<longrightarrow>
                q = outbound_messages g \<and> (\<forall>x \<in> set q. env_buffer x \<noteq> off))"
  using gossip_find_available_output_buffer_ok [OF assms] .

theorem output_region_available_witness:
  "\<exists>off q. gossip_find_available_output_buffer (ex_node\<lparr>outbound_messages := [ex_envelope 1]\<rparr>)
        = Some (off, ex_node\<lparr>outbound_messages := [ex_envelope 1]\<rparr>\<lparr>outbound_messages := q\<rparr>)
     \<and> region_ok off \<and> set q \<subseteq> set (outbound_messages (ex_node\<lparr>outbound_messages := [ex_envelope 1]\<rparr>))
     \<and> (regions_ordered (outbound_messages (ex_node\<lparr>outbound_messages := [ex_envelope 1]\<rparr>)) \<longrightarrow>
          (\<forall>x \<in> set q. env_buffer x \<noteq> off))
     \<and> (length (outbound_messages (ex_node\<lparr>outbound_messages := [ex_envelope 1]\<rparr>)) < MAX_OUTPUT_MESSAGES \<longrightarrow>
          q = outbound_messages (ex_node\<lparr>outbound_messages := [ex_envelope 1]\<rparr>) \<and> (\<forall>x \<in> set q. env_buffer x \<noteq> off))"
  by (rule output_region_available) (simp add: region_ok_def ex_envelope_def)

lemma find_output_buffer_evicts:
  assumes "outbound_messages g = xs @ y # zs" "\<forall>x \<in> set (outbound_messages g). region_ok (env_buffer x)"
    "\<forall>i < MAX_OUTPUT_MESSAGES. \<exists>x \<in> set (outbound_messages g). env_buffer x = i * MESSAGE_MAX_SIZE"
    "\<forall>x \<in> set xs. attempt_num x < attempt_num y" "\<forall>z \<in> set zs. attempt_num z \<le> attempt_num y"
  shows "gossip_find_available_output_buffer g =
           Some (env_buffer y, g\<lparr>outbound_messages := xs @ dropWhile (\<lambda>z. env_buffer z = env_buffer y) zs\<rparr>)"
proof -
  let ?q = "outbound_messages g"
  have "\<forall>x \<in> set ?q. env_buffer x div MESSAGE_MAX_SIZE < length (replicate MAX_OUTPUT_MESSAGES False)"
    using assms(2) region_div by auto
  then obtain oldest occ where scan: "scan_outbound ?q 0 None (replicate MAX_OUTPUT_MESSAGES False) = Some (oldest, occ)"
    "oldest_ok ?q oldest" "length occ = MAX_OUTPUT_MESSAGES"
    and occ: "\<forall>k < MAX_OUTPUT_MESSAGES. occ ! k \<longleftrightarrow> (\<exists>x \<in> set ?q. env_buffer x div MESSAGE_MAX_SIZE = k)"
    using scan_outbound_ok [of "[]" None ?q "replicate MAX_OUTPUT_MESSAGES False"] by (auto simp: oldest_ok_def)
  have "\<forall>k < MAX_OUTPUT_MESSAGES. occ ! k" using occ assms(3) by fastforce
  then have free: "find_loop 0 MAX_OUTPUT_MESSAGES (\<lambda>i. do { b \<leftarrow> arr_get occ i; Some (\<not> b) }) = Some None"
    using find_loop_eq_find [of 0 MAX_OUTPUT_MESSAGES "\<lambda>i. do { b \<leftarrow> arr_get occ i; Some (\<not> b) }" "\<lambda>i. \<not> occ ! i"] scan(3)
    by (simp add: arr_get_in find_upt_None_iff)
  have "oldest = Some (length xs, y)"
    using oldest_ok_unique [of xs y zs oldest] scan(2) assms by simp
  then show ?thesis
    using scan(1) free assms(1) by (simp add: gossip_find_available_output_buffer_def Let_def)
qed

text \<open>C29. When all regions are in use, the region of the envelope sent most often (the first of them)
  is taken, and exactly that envelope and the run of envelopes behind it with the same region are
  removed. A message that a valid node queues then is written there. So an envelope before the removed ones
  with the same region, which stays queued, is left with the bytes of the new message.\<close>

theorem output_region_eviction:
  assumes "outbound_messages g = xs @ y # zs" "\<forall>x \<in> set (outbound_messages g). region_ok (env_buffer x)"
    "\<forall>i < MAX_OUTPUT_MESSAGES. \<exists>x \<in> set (outbound_messages g). env_buffer x = i * MESSAGE_MAX_SIZE"
    "\<forall>x \<in> set xs. attempt_num x < attempt_num y" "\<forall>z \<in> set zs. attempt_num z \<le> attempt_num y"
  shows "gossip_find_available_output_buffer g =
           Some (env_buffer y, g\<lparr>outbound_messages := xs @ dropWhile (\<lambda>z. env_buffer z = env_buffer y) zs\<rparr>)
     \<and> (\<forall>L t m to len sp. gossip_inv L g \<and> message_ok L t m \<and> message_fits m \<and> (sp = GOSSIP_DIRECT \<longrightarrow> dest_ok L to len) \<longrightarrow>
         (\<exists>g' new. gossip_enqueue_message g t m to len sp = Some (0, g')
            \<and> outbound_messages g' = xs @ dropWhile (\<lambda>z. env_buffer z = env_buffer y) zs @ new
            \<and> (\<forall>x \<in> set xs. env_buffer x = env_buffer y \<longrightarrow>
                 take (length (message_bytes m)) (drop (env_buffer x) (output_buffer g')) = message_bytes m)))"
proof -
  let ?q = "xs @ dropWhile (\<lambda>z. env_buffer z = env_buffer y) zs"
  note evict = find_output_buffer_evicts [OF assms]
  then have upd: "gossip_update_output_buffer_offset g = Some (env_buffer y, g\<lparr>outbound_messages := ?q, output_buffer_offset := env_buffer y\<rparr>)"
    using assms(1) by (simp add: gossip_update_output_buffer_offset_def)
  have "\<exists>g' new. gossip_enqueue_message g t m to len sp = Some (0, g') \<and> outbound_messages g' = ?q @ new
      \<and> take (length (message_bytes m)) (drop (env_buffer y) (output_buffer g')) = message_bytes m"
    if inv: "gossip_inv L g" and m: "message_ok L t m" "message_fits m" and dest: "sp = GOSSIP_DIRECT \<longrightarrow> dest_ok L to len"
    for L t m to len sp
  proof -
    have off: "region_ok (env_buffer y)" "set ?q \<subseteq> set (outbound_messages g)"
      using assms(1,2) by (auto dest: set_dropWhileD)
    have d: "sp = GOSSIP_DIRECT \<Longrightarrow> \<exists>bs. to = Some bs \<and> L \<le> length bs \<and> unat len = L"
      using dest by (auto simp: dest_ok_def)
    obtain as e out' where
      w: "mem_write (output_buffer g) (env_buffer y) (message_bytes m) = Some out'"
      and run: "gossip_enqueue_message g t m to len sp = Some (0, g\<lparr>output_buffer_offset := env_buffer y, output_buffer := out',
         gossip_sequence_num := gossip_sequence_num g + of_nat (length as), genv := e, outbound_messages := ?q @
           new_envelopes (env_buffer y) (length (message_bytes m)) (message_attempts m) (gossip_sequence_num g) as\<rparr>)"
      using enqueue_fitting [OF inv m d upd off] by metis
    then show ?thesis using region_same [OF w] by simp
  qed
  then have "\<forall>L t m to len sp. gossip_inv L g \<and> message_ok L t m \<and> message_fits m \<and> (sp = GOSSIP_DIRECT \<longrightarrow> dest_ok L to len) \<longrightarrow>
      (\<exists>g' new. gossip_enqueue_message g t m to len sp = Some (0, g') \<and> outbound_messages g' = ?q @ new
        \<and> take (length (message_bytes m)) (drop (env_buffer y) (output_buffer g')) = message_bytes m)" by blast
  then show ?thesis using evict by (simp only: append_assoc) (metis (no_types, lifting))
qed

text \<open>
  All 100 regions are in use; the envelope 1 shares the first one with the envelope 2, which was sent twice. A hello
  that is queued then overwrites the message of envelope 1.
\<close>

theorem output_region_eviction_witness:
  "\<exists>g' new. gossip_enqueue_message (ex_node\<lparr>outbound_messages := ex_full\<rparr>) MESSAGE_HELLO_TYPE (Hello ex_hello) (Some ex_addr) 16
        GOSSIP_DIRECT = Some (0, g')
     \<and> outbound_messages g' = [(ex_envelope 1)\<lparr>env_buffer := 0, attempt_num := 1\<rparr>]
          @ map (\<lambda>i. (ex_envelope 3)\<lparr>env_buffer := i * 512\<rparr>) [1..<100] @ new
     \<and> take (length (message_bytes (Hello ex_hello))) (output_buffer g') = message_bytes (Hello ex_hello)"
proof -
  let ?g = "ex_node\<lparr>outbound_messages := ex_full\<rparr>" and ?y = "(ex_envelope 2)\<lparr>env_buffer := 0, attempt_num := 2\<rparr>"
    and ?xs = "[(ex_envelope 1)\<lparr>env_buffer := 0, attempt_num := 1\<rparr>]" and ?zs = "map (\<lambda>i. (ex_envelope 3)\<lparr>env_buffer := i * 512\<rparr>) [1..<100]"
  have q: "outbound_messages ?g = ?xs @ ?y # ?zs" by (simp add: ex_full_def)
  have ok: "\<forall>x \<in> set (outbound_messages ?g). region_ok (env_buffer x)"
    by (auto simp: ex_full_def ex_envelope_def region_ok_def)
  have used: "\<forall>i < MAX_OUTPUT_MESSAGES. \<exists>x \<in> set (outbound_messages ?g). env_buffer x = i * MESSAGE_MAX_SIZE"
    by (auto simp: ex_full_def image_iff less_Suc_eq_0_disj intro: bexI)
  have most: "\<forall>x \<in> set ?xs. attempt_num x < attempt_num ?y" "\<forall>z \<in> set ?zs. attempt_num z \<le> attempt_num ?y"
    by (auto simp: ex_envelope_def)
  have "dropWhile (\<lambda>z. env_buffer z = env_buffer ?y) ?zs = ?zs" by (simp add: upt_conv_Cons)
  moreover have "gossip_inv 16 ?g" using ex_node_inv by (auto simp: gossip_inv_def ex_full_def ex_envelope_def envelope_ok_def region_ok_def)
  moreover have "message_ok 16 MESSAGE_HELLO_TYPE (Hello ex_hello)" "message_fits (Hello ex_hello)"
    "GOSSIP_DIRECT = GOSSIP_DIRECT \<longrightarrow> dest_ok 16 (Some ex_addr) 16" by simp_all
  ultimately obtain g' new where "gossip_enqueue_message ?g MESSAGE_HELLO_TYPE (Hello ex_hello) (Some ex_addr) 16 GOSSIP_DIRECT = Some (0, g')"
    "outbound_messages g' = ?xs @ ?zs @ new"
    "\<forall>x \<in> set ?xs. env_buffer x = env_buffer ?y \<longrightarrow>
       take (length (message_bytes (Hello ex_hello))) (drop (env_buffer x) (output_buffer g')) = message_bytes (Hello ex_hello)"
    using conjunct2 [OF output_region_eviction [OF q ok used most]] by metis
  then show ?thesis by (intro exI [of _ g'] exI [of _ new]) simp
qed



text \<open>C16. Publishing a readable payload of at most 512 bytes: the node's data counter goes up, its
  version and its log hold the new number and payload under its own id, and the message is queued for
  random members. A payload of more than 486 bytes is counted, versioned and logged as well, but the
  call fails and queues nothing.\<close>

theorem publish_data_effect:
  assumes "gossip_inv L g" "memcpy_src bytes (unat n) = Some p" "unat n \<le> MESSAGE_MAX_SIZE"
  shows "\<exists>g1 m as g'. gossip_enqueue_data g bytes n =
             Some (if 26 + unat n \<le> MESSAGE_MAX_SIZE then 0 else err_code PITTACUS_ERR_BUFFER_NOT_ENOUGH, g')
       \<and> enqueued L g1 (Data m) (if 26 + unat n \<le> MESSAGE_MAX_SIZE then as else []) g'
       \<and> targets_ok g None 0 GOSSIP_RANDOM as
       \<and> data_record m = \<lparr>sequence_number = data_counter g + 1, member_id = self_id g\<rparr> \<and> payload m = p \<and> data_valid m
       \<and> g1 = g\<lparr>data_counter := data_counter g + 1, data_version := data_version g', gossip_log := gossip_log g'\<rparr>
       \<and> vc_map (data_version g') = (vc_evict (vc_victim (data_version g) (self_id g)) (vc_map (data_version g)))
            (self_id g \<mapsto> data_counter g + 1)
       \<and> log_map (gossip_log g') = (evict (log_victim (gossip_log g) (self_id g)) (log_map (gossip_log g)))
            (self_id g \<mapsto> (data_counter g + 1, p))"
  using gossip_enqueue_data_ok [OF assms] .

theorem publish_data_effect_witness:
  "\<exists>g1 m as g'. gossip_enqueue_data ex_node (Some (replicate 500 1)) 500 =
       Some (if 26 + unat (500 :: u16) \<le> MESSAGE_MAX_SIZE then 0 else err_code PITTACUS_ERR_BUFFER_NOT_ENOUGH, g')
     \<and> enqueued 16 g1 (Data m) (if 26 + unat (500 :: u16) \<le> MESSAGE_MAX_SIZE then as else []) g'
     \<and> targets_ok ex_node None 0 GOSSIP_RANDOM as
     \<and> data_record m = \<lparr>sequence_number = data_counter ex_node + 1, member_id = self_id ex_node\<rparr>
     \<and> payload m = replicate 500 1 \<and> data_valid m
     \<and> g1 = ex_node\<lparr>data_counter := data_counter ex_node + 1, data_version := data_version g', gossip_log := gossip_log g'\<rparr>
     \<and> vc_map (data_version g') = (vc_evict (vc_victim (data_version ex_node) (self_id ex_node)) (vc_map (data_version ex_node)))
          (self_id ex_node \<mapsto> data_counter ex_node + 1)
     \<and> log_map (gossip_log g') = (evict (log_victim (gossip_log ex_node) (self_id ex_node)) (log_map (gossip_log ex_node)))
          (self_id ex_node \<mapsto> (data_counter ex_node + 1, replicate 500 1))"
  by (rule publish_data_effect) (simp_all add: memcpy_src_def mem_read_def)

end
