(* ===== verification/Pt_Handlers.thy ===== *)
theory Pt_Handlers
  imports Pt_Gossip "HOL-Library.Sublist"
begin

text \<open>
  The handlers of \<^verbatim>\<open>gossip.c\<close>: what a node does with a message that arrived.

  The user's callback \<^verbatim>\<open>data_receiver\<close> is a parameter: it gets the descriptor, the payload and its
  size, and may change the descriptor (by calling the library again). \<open>None\<close> in its place is a
  \<^verbatim>\<open>NULL\<close> callback.
\<close>

record message_envelope_in =
  sender :: "u8 list"
  sender_len :: u32
  in_buffer :: "u8 list"
  in_buffer_size :: nat

type_synonym data_receiver = "pittacus_gossip \<Rightarrow> u8 list option \<Rightarrow> nat \<Rightarrow> pittacus_gossip option"

text \<open>
  \<^verbatim>\<open>gossip_envelope_find_by_sequence_num\<close> followed by \<^verbatim>\<open>gossip_envelope_remove\<close> of what it found,
  on the list.
\<close>

definition remove_by_sequence_num :: "u32 \<Rightarrow> envelope list \<Rightarrow> envelope list" where
  "remove_by_sequence_num n q = remove_first (\<lambda>x. sequence_num x = n) q"

definition gossip_handle_hello ::
  "pittacus_gossip \<Rightarrow> message_envelope_in \<Rightarrow> (int \<times> pittacus_gossip) option" where
  "gossip_handle_hello self envelope_in =
     (if state self \<noteq> STATE_CONNECTED then Some (err_code PITTACUS_ERR_BAD_STATE, self)
      else do {
        (decode_result, e) \<leftarrow>
          message_hello_decode (genv self) (in_buffer envelope_in) (in_buffer_size envelope_in);
        let self = self\<lparr>genv := e\<rparr>;
        case decode_result of
          Inl err \<Rightarrow> Some (err_code err, self)
        | Inr (_, msg) \<Rightarrow> do {
            (_, self) \<leftarrow> gossip_enqueue_welcome self (header_sequence_num (hello_header msg))
                           (Some (sender envelope_in)) (sender_len envelope_in);
            (_, self) \<leftarrow> (if ms_size (members self) > 0
               then gossip_enqueue_member_list self (Some (sender envelope_in)) (sender_len envelope_in)
               else Some (err_code PITTACUS_ERR_NONE, self));
            (_, self) \<leftarrow> gossip_enqueue_message self MESSAGE_MEMBER_LIST_TYPE
               (Member_List \<lparr>member_list_header = message_header_init MESSAGE_MEMBER_LIST_TYPE 0,
                             members_n = 1, list_members = [hello_this_member msg]\<rparr>)
               None 0 GOSSIP_BROADCAST;
            (_, ms, e) \<leftarrow> cluster_member_set_put (genv self) (members self) [hello_this_member msg];
            Some (err_code PITTACUS_ERR_NONE, self\<lparr>members := ms, genv := e\<rparr>)
          }
      })"

definition gossip_handle_welcome ::
  "pittacus_gossip \<Rightarrow> message_envelope_in \<Rightarrow> (int \<times> pittacus_gossip) option" where
  "gossip_handle_welcome self envelope_in = do {
     (decode_result, e) \<leftarrow>
       message_welcome_decode (genv self) (in_buffer envelope_in) (in_buffer_size envelope_in);
     let self = self\<lparr>genv := e\<rparr>;
     case decode_result of
       Inl err \<Rightarrow> Some (err_code err, self)
     | Inr (_, msg) \<Rightarrow> do {
         let self = self\<lparr>state := STATE_CONNECTED\<rparr>;
         (_, ms, e) \<leftarrow> cluster_member_set_put (genv self) (members self) [welcome_this_member msg];
         let self = self\<lparr>members := ms, genv := e\<rparr>;
         Some (err_code PITTACUS_ERR_NONE, self\<lparr>outbound_messages :=
           remove_by_sequence_num (hello_sequence_num msg) (outbound_messages self)\<rparr>)
       }
   }"

definition gossip_handle_member_list ::
  "pittacus_gossip \<Rightarrow> message_envelope_in \<Rightarrow> (int \<times> pittacus_gossip) option" where
  "gossip_handle_member_list self envelope_in =
     (if state self \<noteq> STATE_CONNECTED then Some (err_code PITTACUS_ERR_BAD_STATE, self)
      else do {
        (decode_result, e) \<leftarrow>
          message_member_list_decode (genv self) (in_buffer envelope_in) (in_buffer_size envelope_in);
        let self = self\<lparr>genv := e\<rparr>;
        case decode_result of
          Inl err \<Rightarrow> Some (err_code err, self)
        | Inr (_, msg) \<Rightarrow> do {
            (_, ms, e) \<leftarrow> cluster_member_set_put (genv self) (members self) (list_members msg);
            let self = self\<lparr>members := ms, genv := e\<rparr>;
            (_, self) \<leftarrow> gossip_enqueue_ack self (header_sequence_num (member_list_header msg))
                           (Some (sender envelope_in)) (sender_len envelope_in);
            Some (err_code PITTACUS_ERR_NONE, self)
          }
      })"

text \<open>
  The payload of the message is a pointer into the input buffer, which the callback may have
  changed when the message is sent on.
\<close>

definition gossip_handle_data ::
  "data_receiver option \<Rightarrow> pittacus_gossip \<Rightarrow> message_envelope_in \<Rightarrow> (int \<times> pittacus_gossip) option" where
  "gossip_handle_data receiver self envelope_in =
     (if state self \<noteq> STATE_CONNECTED then Some (err_code PITTACUS_ERR_BAD_STATE, self)
      else do {
        decode_result \<leftarrow> message_data_decode (in_buffer envelope_in) (in_buffer_size envelope_in);
        case decode_result of
          Inl err \<Rightarrow> Some (err_code err, self)
        | Inr (_, msg) \<Rightarrow> do {
            (_, self) \<leftarrow> gossip_enqueue_ack self (header_sequence_num (data_header msg))
                           (Some (sender envelope_in)) (sender_len envelope_in);
            (res, clock) \<leftarrow> vector_clock_compare_with_record (data_version self) (data_record msg) True;
            let self = self\<lparr>data_version := clock\<rparr>;
            if res = VC_BEFORE then do {
              log \<leftarrow> gossip_data_log (gossip_log self) msg;
              let self = self\<lparr>gossip_log := log\<rparr>;
              self \<leftarrow> (case receiver of
                  None \<Rightarrow> Some self
                | Some f \<Rightarrow> f self (data msg) (unat (data_size msg)));
              let msg = msg\<lparr>data := map_option (\<lambda>_. drop 26 (input_buffer self)) (data msg)\<rparr>;
              gossip_enqueue_message self MESSAGE_DATA_TYPE (Data msg) None 0 GOSSIP_RANDOM
            }
            else Some (err_code PITTACUS_ERR_NONE, self)
          }
      })"

definition gossip_handle_ack ::
  "pittacus_gossip \<Rightarrow> message_envelope_in \<Rightarrow> (int \<times> pittacus_gossip) option" where
  "gossip_handle_ack self envelope_in =
     (if state self \<noteq> STATE_CONNECTED then Some (err_code PITTACUS_ERR_BAD_STATE, self)
      else do {
        decode_result \<leftarrow> message_ack_decode (in_buffer envelope_in) (in_buffer_size envelope_in);
        case decode_result of
          Inl err \<Rightarrow> Some (err_code err, self)
        | Inr (_, msg) \<Rightarrow> Some (err_code PITTACUS_ERR_NONE, self\<lparr>outbound_messages :=
            remove_by_sequence_num (ack_sequence_num msg) (outbound_messages self)\<rparr>)
      })"

definition gossip_handle_status ::
  "pittacus_gossip \<Rightarrow> message_envelope_in \<Rightarrow> (int \<times> pittacus_gossip) option" where
  "gossip_handle_status self envelope_in =
     (if state self \<noteq> STATE_CONNECTED then Some (err_code PITTACUS_ERR_BAD_STATE, self)
      else do {
        decode_result \<leftarrow>
          message_status_decode (in_buffer envelope_in) (in_buffer_size envelope_in) vector_clock_zero;
        case decode_result of
          Inl err \<Rightarrow> Some (err_code err, self)
        | Inr (_, msg) \<Rightarrow> do {
            let from = Some (sender envelope_in);
            let from_len = sender_len envelope_in;
            (_, self) \<leftarrow> gossip_enqueue_ack self (header_sequence_num (status_header msg)) from from_len;
            (comp_res, _) \<leftarrow> vector_clock_compare (data_version self) (status_version msg) False;
            case comp_res of
              VC_AFTER \<Rightarrow> gossip_enqueue_data_log self (status_version msg) from from_len
            | VC_BEFORE \<Rightarrow> gossip_enqueue_status self from from_len
            | VC_CONFLICT \<Rightarrow> do {
                (result, self) \<leftarrow> gossip_enqueue_data_log self (status_version msg) from from_len;
                if result < 0 then Some (result, self)
                else gossip_enqueue_status self from from_len
              }
            | VC_EQUAL \<Rightarrow> Some (err_code PITTACUS_ERR_NONE, self)
          }
      })"

definition gossip_handle_new_message ::
  "data_receiver option \<Rightarrow> pittacus_gossip \<Rightarrow> message_envelope_in \<Rightarrow> (int \<times> pittacus_gossip) option" where
  "gossip_handle_new_message receiver self envelope_in = do {
     message_type \<leftarrow> message_type_decode (in_buffer envelope_in) (in_buffer_size envelope_in);
     if message_type = Inr MESSAGE_HELLO_TYPE then gossip_handle_hello self envelope_in
     else if message_type = Inr MESSAGE_WELCOME_TYPE then gossip_handle_welcome self envelope_in
     else if message_type = Inr MESSAGE_MEMBER_LIST_TYPE then gossip_handle_member_list self envelope_in
     else if message_type = Inr MESSAGE_DATA_TYPE then gossip_handle_data receiver self envelope_in
     else if message_type = Inr MESSAGE_ACK_TYPE then gossip_handle_ack self envelope_in
     else if message_type = Inr MESSAGE_STATUS_TYPE then gossip_handle_status self envelope_in
     else Some (err_code PITTACUS_ERR_INVALID_MESSAGE, self)
   }"

section \<open>Decoding what arrived\<close>

text \<open>
  A packet lies in the input buffer of 512 bytes, of which \<open>n\<close> were received; behind them are the bytes of
  earlier packets. \<open>packet_ok\<close> says what the decoders and handlers take for granted of the bytes and do not test:

  \<^item> An address in a hello, in a welcome or in a member list that is not refused has the length \<open>L\<close> of the
    cluster's family.
  \<^item> A clock whose records were all received has no more records than the array of a clock.
  \<^item> The members of a list that the decoder comes to end within the input buffer (\<open>members_within\<close>). The
    decoder stops where the received bytes end within the 10 bytes before an address (\<open>list_cut\<close>); once an
    address has taken it past the received bytes the remaining size wraps, and it goes on through the old bytes.

  The conditions speak of the numbers that stand in the buffer, not of the decoders.
\<close>

fun members_within :: "u8 list \<Rightarrow> nat \<Rightarrow> nat \<Rightarrow> nat \<Rightarrow> bool" where
  "members_within buf n 0 cur \<longleftrightarrow> True"
| "members_within buf n (Suc k) cur \<longleftrightarrow> cur \<le> n \<and> n < cur + 10
     \<or> cur + 10 + u32_at buf (cur + 6) \<le> length buf \<and> members_within buf n k (cur + 10 + u32_at buf (cur + 6))"

fun list_cut :: "u8 list \<Rightarrow> nat \<Rightarrow> nat \<Rightarrow> nat \<Rightarrow> bool" where
  "list_cut buf n 0 cur \<longleftrightarrow> False"
| "list_cut buf n (Suc k) cur \<longleftrightarrow> cur \<le> n \<and> n < cur + 10 \<or> list_cut buf n k (cur + 10 + u32_at buf (cur + 6))"

fun announced_lengths :: "u8 list \<Rightarrow> nat \<Rightarrow> nat \<Rightarrow> nat list" where
  "announced_lengths buf 0 cur = []"
| "announced_lengths buf (Suc k) cur = u32_at buf (cur + 6) # announced_lengths buf k (cur + 10 + u32_at buf (cur + 6))"

definition packet_ok :: "nat \<Rightarrow> u8 list \<Rightarrow> nat \<Rightarrow> bool" where
  "packet_ok L buf n \<longleftrightarrow>
     (buf ! 5 = MESSAGE_HELLO_TYPE \<and> 28 \<le> n \<longrightarrow> u32_at buf 18 = L \<and> 22 + L \<le> length buf)
     \<and> (buf ! 5 = MESSAGE_WELCOME_TYPE \<and> 32 \<le> n \<longrightarrow> u32_at buf 22 = L \<and> 26 + L \<le> length buf)
     \<and> (buf ! 5 = MESSAGE_MEMBER_LIST_TYPE \<and> 14 \<le> n \<longrightarrow> members_within buf n (u16_at buf 12) 14
          \<and> (list_cut buf n (u16_at buf 12) 14 \<or> (\<forall>l \<in> set (announced_lengths buf (u16_at buf 12) 14). l = L)))
     \<and> (buf ! 5 = MESSAGE_STATUS_TYPE \<and> 14 + 12 * u16_at buf 12 \<le> n \<longrightarrow> u16_at buf 12 \<le> MAX_VECTOR_SIZE)"

text \<open>The input buffer and the number of bytes received.\<close>

definition received :: "u8 list \<Rightarrow> nat \<Rightarrow> bool" where
  "received buf n \<longleftrightarrow> length buf = INPUT_BUFFER_SIZE \<and> n \<le> INPUT_BUFFER_SIZE"

lemma header_decode_received:
  assumes "received buf n" "12 \<le> n"
  shows "\<exists>h. message_header_decode buf n = Some (Inr (12, h)) \<and> protocol_id h = take 5 buf \<and> message_type h = buf ! 5"
  using assms
  by (simp add: received_def message_header_decode_def mem_read_def arr_get_in uint16_decode_def uint32_decode_def)

lemma valid_received:
  "received buf n \<Longrightarrow> message_is_payload_valid buf n t = Some (12 \<le> n \<and> buf ! 5 = t \<and> take 5 buf = PROTOCOL_ID)"
  by (intro message_is_payload_valid_iff) (simp add: received_def)

text \<open>One member of the buffer, and the members of a list, are decoded exactly as far as they lie in the buffer.\<close>

lemma cluster_member_decode_at:
  assumes "length buf = INPUT_BUFFER_SIZE" "cur \<le> INPUT_BUFFER_SIZE" "n \<le> INPUT_BUFFER_SIZE"
  defines "r \<equiv> cluster_member_decode (drop cur buf) (size_of_diff (int n - int cur))" and "len \<equiv> u32_at buf (cur + 6)"
  shows "cur \<le> n \<Longrightarrow> n < cur + 10 \<Longrightarrow> r = Some (Inl PITTACUS_ERR_BUFFER_NOT_ENOUGH)"
    "\<not> (cur \<le> n \<and> n < cur + 10) \<Longrightarrow> cur + 10 + len \<le> INPUT_BUFFER_SIZE \<Longrightarrow>
       \<exists>m. r = Some (Inr (10 + len, m)) \<and> member_ok m \<and> unat (address_len m) = len"
    "\<not> (cur \<le> n \<and> n < cur + 10) \<Longrightarrow> \<not> cur + 10 + len \<le> INPUT_BUFFER_SIZE \<Longrightarrow> r = None"
proof -
  let ?d = "size_of_diff (int n - int cur)"
  have d: "?d < 10 \<longleftrightarrow> cur \<le> n \<and> n < cur + 10"
  proof (cases "cur \<le> n")
    case True
    then show ?thesis using assms(3) by (auto simp: nat_diff_distrib simp flip: of_nat_diff)
  next
    case False
    then show ?thesis using assms(2) by (simp add: size_of_diff_neg)
  qed
  show "cur \<le> n \<Longrightarrow> n < cur + 10 \<Longrightarrow> r = Some (Inl PITTACUS_ERR_BUFFER_NOT_ENOUGH)"
    using d by (simp add: r_def cluster_member_decode_def)
  show "\<exists>m. r = Some (Inr (10 + len, m)) \<and> member_ok m \<and> unat (address_len m) = len"
    if late: "\<not> (cur \<le> n \<and> n < cur + 10)" and fits: "cur + 10 + len \<le> INPUT_BUFFER_SIZE"
  proof -
    have len10: "10 \<le> length (drop cur buf)" using assms(1) fits by simp
    obtain v where "uint16_decode (drop cur buf) 0 = Some v" using uint16_decode_defined [of 0 "drop cur buf"] len10 by auto
    moreover obtain u where "uint32_decode (drop cur buf) 2 = Some u" using uint32_decode_defined [of 2 "drop cur buf"] len10 by auto
    moreover obtain l where "uint32_decode (drop cur buf) 6 = Some l" "unat l = len"
      using uint32_decode_at [of 6 "drop cur buf"] len10 by (auto simp: len_def)
    ultimately show ?thesis using late fits d assms(1)
      by (auto simp: r_def cluster_member_decode_def member_ok_def Let_def)
  qed
  show "r = None" if "\<not> (cur \<le> n \<and> n < cur + 10)" "\<not> cur + 10 + len \<le> INPUT_BUFFER_SIZE"
    using that d assms(1) at_decode(2) [of "drop cur buf" 6]
    by (auto simp: r_def cluster_member_decode_def len_def Let_def split: Option.bind_splits)
qed


lemma decode_members_at:
  assumes "length buf = INPUT_BUFFER_SIZE" "n \<le> INPUT_BUFFER_SIZE" "cur \<le> INPUT_BUFFER_SIZE"
  shows "if members_within buf n k cur
    then if list_cut buf n k cur then decode_members buf n k cur acc = Some (Inl PITTACUS_ERR_BUFFER_NOT_ENOUGH)
      else \<exists>c ms. decode_members buf n k cur acc = Some (Inr (c, acc @ ms)) \<and> (\<forall>m \<in> set ms. member_ok m)
        \<and> map (\<lambda>m. unat (address_len m)) ms = announced_lengths buf k cur
    else decode_members buf n k cur acc = None"
  using assms(3)
proof (induction k arbitrary: cur acc)
  case (Suc k)
  note member = cluster_member_decode_at [OF assms(1) Suc.prems assms(2)]
  show ?case
  proof (cases "cur \<le> n \<and> n < cur + 10")
    case True
    then show ?thesis using member(1) by simp
  next
    case False
    let ?next = "cur + 10 + u32_at buf (cur + 6)"
    show ?thesis
    proof (cases "?next \<le> INPUT_BUFFER_SIZE")
      case True
      obtain m where m: "cluster_member_decode (drop cur buf) (size_of_diff (int n - int cur)) = Some (Inr (10 + u32_at buf (cur + 6), m))"
        "member_ok m" "unat (address_len m) = u32_at buf (cur + 6)"
        using member(2) [OF False True] by blast
      show ?thesis using Suc.IH [OF True, of "acc @ [m]"] m False True assms(1)
        by (auto simp: add.assoc split: if_splits intro!: exI [of _ "m # _"])
    next
      case outside: False
      then show ?thesis using member(3) [OF False] False assms(1) by auto
    qed
  qed
qed simp

lemma message_ack_decode_received:
  assumes "received buf n"
  shows "\<exists>r. message_ack_decode buf n = Some r"
proof (cases "12 \<le> n")
  case True
  from header_decode_received [OF assms True] obtain h where "message_header_decode buf n = Some (Inr (12, h))" by blast
  then show ?thesis using assms valid_received [OF assms, of 4]
    by (simp add: message_ack_decode_def received_def uint32_decode_def mem_read_def)
qed (simp add: message_ack_decode_def valid_received [OF assms])

lemma message_data_decode_received:
  assumes "received buf n"
  shows "\<exists>r. message_data_decode buf n = Some r"
proof (cases "12 \<le> n \<and> buf ! 5 = MESSAGE_DATA_TYPE \<and> take 5 buf = PROTOCOL_ID")
  case True
  then obtain h where "message_header_decode buf n = Some (Inr (12, h))" using header_decode_received [OF assms] by blast
  moreover have "\<exists>r. vector_clock_record_decode (drop 12 buf) (n - 12) = Some r \<and> (\<forall>k v. r = Inr (k, v) \<longrightarrow> k = 12)"
    using assms by (simp add: received_def vector_clock_record_decode_def uint32_decode_def mem_read_def)
  ultimately show ?thesis
    using True assms valid_received [OF assms, of MESSAGE_DATA_TYPE]
    by (auto simp: message_data_decode_def received_def uint16_decode_def mem_read_def Let_def split: sum.splits)
qed (auto simp: message_data_decode_def valid_received [OF assms])

lemma message_data_decode_Inr:
  assumes "received buf n" "message_data_decode buf n = Some (Inr (k, m))"
  shows "data_valid m" "26 + unat (data_size m) = n" "k = n"
    "data m = (if data_size m > 0 then Some (drop 26 buf) else None)"
proof -
  have valid: "12 \<le> n" "buf ! 5 = MESSAGE_DATA_TYPE" "take 5 buf = PROTOCOL_ID"
    using assms(2) valid_received [OF assms(1), of MESSAGE_DATA_TYPE]
    by (auto simp: message_data_decode_def split: Option.bind_splits if_splits)
  obtain h where h: "message_header_decode buf n = Some (Inr (12, h))" "protocol_id h = take 5 buf" "message_type h = buf ! 5"
    using header_decode_received [OF assms(1) valid(1)] by blast
  have *: "data_header m = h \<and> 26 + unat (data_size m) = n \<and> k = n
      \<and> data m = (if data_size m > 0 then Some (drop 26 buf) else None)"
    using assms(2) valid h valid_received [OF assms(1), of MESSAGE_DATA_TYPE]
    by (auto simp: message_data_decode_def vector_clock_record_decode_def Let_def
        split: Option.bind_splits if_splits sum.splits)
  then show "26 + unat (data_size m) = n" "k = n"
    "data m = (if data_size m > 0 then Some (drop 26 buf) else None)" by auto
  have "header_ok MESSAGE_DATA_TYPE (data_header m)" using * h valid by (simp add: header_ok_def)
  moreover have "length buf = 512" "n \<le> 512" using assms(1) by (auto simp: received_def)
  ultimately show "data_valid m"
    using * by (auto simp: data_valid_def memcpy_src_def mem_read_def word_gt_0 unat_eq_0 split: if_splits)
qed

text \<open>
  The decoders of the messages with a variable part, on any bytes. \<open>is_message\<close> is what they test first; what
  they do not test decides whether they stay within the buffer and the array.
\<close>

definition is_message :: "u8 \<Rightarrow> u8 list \<Rightarrow> nat \<Rightarrow> bool" where
  "is_message t buf n \<longleftrightarrow> 12 \<le> n \<and> take 5 buf = PROTOCOL_ID \<and> buf ! 5 = t"

lemma valid_message:
  assumes "received buf n"
  shows "message_is_payload_valid buf n t = Some (is_message t buf n)"
  using valid_received [OF assms] by (auto simp: is_message_def)

lemma header_decode_message:
  assumes "received buf n" "is_message t buf n"
  obtains h where "message_header_decode buf n = Some (Inr (12, h))"
  using header_decode_received [OF assms(1)] assms(2) by (auto simp: is_message_def)

lemma message_status_decode_at:
  assumes "received buf n"
  shows "message_status_decode buf n vector_clock_zero \<noteq> None \<longleftrightarrow>
     (is_message MESSAGE_STATUS_TYPE buf n \<and> 14 + 12 * u16_at buf 12 \<le> n \<longrightarrow> u16_at buf 12 \<le> MAX_VECTOR_SIZE)"
    "message_status_decode buf n vector_clock_zero = Some (Inr (k, m)) \<Longrightarrow> vc_bounded (status_version m)"
proof -
  let ?r = "message_status_decode buf n vector_clock_zero" and ?b = "drop 12 buf"
  have "(?r \<noteq> None \<longleftrightarrow> (is_message MESSAGE_STATUS_TYPE buf n \<and> 14 + 12 * u16_at buf 12 \<le> n \<longrightarrow> u16_at buf 12 \<le> MAX_VECTOR_SIZE))
     \<and> (\<forall>k m. ?r = Some (Inr (k, m)) \<longrightarrow> vc_bounded (status_version m))"
  proof (cases "is_message MESSAGE_STATUS_TYPE buf n \<and> 14 \<le> n")
    case True
    then obtain h where h: "message_header_decode buf n = Some (Inr (12, h))" using header_decode_message [OF assms] by blast
    have n: "2 \<le> n - 12" "n - 12 \<le> length ?b" "n - 12 < 2 ^ 64" using assms True by (auto simp: received_def)
    obtain s where s: "uint16_decode buf 12 = Some s" "unat s = u16_at buf 12"
      using uint16_decode_at [of 12 buf] assms by (auto simp: received_def)
    then have s': "uint16_decode ?b 0 = Some s"
      by (auto simp: uint16_decode_def mem_read_def split: Option.bind_splits if_splits)
    have z: "length (records vector_clock_zero) = MAX_VECTOR_SIZE" by (simp add: vector_clock_zero_def)
    have unread: "vector_clock_decode ?b (n - 12) vector_clock_zero = Some (Inl PITTACUS_ERR_BUFFER_NOT_ENOUGH, vector_clock_zero)"
      if "\<not> 14 + 12 * u16_at buf 12 \<le> n"
    proof -
      have "size_of_diff (int (n - 12) - 2) = n - 14" using n True by (simp add: nat_diff_distrib)
      moreover have "n - 14 < u16_at buf 12 * 12" using that True by linarith
      ultimately show ?thesis using s(2) s' by (simp add: vector_clock_decode_def)
    qed
    have overflow: "vector_clock_decode ?b (n - 12) vector_clock_zero = None"
      if "14 + 12 * u16_at buf 12 \<le> n" "\<not> u16_at buf 12 \<le> MAX_VECTOR_SIZE"
      using vector_clock_decode_overflow [OF s' _ _ n(3) z] that s(2) by simp
    have "vc_bounded c" if "vector_clock_decode ?b (n - 12) vector_clock_zero = Some (Inr k, c)" for k c
      using that vector_clock_decode_bounded [OF that z s'] overflow unread s(2) by fastforce
    moreover have "vector_clock_decode ?b (n - 12) vector_clock_zero \<noteq> None" if "u16_at buf 12 \<le> MAX_VECTOR_SIZE"
      using vector_clock_decode_defined [OF s' _ z n] that s(2) by auto
    ultimately show ?thesis using True h unread overflow valid_message [OF assms, of MESSAGE_STATUS_TYPE]
      by (cases "14 + 12 * u16_at buf 12 \<le> n"; cases "u16_at buf 12 \<le> MAX_VECTOR_SIZE")
        (auto simp: message_status_decode_def split: sum.splits)
  next
    case False
    then show ?thesis using valid_message [OF assms, of MESSAGE_STATUS_TYPE] by (auto simp: message_status_decode_def)
  qed
  then show "?r \<noteq> None \<longleftrightarrow> (is_message MESSAGE_STATUS_TYPE buf n \<and> 14 + 12 * u16_at buf 12 \<le> n \<longrightarrow> u16_at buf 12 \<le> MAX_VECTOR_SIZE)"
    "?r = Some (Inr (k, m)) \<Longrightarrow> vc_bounded (status_version m)" by blast+
qed

lemma message_hello_decode_at:
  assumes "received buf n" "allocs_ok e"
  shows "if is_message MESSAGE_HELLO_TYPE buf n \<and> 28 \<le> n
    then if 22 + u32_at buf 18 \<le> INPUT_BUFFER_SIZE
      then \<exists>m e'. message_hello_decode e buf n = Some (Inr (22 + u32_at buf 18, m), e') \<and> malloc e = (True, e')
        \<and> member_fam (u32_at buf 18) (hello_this_member m)
      else message_hello_decode e buf n = None
    else \<exists>err. message_hello_decode e buf n = Some (Inl err, e)"
proof (cases "is_message MESSAGE_HELLO_TYPE buf n \<and> 28 \<le> n")
  case True
  then obtain h where h: "message_header_decode buf n = Some (Inr (12, h))" using header_decode_message [OF assms(1)] by blast
  obtain e' where e: "malloc e = (True, e')" using malloc_ok [OF assms(2)] by blast
  have n: "length buf = INPUT_BUFFER_SIZE" "n \<le> INPUT_BUFFER_SIZE" "12 \<le> INPUT_BUFFER_SIZE" using assms(1) by (auto simp: received_def)
  have d: "size_of_diff (int n - int 12) = n - 12" using True n by (simp add: nat_diff_distrib)
  show ?thesis
    using True h e valid_message [OF assms(1), of MESSAGE_HELLO_TYPE] cluster_member_decode_at(2,3) [OF n(1,3,2)]
    unfolding d by (auto simp: message_hello_decode_def member_fam_def add.assoc)
next
  case False
  then show ?thesis using valid_message [OF assms(1), of MESSAGE_HELLO_TYPE] by (auto simp: message_hello_decode_def)
qed

lemma message_welcome_decode_at:
  assumes "received buf n" "allocs_ok e"
  shows "if is_message MESSAGE_WELCOME_TYPE buf n \<and> 32 \<le> n
    then if 26 + u32_at buf 22 \<le> INPUT_BUFFER_SIZE
      then \<exists>m e'. message_welcome_decode e buf n = Some (Inr (26 + u32_at buf 22, m), e') \<and> malloc e = (True, e')
        \<and> member_fam (u32_at buf 22) (welcome_this_member m)
      else message_welcome_decode e buf n = None
    else \<exists>err. message_welcome_decode e buf n = Some (Inl err, e)"
proof (cases "is_message MESSAGE_WELCOME_TYPE buf n \<and> 32 \<le> n")
  case True
  then obtain h where h: "message_header_decode buf n = Some (Inr (12, h))" using header_decode_message [OF assms(1)] by blast
  obtain e' where e: "malloc e = (True, e')" using malloc_ok [OF assms(2)] by blast
  have n: "length buf = INPUT_BUFFER_SIZE" "n \<le> INPUT_BUFFER_SIZE" "16 \<le> INPUT_BUFFER_SIZE" using assms(1) by (auto simp: received_def)
  obtain s where s: "uint32_decode buf 12 = Some s" using n uint32_decode_defined [of 12 buf] by auto
  have d: "size_of_diff (int n - int 16) = n - 16" using True n by (simp add: nat_diff_distrib)
  show ?thesis
    using True h e s valid_message [OF assms(1), of MESSAGE_WELCOME_TYPE] cluster_member_decode_at(2,3) [OF n(1,3,2)]
    unfolding d by (auto simp: message_welcome_decode_def member_fam_def Let_def add.assoc)
next
  case False
  then show ?thesis using valid_message [OF assms(1), of MESSAGE_WELCOME_TYPE] by (auto simp: message_welcome_decode_def)
qed

lemma message_member_list_decode_at:
  assumes "received buf n" "allocs_ok e"
  defines "c \<equiv> u16_at buf 12"
  shows "if is_message MESSAGE_MEMBER_LIST_TYPE buf n \<and> 14 \<le> n
    then if members_within buf n c 14
      then \<exists>r e'. message_member_list_decode e buf n = Some (r, e') \<and> malloc e = (True, e')
        \<and> (if list_cut buf n c 14 then r = Inl PITTACUS_ERR_BUFFER_NOT_ENOUGH
            else \<exists>k m. r = Inr (k, m) \<and> length (list_members m) = c \<and> (\<forall>x \<in> set (list_members m). member_ok x)
              \<and> map (\<lambda>x. unat (address_len x)) (list_members m) = announced_lengths buf c 14)
      else message_member_list_decode e buf n = None
    else \<exists>err. message_member_list_decode e buf n = Some (Inl err, e)"
proof (cases "is_message MESSAGE_MEMBER_LIST_TYPE buf n \<and> 14 \<le> n")
  case True
  then obtain h where h: "message_header_decode buf n = Some (Inr (12, h))" using header_decode_message [OF assms(1)] by blast
  obtain e' where e: "malloc e = (True, e')" using malloc_ok [OF assms(2)] by blast
  have n: "length buf = INPUT_BUFFER_SIZE" "n \<le> INPUT_BUFFER_SIZE" "14 \<le> INPUT_BUFFER_SIZE" using assms(1) by (auto simp: received_def)
  obtain s where s: "uint16_decode buf 12 = Some s" "unat s = c" using n uint16_decode_at [of 12 buf] by (auto simp: c_def)
  have len: "length (announced_lengths buf k cur) = k" for k cur by (induction k arbitrary: cur) simp_all
  have "length ms = c" if "map (\<lambda>m. unat (address_len m)) ms = announced_lengths buf c 14" for ms
    using arg_cong [OF that, of length] len by simp
  then show ?thesis
    using True h e s valid_message [OF assms(1), of MESSAGE_MEMBER_LIST_TYPE] decode_members_at [OF n, of c "[]"]
    by (auto simp: message_member_list_decode_def Let_def split: if_splits)
next
  case False
  then show ?thesis using valid_message [OF assms(1), of MESSAGE_MEMBER_LIST_TYPE] by (auto simp: message_member_list_decode_def)
qed

text \<open>Within \<open>packet_ok\<close> the decoders return, and what they return is of the cluster's family.\<close>

lemma message_status_decode_received:
  assumes "received buf n" "packet_ok L buf n"
  shows "\<exists>r. message_status_decode buf n vector_clock_zero = Some r
           \<and> (\<forall>k m. r = Inr (k, m) \<longrightarrow> vc_bounded (status_version m))"
  using message_status_decode_at [OF assms(1)] assms(2) by (fastforce simp: packet_ok_def is_message_def)

lemma message_hello_decode_received:
  assumes "received buf n" "packet_ok L buf n" "allocs_ok e"
  shows "\<exists>r e'. message_hello_decode e buf n = Some (r, e') \<and> allocs_ok e' \<and> env_wire e' = env_wire e \<and> env_app e' = env_app e
           \<and> (\<forall>k m. r = Inr (k, m) \<longrightarrow> member_fam L (hello_this_member m))"
proof (cases "is_message MESSAGE_HELLO_TYPE buf n \<and> 28 \<le> n")
  case True
  then have L: "u32_at buf 18 = L" "22 + L \<le> INPUT_BUFFER_SIZE"
    using assms(1,2) by (auto simp: packet_ok_def is_message_def received_def)
  obtain e' where e: "malloc e = (True, e')" "allocs_ok e'" using malloc_ok [OF assms(3)] by blast
  then show ?thesis using message_hello_decode_at [OF assms(1,3)] True L malloc_frame [OF e(1)] by auto
next
  case False
  then show ?thesis using message_hello_decode_at [OF assms(1,3)] assms(3) by (auto split: if_splits)
qed

lemma message_welcome_decode_received:
  assumes "received buf n" "packet_ok L buf n" "allocs_ok e"
  shows "\<exists>r e'. message_welcome_decode e buf n = Some (r, e') \<and> allocs_ok e' \<and> env_wire e' = env_wire e \<and> env_app e' = env_app e
           \<and> (\<forall>k m. r = Inr (k, m) \<longrightarrow> member_fam L (welcome_this_member m))"
proof (cases "is_message MESSAGE_WELCOME_TYPE buf n \<and> 32 \<le> n")
  case True
  then have L: "u32_at buf 22 = L" "26 + L \<le> INPUT_BUFFER_SIZE"
    using assms(1,2) by (auto simp: packet_ok_def is_message_def received_def)
  obtain e' where e: "malloc e = (True, e')" "allocs_ok e'" using malloc_ok [OF assms(3)] by blast
  then show ?thesis using message_welcome_decode_at [OF assms(1,3)] True L malloc_frame [OF e(1)] by auto
next
  case False
  then show ?thesis using message_welcome_decode_at [OF assms(1,3)] assms(3) by (auto split: if_splits)
qed

lemma message_member_list_decode_received:
  assumes "received buf n" "packet_ok L buf n" "allocs_ok e"
  shows "\<exists>r e'. message_member_list_decode e buf n = Some (r, e') \<and> allocs_ok e' \<and> env_wire e' = env_wire e \<and> env_app e' = env_app e
           \<and> (\<forall>k m. r = Inr (k, m) \<longrightarrow> length (list_members m) < 2 ^ 16 \<and> (\<forall>x \<in> set (list_members m). member_fam L x))"
proof -
  let ?c = "u16_at buf 12"
  obtain k where "unat (k :: u16) = ?c" using uint16_decode_at [of 12 buf] assms(1) by (auto simp: received_def)
  moreover have "unat k < 2 ^ LENGTH(16)" by (rule unsigned_less)
  ultimately have c: "?c < 2 ^ 16" by simp
  show ?thesis
  proof (cases "is_message MESSAGE_MEMBER_LIST_TYPE buf n \<and> 14 \<le> n")
    case True
    then have within: "members_within buf n ?c 14"
      and fam: "list_cut buf n ?c 14 \<or> (\<forall>l \<in> set (announced_lengths buf ?c 14). l = L)"
      using assms(2) by (auto simp: packet_ok_def is_message_def)
    obtain e' where e: "malloc e = (True, e')" "allocs_ok e'" using malloc_ok [OF assms(3)] by blast
    obtain r where r: "message_member_list_decode e buf n = Some (r, e')"
      "if list_cut buf n ?c 14 then r = Inl PITTACUS_ERR_BUFFER_NOT_ENOUGH
       else \<exists>k m. r = Inr (k, m) \<and> length (list_members m) = ?c \<and> (\<forall>x \<in> set (list_members m). member_ok x)
         \<and> map (\<lambda>x. unat (address_len x)) (list_members m) = announced_lengths buf ?c 14"
      using message_member_list_decode_at [OF assms(1,3)] True within e(1) by auto
    have "member_fam L x" if "r = Inr (k, m)" "x \<in> set (list_members m)" for k m x
    proof -
      have "\<not> list_cut buf n ?c 14" "member_ok x" "map (\<lambda>x. unat (address_len x)) (list_members m) = announced_lengths buf ?c 14"
        using r(2) that by (auto split: if_splits)
      moreover from this(3) have "unat (address_len x) \<in> set (announced_lengths buf ?c 14)"
        using that(2) by (metis (mono_tags, lifting) image_eqI image_set)
      ultimately show ?thesis using fam by (auto simp: member_fam_def)
    qed
    then show ?thesis using r e(2) malloc_frame [OF e(1)] c by (auto split: if_splits)
  next
    case False
    then show ?thesis using message_member_list_decode_at [OF assms(1,3)] assms(3) by (auto split: if_splits)
  qed
qed

section \<open>The handlers keep the invariant\<close>

text \<open>A received packet with its sender, as \<^verbatim>\<open>pittacus_gossip_process_receive\<close> hands it on.\<close>

definition envelope_in_ok :: "nat \<Rightarrow> pittacus_gossip \<Rightarrow> message_envelope_in \<Rightarrow> bool" where
  "envelope_in_ok L g x \<longleftrightarrow> in_buffer x = input_buffer g \<and> in_buffer_size x \<le> INPUT_BUFFER_SIZE
     \<and> packet_ok L (in_buffer x) (in_buffer_size x) \<and> dest_ok L (Some (sender x)) (sender_len x)
     \<and> ms_size (members g) + 2 ^ 16 < 3 * 2 ^ 29"

lemma envelope_in_received: "gossip_inv L g \<Longrightarrow> envelope_in_ok L g x \<Longrightarrow> received (in_buffer x) (in_buffer_size x)"
  by (simp add: gossip_inv_def envelope_in_ok_def received_def)

text \<open>Allocating while storing members shows neither on the wire nor to the application.\<close>

lemma put_members_frame:
  "put_members e s ms = Some (r, s', e') \<Longrightarrow> env_wire e' = env_wire e \<and> env_app e' = env_app e"
proof (induction ms arbitrary: e s)
  case (Cons m ms)
  from Cons.prems show ?case
    by (auto simp: cluster_member_copy_def cluster_member_init_def bind_eq_Some_conv case_prod_unfold Let_def
        malloc_frame [OF surjective_pairing] split: if_splits dest!: Cons.IH)
qed simp

lemma cluster_member_set_put_frame:
  "cluster_member_set_put e s ms = Some (r, s', e') \<Longrightarrow> env_wire e' = env_wire e \<and> env_app e' = env_app e"
  by (auto simp: cluster_member_set_put_def cluster_member_set_extend_def bind_eq_Some_conv case_prod_unfold Let_def
      malloc_frame [OF surjective_pairing] split: if_splits option.splits dest!: put_members_frame)

lemma keys_fam:
  assumes "members_inv s" "ms_keys s = add_new ks (map member_key ms)"
    "\<forall>k \<in> set ks. case k of (v, u, l, a) \<Rightarrow> unat l = L" "\<forall>m \<in> set ms. unat (address_len m) = L"
  shows "\<forall>m \<in> set (ms_list s). member_fam L m"
proof
  fix m assume m: "m \<in> set (ms_list s)"
  then obtain i where "i < ms_size s" "m = ms_list s ! i"
    using length_ms_list [OF assms(1)] by (auto simp: in_set_conv_nth)
  then have "member_ok m" using members_inv_slot(2) [OF assms(1)] by simp
  moreover have "member_key m \<in> set (ms_keys s)" using m by (simp add: ms_keys_def)
  then have "member_key m \<in> set ks \<union> member_key ` set ms" unfolding assms(2) by simp
  then have "unat (address_len m) = L" using assms(3,4) by (auto simp: member_key_def)
  ultimately show "member_fam L m" by (simp add: member_fam_def)
qed

text \<open>Storing members that arrived.\<close>

lemma put_received:
  assumes inv: "gossip_inv L g" and ms: "\<forall>m \<in> set ms. member_fam L m"
    and small: "ms_size (members g) + length ms < 3 * 2 ^ 29"
  shows "\<exists>s e. cluster_member_set_put (genv g) (members g) ms = Some (PITTACUS_ERR_NONE, s, e)
           \<and> gossip_inv L (g\<lparr>members := s, genv := e\<rparr>) \<and> evolves L g (g\<lparr>members := s, genv := e\<rparr>)
           \<and> ms_keys s = add_new (ms_keys (members g)) (map member_key ms)"
proof -
  have i: "members_inv (members g)" "allocs_ok (genv g)" "\<forall>m \<in> set (ms_list (members g)). member_fam L m"
    using inv by (auto simp: gossip_inv_def)
  have "\<forall>m \<in> set ms. member_ok m" using ms by (auto simp: member_fam_def)
  then obtain s e where s: "cluster_member_set_put (genv g) (members g) ms = Some (PITTACUS_ERR_NONE, s, e)"
    "allocs_ok e" "members_inv s" "ms_keys s = add_new (ms_keys (members g)) (map member_key ms)"
    using cluster_member_set_put_ok [OF i(1,2) _ small] by blast
  have "\<forall>k \<in> set (ms_keys (members g)). case k of (v, u, l, a) \<Rightarrow> unat l = L"
    using i(3) by (auto simp: ms_keys_def member_key_def member_fam_def)
  from keys_fam [OF s(3,4) this] ms have "\<forall>m \<in> set (ms_list s). member_fam L m"
    by (auto simp: member_fam_def)
  then have "gossip_inv L (g\<lparr>members := s, genv := e\<rparr>)" using s inv by (simp add: gossip_inv_def)
  moreover from this have "evolves L g (g\<lparr>members := s, genv := e\<rparr>)"
    using cluster_member_set_put_frame [OF s(1)] by (intro evolves_other) (simp_all add: same_data_def)
  ultimately show ?thesis using s by blast
qed

lemma gossip_handle_hello_ok:
  assumes inv: "gossip_inv L g" and x: "envelope_in_ok L g x"
  shows "\<exists>r g'. gossip_handle_hello g x = Some (r, g') \<and> gossip_inv L g' \<and> evolves L g g' \<and> state g' = state g"
proof (cases "state g = STATE_CONNECTED")
  case True
  have dest: "dest_ok L (Some (sender x)) (sender_len x)" and pk: "packet_ok L (in_buffer x) (in_buffer_size x)"
    using x by (auto simp: envelope_in_ok_def)
  have al: "allocs_ok (genv g)" using inv by (simp add: gossip_inv_def)
  obtain d e where d: "message_hello_decode (genv g) (in_buffer x) (in_buffer_size x) = Some (d, e)" "allocs_ok e"
    "\<And>k m. d = Inr (k, m) \<Longrightarrow> member_fam L (hello_this_member m)"
    and fr: "env_wire e = env_wire (genv g)" "env_app e = env_app (genv g)"
    using message_hello_decode_received [OF envelope_in_received [OF inv x] pk al] by blast
  let ?g0 = "g\<lparr>genv := e\<rparr>"
  note inv0 = gossip_inv_genv [OF inv d(2)]
  have ev0: "evolves L g ?g0" using fr by (intro evolves_other [OF inv0]) (simp add: same_data_def)
  show ?thesis
  proof (cases d)
    case (Inl err)
    then show ?thesis using True d inv0 ev0 by (simp add: gossip_handle_hello_def)
  next
    case (Inr km)
    then obtain k m where km: "d = Inr (k, m)" by (cases km) auto
    note fam = d(3) [OF km]
    obtain g1 where g1: "gossip_enqueue_welcome ?g0 (header_sequence_num (hello_header m)) (Some (sender x)) (sender_len x) = Some (0, g1)"
      "evolves L ?g0 g1" "gossip_inv L g1" "same_node ?g0 g1"
      using enqueue_evolves(2) [OF inv0 dest] by blast
    obtain g2 where g2: "(if ms_size (members g1) > 0 then gossip_enqueue_member_list g1 (Some (sender x)) (sender_len x)
        else Some (err_code PITTACUS_ERR_NONE, g1)) = Some (0, g2)" "evolves L g1 g2" "same_node g1 g2"
    proof (cases "ms_size (members g1) > 0")
      case True
      with that gossip_enqueue_member_list_ok [OF g1(3) dest] show thesis by auto
    qed (use that in auto)
    note inv2 = evolves_inv [OF g2(2) g1(3)]
    let ?m = "\<lparr>member_list_header = message_header_init MESSAGE_MEMBER_LIST_TYPE 0, members_n = 1,
                list_members = [hello_this_member m]\<rparr>"
    have "L \<le> 128" using inv by (simp add: gossip_inv_def)
    then have m: "message_ok L MESSAGE_MEMBER_LIST_TYPE (Member_List ?m)"
      using fam by (simp add: list_valid_def member_fam_def)
    then obtain as g3 where g3: "gossip_enqueue_message g2 MESSAGE_MEMBER_LIST_TYPE (Member_List ?m) None 0 GOSSIP_BROADCAST = Some (0, g3)"
      "enqueued L g2 (Member_List ?m) as g3"
      using gossip_enqueue_message_ok [OF inv2, of MESSAGE_MEMBER_LIST_TYPE "Member_List ?m" GOSSIP_BROADCAST None 0]
      by (auto simp del: targets_ok.simps)
    have inv3: "gossip_inv L g3" "same_node g2 g3" using enqueued_inv [OF g3(2)] by auto
    have ev: "evolves L g g3"
      using evolves_trans [OF g2(2) evolves_trans [OF g1(2) ev0]] evolves.queue [OF _ m _ g3(2)] by simp
    have same: "members g3 = members g" "state g3 = state g"
      using g1(4) g2(3) inv3(2) by (auto simp: same_node_def)
    then have "ms_size (members g3) + length [hello_this_member m] < 3 * 2 ^ 29"
      using x by (simp add: envelope_in_ok_def)
    then obtain s e3 where put: "cluster_member_set_put (genv g3) (members g3) [hello_this_member m] = Some (PITTACUS_ERR_NONE, s, e3)"
      "gossip_inv L (g3\<lparr>members := s, genv := e3\<rparr>)" "evolves L g3 (g3\<lparr>members := s, genv := e3\<rparr>)"
      using put_received [OF inv3(1), of "[hello_this_member m]"] fam by auto
    show ?thesis
      using True d(1) km g1(1) g2(1) g3(1) put evolves_trans [OF put(3) ev] same by (simp add: gossip_handle_hello_def)
  qed
qed (use inv in \<open>auto simp: gossip_handle_hello_def\<close>)

lemma gossip_inv_outbound:
  "gossip_inv L g \<Longrightarrow> set q \<subseteq> set (outbound_messages g) \<Longrightarrow> gossip_inv L (g\<lparr>outbound_messages := q\<rparr>)"
  by (auto simp: gossip_inv_def)

lemma set_remove_by_sequence_num: "set (remove_by_sequence_num n q) \<subseteq> set q"
  by (simp add: remove_by_sequence_num_def set_remove_first_subset)

text \<open>
  A welcome connects the node, stores the seed and takes the hello that was answered out of the
  queue.
\<close>

lemma gossip_handle_welcome_ok:
  assumes inv: "gossip_inv L g" and x: "envelope_in_ok L g x"
  shows "\<exists>r g'. gossip_handle_welcome g x = Some (r, g') \<and> gossip_inv L g' \<and> evolves L g g'
           \<and> ((r < 0 \<and> state g' = state g \<and> members g' = members g \<and> outbound_messages g' = outbound_messages g)
              \<or> (\<exists>k m e. message_welcome_decode (genv g) (in_buffer x) (in_buffer_size x) = Some (Inr (k, m), e)
                  \<and> r = 0 \<and> state g' = STATE_CONNECTED
                  \<and> ms_keys (members g') = add_new (ms_keys (members g)) [member_key (welcome_this_member m)]
                  \<and> outbound_messages g' = remove_by_sequence_num (hello_sequence_num m) (outbound_messages g)))"
proof -
  have pk: "packet_ok L (in_buffer x) (in_buffer_size x)" using x by (auto simp: envelope_in_ok_def)
  have al: "allocs_ok (genv g)" using inv by (simp add: gossip_inv_def)
  obtain d e where d: "message_welcome_decode (genv g) (in_buffer x) (in_buffer_size x) = Some (d, e)" "allocs_ok e"
    "\<And>k m. d = Inr (k, m) \<Longrightarrow> member_fam L (welcome_this_member m)"
    and fr: "env_wire e = env_wire (genv g)" "env_app e = env_app (genv g)"
    using message_welcome_decode_received [OF envelope_in_received [OF inv x] pk al] by blast
  have ev0: "evolves L g (g\<lparr>genv := e\<rparr>)"
    using fr by (intro evolves_other [OF gossip_inv_genv [OF inv d(2)]]) (simp add: same_data_def)
  show ?thesis
  proof (cases d)
    case (Inl err)
    have "err_code err < 0"
      using d(1) Inl by (auto simp: message_welcome_decode_def cluster_member_decode_def Let_def
          split: Option.bind_splits if_splits sum.splits prod.splits)
    then show ?thesis using Inl d gossip_inv_genv [OF inv d(2)] ev0 by (simp add: gossip_handle_welcome_def)
  next
    case (Inr km)
    then obtain k m where km: "d = Inr (k, m)" by (cases km) auto
    let ?g1 = "g\<lparr>genv := e, state := STATE_CONNECTED\<rparr>"
    have inv1: "gossip_inv L ?g1" using inv d(2) by (simp add: gossip_inv_def)
    have ev1: "evolves L g ?g1" by (rule evolves.other [OF ev0 inv1]) (simp add: same_data_def)
    have "ms_size (members ?g1) + length [welcome_this_member m] < 3 * 2 ^ 29"
      using x by (simp add: envelope_in_ok_def)
    then obtain s e1 where put: "cluster_member_set_put (genv ?g1) (members ?g1) [welcome_this_member m] = Some (PITTACUS_ERR_NONE, s, e1)"
      "gossip_inv L (?g1\<lparr>members := s, genv := e1\<rparr>)" "evolves L ?g1 (?g1\<lparr>members := s, genv := e1\<rparr>)"
      "ms_keys s = add_new (ms_keys (members g)) [member_key (welcome_this_member m)]"
      using put_received [OF inv1, of "[welcome_this_member m]"] d(3) [OF km] by auto
    let ?g2 = "?g1\<lparr>members := s, genv := e1,
        outbound_messages := remove_by_sequence_num (hello_sequence_num m) (outbound_messages g)\<rparr>"
    have inv2: "gossip_inv L ?g2" using gossip_inv_outbound [OF put(2)] set_remove_by_sequence_num by simp
    have "evolves L g ?g2"
      using set_remove_by_sequence_num
      by (intro evolves.other [OF evolves_trans [OF put(3) ev1] inv2]) (simp add: same_data_def)
    with inv2 show ?thesis using d(1) km put by (simp add: gossip_handle_welcome_def Let_def)
  qed
qed

lemma envelope_in_parts:
  assumes "envelope_in_ok L g x"
  shows "packet_ok L (in_buffer x) (in_buffer_size x)" "dest_ok L (Some (sender x)) (sender_len x)"
  using assms by (auto simp: envelope_in_ok_def)

lemma gossip_handle_member_list_ok:
  assumes inv: "gossip_inv L g" and x: "envelope_in_ok L g x"
  shows "\<exists>r g'. gossip_handle_member_list g x = Some (r, g') \<and> gossip_inv L g' \<and> evolves L g g' \<and> state g' = state g"
proof (cases "state g = STATE_CONNECTED")
  case True
  note xp = envelope_in_parts [OF x]
  have al: "allocs_ok (genv g)" using inv by (simp add: gossip_inv_def)
  obtain d e where d: "message_member_list_decode (genv g) (in_buffer x) (in_buffer_size x) = Some (d, e)" "allocs_ok e"
    "\<And>k m. d = Inr (k, m) \<Longrightarrow> length (list_members m) < 2 ^ 16 \<and> (\<forall>y \<in> set (list_members m). member_fam L y)"
    and fr: "env_wire e = env_wire (genv g)" "env_app e = env_app (genv g)"
    using message_member_list_decode_received [OF envelope_in_received [OF inv x] xp(1) al] by blast
  let ?g0 = "g\<lparr>genv := e\<rparr>"
  note inv0 = gossip_inv_genv [OF inv d(2)]
  have ev0: "evolves L g ?g0" using fr by (intro evolves_other [OF inv0]) (simp add: same_data_def)
  show ?thesis
  proof (cases d)
    case (Inl err)
    then show ?thesis using True d inv0 ev0 by (simp add: gossip_handle_member_list_def)
  next
    case (Inr km)
    then obtain k m where km: "d = Inr (k, m)" by (cases km) auto
    have "ms_size (members ?g0) + length (list_members m) < 3 * 2 ^ 29"
      using x d(3) [OF km] by (auto simp: envelope_in_ok_def)
    then obtain s e1 where put: "cluster_member_set_put (genv ?g0) (members ?g0) (list_members m) = Some (PITTACUS_ERR_NONE, s, e1)"
      "gossip_inv L (?g0\<lparr>members := s, genv := e1\<rparr>)" "evolves L ?g0 (?g0\<lparr>members := s, genv := e1\<rparr>)"
      using put_received [OF inv0] d(3) [OF km] by blast
    obtain g2 where g2: "gossip_enqueue_ack (?g0\<lparr>members := s, genv := e1\<rparr>) (header_sequence_num (member_list_header m))
        (Some (sender x)) (sender_len x) = Some (0, g2)" "evolves L (?g0\<lparr>members := s, genv := e1\<rparr>) g2"
      "gossip_inv L g2" "same_node (?g0\<lparr>members := s, genv := e1\<rparr>) g2"
      using enqueue_evolves(1) [OF put(2) xp(2)] by blast
    have "evolves L g g2" by (rule evolves_trans [OF g2(2) evolves_trans [OF put(3) ev0]])
    then show ?thesis
      using g2 True d(1) km put by (simp add: gossip_handle_member_list_def Let_def same_node_def)
  qed
qed (use inv in \<open>auto simp: gossip_handle_member_list_def\<close>)

text \<open>An acknowledgement takes the first envelope with the number out of the queue, nothing else.\<close>

lemma gossip_handle_ack_ok:
  assumes inv: "gossip_inv L g" and x: "envelope_in_ok L g x"
  shows "\<exists>r g'. gossip_handle_ack g x = Some (r, g') \<and> gossip_inv L g' \<and> evolves L g g'
           \<and> (g' = g \<or> (\<exists>n. g' = g\<lparr>outbound_messages := remove_by_sequence_num n (outbound_messages g)\<rparr>))"
proof (cases "state g = STATE_CONNECTED")
  case True
  obtain d where d: "message_ack_decode (in_buffer x) (in_buffer_size x) = Some d"
    using message_ack_decode_received [OF envelope_in_received [OF inv x]] by blast
  show ?thesis
  proof (cases d)
    case (Inl err)
    then show ?thesis using True d inv by (auto simp: gossip_handle_ack_def)
  next
    case (Inr km)
    have "same_data g (g\<lparr>outbound_messages := remove_by_sequence_num n (outbound_messages g)\<rparr>)" for n
      using set_remove_by_sequence_num by (simp add: same_data_def)
    note ev = evolves_other [OF gossip_inv_outbound [OF inv set_remove_by_sequence_num] this]
    from Inr show ?thesis
      using True d gossip_inv_outbound [OF inv set_remove_by_sequence_num] ev
      by (cases km) (auto simp: gossip_handle_ack_def)
  qed
qed (use inv in \<open>auto simp: gossip_handle_ack_def\<close>)

lemma gossip_handle_status_ok:
  assumes inv: "gossip_inv L g" and x: "envelope_in_ok L g x"
  shows "\<exists>r g'. gossip_handle_status g x = Some (r, g') \<and> gossip_inv L g' \<and> evolves L g g' \<and> same_node g g'"
proof (cases "state g = STATE_CONNECTED")
  case True
  note xp = envelope_in_parts [OF x]
  obtain d where d: "message_status_decode (in_buffer x) (in_buffer_size x) vector_clock_zero = Some d"
    "\<And>k m. d = Inr (k, m) \<Longrightarrow> vc_bounded (status_version m)"
    using message_status_decode_received [OF envelope_in_received [OF inv x] xp(1)] by blast
  show ?thesis
  proof (cases d)
    case (Inl err)
    then show ?thesis using True d inv by (auto simp: gossip_handle_status_def)
  next
    case (Inr km)
    then obtain k m where km: "d = Inr (k, m)" by (cases km) auto
    note b = d(2) [OF km]
    obtain g1 where g1: "gossip_enqueue_ack g (header_sequence_num (status_header m)) (Some (sender x)) (sender_len x) = Some (0, g1)"
      "evolves L g g1" "gossip_inv L g1" "same_node g g1"
      using enqueue_evolves(1) [OF inv xp(2)] by blast
    have "vc_bounded (data_version g1)" using g1(3) by (auto simp: gossip_inv_def vc_inv_def vc_wf_bounded)
    then obtain v where v: "vector_clock_compare (data_version g1) (status_version m) False = Some (v, data_version g1)"
      using vector_clock_compare_bounded [OF _ b] by blast
    obtain r2 g2 where g2: "gossip_enqueue_data_log g1 (status_version m) (Some (sender x)) (sender_len x) = Some (r2, g2)"
      "evolves L g1 g2" "same_node g1 g2"
      using gossip_enqueue_data_log_ok [OF g1(3) xp(2) b] by blast
    note inv2 = evolves_inv [OF g2(2) g1(3)]
    obtain g3 where g3: "gossip_enqueue_status g1 (Some (sender x)) (sender_len x) = Some (0, g3)"
      "evolves L g1 g3" "gossip_inv L g3" "same_node g1 g3"
      using enqueue_evolves(4) [OF g1(3) xp(2)] by blast
    obtain g4 where g4: "gossip_enqueue_status g2 (Some (sender x)) (sender_len x) = Some (0, g4)"
      "evolves L g2 g4" "gossip_inv L g4" "same_node g2 g4"
      using enqueue_evolves(4) [OF inv2 xp(2)] by blast
    show ?thesis
      using True d(1) km g1 v g2 g3 g4 inv2 same_node_trans [OF g1(4)] same_node_trans [OF g2(3)]
        evolves_trans [OF g2(2) g1(2)] evolves_trans [OF g3(2) g1(2)] evolves_trans [OF g4(2) evolves_trans [OF g2(2) g1(2)]]
      by (cases v) (auto simp: gossip_handle_status_def Let_def)
  qed
qed (use inv in \<open>auto simp: gossip_handle_status_def\<close>)

section \<open>Data messages and the callback\<close>

text \<open>
  What the library relies on when it calls the application: the callback returns and leaves a
  descriptor that satisfies the invariant and is still connected.
\<close>

locale receiver_contract =
  fixes L :: nat and receiver :: "data_receiver option"
  assumes receiver_ok: "receiver = Some f \<Longrightarrow> gossip_inv L g \<Longrightarrow> state g = STATE_CONNECTED \<Longrightarrow>
    memcpy_src p n = Some bs \<Longrightarrow> n \<le> MESSAGE_MAX_SIZE \<Longrightarrow>
    \<exists>g'. f g p n = Some g' \<and> gossip_inv L g' \<and> state g' = STATE_CONNECTED"
begin

lemma call_ok:
  assumes "gossip_inv L g" "state g = STATE_CONNECTED" "memcpy_src p n = Some bs" "n \<le> MESSAGE_MAX_SIZE"
  shows "\<exists>g'. (case receiver of None \<Rightarrow> Some g | Some f \<Rightarrow> f g p n) = Some g' \<and> gossip_inv L g' \<and> state g' = STATE_CONNECTED"
  using assms receiver_ok by (cases receiver) auto

text \<open>
  The steps of the data handler once the message is decoded: acknowledge, compare and merge the
  version, and if the message is news log it, call the application and spread it.
\<close>

lemma handle_data_steps:
  assumes inv: "gossip_inv L g" and x: "envelope_in_ok L g x" and conn: "state g = STATE_CONNECTED"
    and dec: "message_data_decode (in_buffer x) (in_buffer_size x) = Some (Inr (k, m))"
  shows "\<exists>g1 v c. gossip_inv L g1 \<and> same_node g g1 \<and> evolves L g g1
     \<and> vector_clock_compare_with_record (data_version g) (data_record m) True = Some (v, c) \<and> vc_inv c
     \<and> (v \<noteq> VC_BEFORE \<longrightarrow> gossip_handle_data receiver g x = Some (0, g1\<lparr>data_version := c\<rparr>))
     \<and> (v = VC_BEFORE \<longrightarrow> (\<exists>l g4 m' as g5.
           gossip_data_log (gossip_log g) m = Some l \<and> log_inv l
         \<and> (case receiver of None \<Rightarrow> Some (g1\<lparr>data_version := c, gossip_log := l\<rparr>)
            | Some f \<Rightarrow> f (g1\<lparr>data_version := c, gossip_log := l\<rparr>) (data m) (unat (data_size m))) = Some g4
         \<and> gossip_inv L g4 \<and> state g4 = STATE_CONNECTED
         \<and> m' = m\<lparr>data := map_option (\<lambda>_. drop 26 (input_buffer g4)) (data m)\<rparr> \<and> data_valid m'
         \<and> enqueued L g4 (Data m') as g5
         \<and> targets_ok g4 None 0 GOSSIP_RANDOM as
         \<and> gossip_handle_data receiver g x = Some (0, g5)))"
proof -
  note xp = envelope_in_parts [OF x] and rec = envelope_in_received [OF inv x]
  note m = message_data_decode_Inr [OF rec dec]
  have small: "26 + unat (data_size m) \<le> 512" using m(2) rec by (simp add: received_def)
  obtain g1 where g1: "gossip_enqueue_ack g (header_sequence_num (data_header m)) (Some (sender x)) (sender_len x) = Some (0, g1)"
    "gossip_inv L g1" "same_node g g1" "evolves L g g1"
    using enqueue_evolves(1) [OF inv xp(2)] by blast
  have dv: "data_version g1 = data_version g" "gossip_log g1 = gossip_log g" "state g1 = STATE_CONNECTED"
    using g1(3) conn by (auto simp: same_node_def)
  have "vc_inv (data_version g)" using inv by (simp add: gossip_inv_def)
  then obtain v c where v: "vector_clock_compare_with_record (data_version g) (data_record m) True = Some (v, c)" "vc_inv c"
    using vector_clock_compare_with_record_merge by blast
  let ?g2 = "g1\<lparr>data_version := c\<rparr>"
  have inv2: "gossip_inv L ?g2" using g1(2) v(2) by (simp add: gossip_inv_def)
  have "\<exists>l g4 m' as g5. gossip_data_log (gossip_log g) m = Some l \<and> log_inv l
      \<and> (case receiver of None \<Rightarrow> Some (?g2\<lparr>gossip_log := l\<rparr>)
         | Some f \<Rightarrow> f (?g2\<lparr>gossip_log := l\<rparr>) (data m) (unat (data_size m))) = Some g4
      \<and> gossip_inv L g4 \<and> state g4 = STATE_CONNECTED
      \<and> m' = m\<lparr>data := map_option (\<lambda>_. drop 26 (input_buffer g4)) (data m)\<rparr> \<and> data_valid m'
      \<and> enqueued L g4 (Data m') as g5
      \<and> targets_ok g4 None 0 GOSSIP_RANDOM as
      \<and> gossip_handle_data receiver g x = Some (0, g5)" if before: "v = VC_BEFORE"
  proof -
    have "log_inv (gossip_log g)" using inv by (simp add: gossip_inv_def)
    then obtain l where l: "gossip_data_log (gossip_log g) m = Some l" "log_inv l"
      using gossip_data_log_ok [OF _ m(1)] small by force
    let ?g3 = "?g2\<lparr>gossip_log := l\<rparr>"
    have inv3: "gossip_inv L ?g3" using inv2 l(2) by (simp add: gossip_inv_def)
    obtain g4 where g4: "(case receiver of None \<Rightarrow> Some ?g3 | Some f \<Rightarrow> f ?g3 (data m) (unat (data_size m))) = Some g4"
      "gossip_inv L g4" "state g4 = STATE_CONNECTED"
      using call_ok [OF inv3, of "data m" "unat (data_size m)"] dv payload_Some(1) [OF m(1)] small by auto
    let ?m = "m\<lparr>data := map_option (\<lambda>_. drop 26 (input_buffer g4)) (data m)\<rparr>"
    have "length (input_buffer g4) = 512" using g4(2) by (simp add: gossip_inv_def)
    then have v': "data_valid ?m"
      using m(1,4) small by (auto simp: data_valid_def memcpy_src_def mem_read_def word_gt_0 unat_eq_0)
    then have "message_ok L MESSAGE_DATA_TYPE (Data ?m)" by simp
    from gossip_enqueue_message_ok [OF g4(2) this, of GOSSIP_RANDOM None 0] small obtain as g5 where
      g5: "gossip_enqueue_message g4 MESSAGE_DATA_TYPE (Data ?m) None 0 GOSSIP_RANDOM = Some (0, g5)"
      "enqueued L g4 (Data ?m) as g5" "targets_ok g4 None 0 GOSSIP_RANDOM as"
      by (auto simp del: targets_ok.simps)
    moreover have "gossip_handle_data receiver g x = Some (0, g5)"
      using conn before dec g1(1) v(1) l(1) g4 g5(1) dv by (simp add: gossip_handle_data_def Let_def)
    ultimately show ?thesis using l g4 v' by blast
  qed
  moreover have "gossip_handle_data receiver g x = Some (0, ?g2)" if "v \<noteq> VC_BEFORE"
    using that conn dec g1 v dv by (simp add: gossip_handle_data_def Let_def)
  ultimately show ?thesis using g1(2-4) v by blast
qed

lemma handle_data_ok:
  assumes inv: "gossip_inv L g" and x: "envelope_in_ok L g x"
  shows "\<exists>r g'. gossip_handle_data receiver g x = Some (r, g') \<and> gossip_inv L g' \<and> state g' = state g"
proof (cases "state g = STATE_CONNECTED")
  case True
  obtain d where d: "message_data_decode (in_buffer x) (in_buffer_size x) = Some d"
    using message_data_decode_received [OF envelope_in_received [OF inv x]] by blast
  show ?thesis
  proof (cases d)
    case (Inl err)
    then show ?thesis using True d inv by (simp add: gossip_handle_data_def)
  next
    case (Inr km)
    then obtain k m where "message_data_decode (in_buffer x) (in_buffer_size x) = Some (Inr (k, m))"
      using d by (cases km) auto
    from handle_data_steps [OF inv x True this] obtain g1 v c where
      steps: "gossip_inv L g1" "same_node g g1" "vc_inv c"
      "v \<noteq> VC_BEFORE \<longrightarrow> gossip_handle_data receiver g x = Some (0, g1\<lparr>data_version := c\<rparr>)"
      "v = VC_BEFORE \<longrightarrow> (\<exists>g4 m' as g5. gossip_inv L g4 \<and> state g4 = STATE_CONNECTED
         \<and> enqueued L g4 (Data m') as g5 \<and> gossip_handle_data receiver g x = Some (0, g5))"
      by blast
    show ?thesis
    proof (cases "v = VC_BEFORE")
      case before: True
      then obtain g4 m' as g5 where "state g4 = STATE_CONNECTED" "enqueued L g4 (Data m') as g5"
        "gossip_handle_data receiver g x = Some (0, g5)" using steps(5) by blast
      then show ?thesis using enqueued_inv True by (fastforce simp: same_node_def)
    next
      case False
      then show ?thesis using steps by (auto simp: gossip_inv_def same_node_def)
    qed
  qed
qed (use inv in \<open>simp add: gossip_handle_data_def\<close>)

text \<open>Whatever arrives within the bounds of \<open>envelope_in_ok\<close> is handled and the invariant kept.\<close>

lemma handle_new_message_ok:
  assumes inv: "gossip_inv L g" and x: "envelope_in_ok L g x"
  shows "\<exists>r g'. gossip_handle_new_message receiver g x = Some (r, g') \<and> gossip_inv L g'
           \<and> (state g' = state g \<or> state g' = STATE_CONNECTED)"
proof -
  have "\<exists>t. message_type_decode (in_buffer x) (in_buffer_size x) = Some t"
    using envelope_in_received [OF inv x] by (simp add: message_type_decode_def received_def arr_get_in)
  then obtain t where t: "message_type_decode (in_buffer x) (in_buffer_size x) = Some t" by blast
  consider "t = Inr MESSAGE_HELLO_TYPE" | "t = Inr MESSAGE_WELCOME_TYPE"
    | "t = Inr MESSAGE_MEMBER_LIST_TYPE" | "t = Inr MESSAGE_DATA_TYPE"
    | "t = Inr MESSAGE_ACK_TYPE" | "t = Inr MESSAGE_STATUS_TYPE"
    | "t \<notin> {Inr MESSAGE_HELLO_TYPE, Inr MESSAGE_WELCOME_TYPE, Inr MESSAGE_MEMBER_LIST_TYPE,
        Inr MESSAGE_DATA_TYPE, Inr MESSAGE_ACK_TYPE, Inr MESSAGE_STATUS_TYPE}" by blast
  then show ?thesis
  proof cases
    case 1
    then show ?thesis using t gossip_handle_hello_ok [OF assms] by (auto simp: gossip_handle_new_message_def)
  next
    case 2
    then show ?thesis using t gossip_handle_welcome_ok [OF assms] by (auto simp: gossip_handle_new_message_def)
  next
    case 3
    then show ?thesis using t gossip_handle_member_list_ok [OF assms] by (auto simp: gossip_handle_new_message_def)
  next
    case 4
    then show ?thesis using t handle_data_ok [OF assms] by (auto simp: gossip_handle_new_message_def)
  next
    case 5
    then show ?thesis using t gossip_handle_ack_ok [OF assms] by (auto simp: gossip_handle_new_message_def)
  next
    case 6
    then show ?thesis
      using t gossip_handle_status_ok [OF assms] by (auto simp: gossip_handle_new_message_def same_node_def)
  next
    case 7
    then show ?thesis using t inv by (simp add: gossip_handle_new_message_def)
  qed
qed

end

text \<open>A node without a callback, and an application that keeps the payloads it is given.\<close>

interpretation no_receiver: receiver_contract L None for L
  by unfold_locales simp

definition recording_receiver :: data_receiver where
  "recording_receiver g p n = do {
     bs \<leftarrow> memcpy_src p n;
     Some (g\<lparr>genv := (genv g)\<lparr>env_app := env_app (genv g) @ [bs]\<rparr>\<rparr>)
   }"

interpretation recording: receiver_contract L "Some recording_receiver" for L
  by unfold_locales (auto simp: recording_receiver_def gossip_inv_def allocs_ok_def)

section \<open>Delivery of data\<close>

text \<open>With the recording application: the payload is delivered exactly when the version is news.\<close>

lemma handle_data_recorded:
  assumes inv: "gossip_inv L g" and x: "envelope_in_ok L g x" and conn: "state g = STATE_CONNECTED"
    and dec: "message_data_decode (in_buffer x) (in_buffer_size x) = Some (Inr (k, m))"
  shows "\<exists>g' v. gossip_handle_data (Some recording_receiver) g x = Some (0, g') \<and> gossip_inv L g'
     \<and> state g' = STATE_CONNECTED \<and> members g' = members g
     \<and> vector_clock_compare_with_record (data_version g) (data_record m) True = Some (v, data_version g')
     \<and> env_app (genv g') = env_app (genv g) @ (if v = VC_BEFORE then [payload m] else [])"
proof -
  note rec = envelope_in_received [OF inv x]
  note m = message_data_decode_Inr [OF rec dec]
  from recording.handle_data_steps [OF inv x conn dec] obtain g1 v c where
    s: "gossip_inv L g1" "same_node g g1" "vc_inv c"
    "vector_clock_compare_with_record (data_version g) (data_record m) True = Some (v, c)"
    "v \<noteq> VC_BEFORE \<longrightarrow> gossip_handle_data (Some recording_receiver) g x = Some (0, g1\<lparr>data_version := c\<rparr>)"
    "v = VC_BEFORE \<longrightarrow> (\<exists>l g4 m' as g5.
       recording_receiver (g1\<lparr>data_version := c, gossip_log := l\<rparr>) (data m) (unat (data_size m)) = Some g4
       \<and> enqueued L g4 (Data m') as g5 \<and> gossip_handle_data (Some recording_receiver) g x = Some (0, g5))"
    unfolding option.case by blast
  show ?thesis
  proof (cases "v = VC_BEFORE")
    case True
    then obtain l g4 m' as g5 where
      g4: "recording_receiver (g1\<lparr>data_version := c, gossip_log := l\<rparr>) (data m) (unat (data_size m)) = Some g4"
      and g5: "enqueued L g4 (Data m') as g5" "gossip_handle_data (Some recording_receiver) g x = Some (0, g5)"
      using s(6) by blast
    have "g4 = g1\<lparr>data_version := c, gossip_log := l,
        genv := (genv g1)\<lparr>env_app := env_app (genv g1) @ [payload m]\<rparr>\<rparr>"
      using g4 payload_Some(1) [OF m(1)] by (simp add: recording_receiver_def)
    then show ?thesis
      using True s(2,4) g5 enqueued_inv [OF g5(1)] conn by (simp add: same_node_def)
  next
    case False
    have "gossip_inv L (g1\<lparr>data_version := c\<rparr>)" using s(1,3) by (simp add: gossip_inv_def)
    then show ?thesis using False s conn by (simp add: same_node_def)
  qed
qed

text \<open>One packet after the other: each is put into the input buffer and handled.\<close>

fun handle_packets ::
  "data_receiver option \<Rightarrow> pittacus_gossip \<Rightarrow> message_envelope_in list \<Rightarrow> pittacus_gossip option" where
  "handle_packets receiver g [] = Some g"
| "handle_packets receiver g (x # xs) = do {
     (_, g) \<leftarrow> gossip_handle_new_message receiver (g\<lparr>input_buffer := in_buffer x\<rparr>) x;
     handle_packets receiver g xs
   }"

definition data_packet :: "message_envelope_in \<Rightarrow> message_data \<Rightarrow> bool" where
  "data_packet x m \<longleftrightarrow> received (in_buffer x) (in_buffer_size x)
     \<and> (\<exists>k. message_data_decode (in_buffer x) (in_buffer_size x) = Some (Inr (k, m)))"

lemma data_packet_type:
  assumes "data_packet x m"
  shows "message_type_decode (in_buffer x) (in_buffer_size x) = Some (Inr MESSAGE_DATA_TYPE)"
  using assms valid_received [of "in_buffer x" "in_buffer_size x" MESSAGE_DATA_TYPE]
  by (auto simp: data_packet_def message_data_decode_def message_type_decode_def received_def arr_get_in
      split: Option.bind_splits if_splits)

lemma data_packet_ok: "data_packet x m \<Longrightarrow> packet_ok L (in_buffer x) (in_buffer_size x)"
  using valid_received [of "in_buffer x" "in_buffer_size x" MESSAGE_DATA_TYPE]
  by (auto simp: data_packet_def message_data_decode_def packet_ok_def split: Option.bind_splits if_splits)

lemma handle_packets_observed:
  assumes "gossip_inv L g" "state g = STATE_CONNECTED" "list_all2 data_packet xs ms"
    "\<forall>x \<in> set xs. dest_ok L (Some (sender x)) (sender_len x)" "ms_size (members g) + 2 ^ 16 < 3 * 2 ^ 29"
  shows "\<exists>g' ds. handle_packets (Some recording_receiver) g xs = Some g' \<and> gossip_inv L g'
     \<and> observe_all (\<lambda>c r. vector_clock_compare_with_record c r True) (data_version g) (map data_record ms) =
         Some (map data_record ds, data_version g')
     \<and> subseq ds ms \<and> env_app (genv g') = env_app (genv g) @ map payload ds"
  using assms(3,1,2,4,5)
proof (induction xs ms arbitrary: g rule: list_all2_induct)
  case Nil
  then show ?case by auto
next
  case (Cons x xs m ms)
  let ?g = "g\<lparr>input_buffer := in_buffer x\<rparr>"
  have rec: "received (in_buffer x) (in_buffer_size x)" using Cons.hyps(1) by (simp add: data_packet_def)
  have inv: "gossip_inv L ?g" using Cons.prems(1) rec by (simp add: gossip_inv_def received_def)
  have x: "envelope_in_ok L ?g x"
    using Cons.prems rec data_packet_ok [OF Cons.hyps(1)] by (simp add: envelope_in_ok_def received_def)
  obtain k where dec: "message_data_decode (in_buffer x) (in_buffer_size x) = Some (Inr (k, m))"
    using Cons.hyps(1) by (auto simp: data_packet_def)
  obtain g1 v where g1: "gossip_handle_data (Some recording_receiver) ?g x = Some (0, g1)" "gossip_inv L g1"
    "state g1 = STATE_CONNECTED" "members g1 = members g"
    "vector_clock_compare_with_record (data_version g) (data_record m) True = Some (v, data_version g1)"
    "env_app (genv g1) = env_app (genv g) @ (if v = VC_BEFORE then [payload m] else [])"
    using handle_data_recorded [OF inv x _ dec] Cons.prems(2) by auto
  obtain g' ds where g': "handle_packets (Some recording_receiver) g1 xs = Some g'" "gossip_inv L g'"
    "observe_all (\<lambda>c r. vector_clock_compare_with_record c r True) (data_version g1) (map data_record ms) =
       Some (map data_record ds, data_version g')"
    "subseq ds ms" "env_app (genv g') = env_app (genv g1) @ map payload ds"
    using Cons.IH [OF g1(2,3)] Cons.prems g1(4) by auto
  let ?ds = "if v = VC_BEFORE then m # ds else ds"
  have "handle_packets (Some recording_receiver) g (x # xs) = Some g'"
    using g1(1) g'(1) data_packet_type [OF Cons.hyps(1)] by (simp add: gossip_handle_new_message_def)
  moreover have "subseq ?ds (m # ms)" using g'(4) by auto
  moreover have "env_app (genv g') = env_app (genv g) @ map payload ?ds" using g'(5) g1(6) by auto
  moreover have "observe_all (\<lambda>c r. vector_clock_compare_with_record c r True) (data_version g) (map data_record (m # ms)) =
       Some (map data_record ?ds, data_version g')" using g1(5) g'(3) by simp
  ultimately show ?case using g'(2) by blast
qed

section \<open>Properties\<close>

text \<open>The data message of the examples as a packet in the input buffer, from a node of the family.\<close>

definition ex_packet :: message_envelope_in where
  "ex_packet = \<lparr>sender = ex_addr, sender_len = 16, in_buffer = data_msg_bytes ex_data @ replicate 483 0,
     in_buffer_size = 29\<rparr>"

definition ex_arrived :: message_data where
  "ex_arrived = ex_data\<lparr>data := Some ([104, 101, 121] @ replicate 483 0)\<rparr>"

lemma ex_data_bytes:
  "data_msg_bytes ex_data = header_bytes (message_header_init MESSAGE_DATA_TYPE 4)
     @ record_bytes \<lparr>sequence_number = 6, member_id = 1\<rparr> @ be16 3 @ [104, 101, 121]"
  by (simp add: data_msg_bytes_def ex_data_def payload_def memcpy_src_def mem_read_def)

lemma ex_packet_data [simp]: "data_packet ex_packet ex_arrived"
proof -
  have "message_data_decode (in_buffer ex_packet) 29 = Some (Inr (29, ex_arrived))"
    unfolding ex_packet_def message_envelope_in.simps ex_data_bytes
    by (simp add: message_data_decode_def header_init_simps codec_simps mem_simps ex_arrived_def ex_data_def Let_def)
  moreover have "length (in_buffer ex_packet) = 512" by (simp add: ex_packet_def ex_data_bytes header_init_simps)
  ultimately show ?thesis by (auto simp: data_packet_def received_def ex_packet_def)
qed

lemma ex_packet_sender [simp]: "sender ex_packet = ex_addr" "sender_len ex_packet = 16" "in_buffer_size ex_packet = 29"
  by (simp_all add: ex_packet_def)

lemma ex_envelope_in [simp]: "envelope_in_ok 16 (ex_node\<lparr>input_buffer := in_buffer ex_packet\<rparr>) ex_packet"
  using data_packet_ok [OF ex_packet_data, of 16] by (simp add: envelope_in_ok_def ex_node_def)

lemma ex_node_input [simp]: "gossip_inv 16 (ex_node\<lparr>input_buffer := in_buffer ex_packet\<rparr>)"
  using ex_node_inv ex_packet_data by (simp add: gossip_inv_def data_packet_def received_def)

definition ex_welcome_packet :: message_envelope_in where
  "ex_welcome_packet = \<lparr>sender = ex_addr, sender_len = 16, in_buffer = welcome_bytes ex_welcome @ replicate 470 0,
     in_buffer_size = 42\<rparr>"

definition ex_joining :: pittacus_gossip where
  "ex_joining = ex_node\<lparr>state := STATE_JOINING, input_buffer := in_buffer ex_welcome_packet\<rparr>"

lemma ex_welcome_bytes:
  "welcome_bytes ex_welcome = header_bytes (message_header_init MESSAGE_WELCOME_TYPE 10) @ be32 9 @ member_bytes ex_member"
  by (simp add: welcome_bytes_def ex_welcome_def)

lemma ex_joining_ok [simp]: "gossip_inv 16 ex_joining" "envelope_in_ok 16 ex_joining ex_welcome_packet"
proof -
  have "length (in_buffer ex_welcome_packet) = 512" by (simp add: ex_welcome_packet_def ex_welcome_bytes header_init_simps)
  then show "gossip_inv 16 ex_joining" using ex_node_inv by (simp add: gossip_inv_def ex_joining_def)
  have "in_buffer ex_welcome_packet ! 5 = MESSAGE_WELCOME_TYPE"
    by (simp add: ex_welcome_packet_def ex_welcome_bytes header_bytes_def message_header_init_def nth_append)
  moreover have "uint32_decode (in_buffer ex_welcome_packet) 22 = Some 16"
    by (simp add: ex_welcome_packet_def ex_welcome_bytes header_init_simps member_bytes_def codec_simps)
  then have "u32_at (in_buffer ex_welcome_packet) 22 = 16" using at_decode(2) by fastforce
  ultimately show "envelope_in_ok 16 ex_joining ex_welcome_packet"
    by (simp add: envelope_in_ok_def packet_ok_def ex_joining_def ex_node_def)
       (simp add: ex_welcome_packet_def)
qed



text \<open>C3. Data packets that arrive one after the other, in any order and any number of copies, are
  delivered to the application at most once and per originator in increasing order of their
  numbers, never one the node had already seen, and every number that arrived is covered by the
  node's version afterwards, provided that all originators fit into the version.\<close>

theorem data_delivered_once_in_order:
  assumes "gossip_inv L g" "state g = STATE_CONNECTED" "list_all2 data_packet xs ms"
    "\<forall>x \<in> set xs. dest_ok L (Some (sender x)) (sender_len x)" "ms_size (members g) + 2 ^ 16 < 3 * 2 ^ 29"
    "card (dom (vc_map (data_version g)) \<union> member_id ` set (map data_record ms)) \<le> MAX_VECTOR_SIZE"
  shows "\<exists>g' ds. handle_packets (Some recording_receiver) g xs = Some g' \<and> gossip_inv L g'
     \<and> env_app (genv g') = env_app (genv g) @ map payload ds \<and> subseq ds ms
     \<and> (\<forall>i. sorted_wrt (<) (map sequence_number (filter (\<lambda>r. member_id r = i) (map data_record ds))))
     \<and> (\<forall>r \<in> set (map data_record ds). \<forall>s. vc_map (data_version g) (member_id r) = Some s \<longrightarrow> s < sequence_number r)
     \<and> (\<forall>r \<in> set (map data_record ms). \<exists>s. vc_map (data_version g') (member_id r) = Some s \<and> sequence_number r \<le> s)"
proof -
  obtain g' ds where h: "handle_packets (Some recording_receiver) g xs = Some g'" "gossip_inv L g'"
    "observe_all (\<lambda>c r. vector_clock_compare_with_record c r True) (data_version g) (map data_record ms) =
       Some (map data_record ds, data_version g')"
    "subseq ds ms" "env_app (genv g') = env_app (genv g) @ map payload ds"
    using handle_packets_observed [OF assms(1-5)] by blast
  have "vc_inv (data_version g)" using assms(1) by (simp add: gossip_inv_def)
  from clock_store.observe_all_news [OF this assms(6)] h(3)
  have news: "map data_record ds = news (vc_map (data_version g)) (map data_record ms)"
    "\<forall>r \<in> set (map data_record ms). \<exists>s. vc_map (data_version g') (member_id r) = Some s \<and> sequence_number r \<le> s"
    by auto
  have "\<forall>i. sorted_wrt (<) (map sequence_number (filter (\<lambda>r. member_id r = i) (map data_record ds)))"
    unfolding news(1) using news_increasing by blast
  moreover have "\<forall>r \<in> set (map data_record ds). \<forall>s. vc_map (data_version g) (member_id r) = Some s \<longrightarrow> s < sequence_number r"
    unfolding news(1) using news_above by blast
  ultimately show ?thesis using h(1,2,4,5) news(2) by blast
qed

theorem data_delivered_once_in_order_witness:
  "\<exists>g' ds. handle_packets (Some recording_receiver) ex_node [ex_packet, ex_packet] = Some g' \<and> gossip_inv 16 g'
     \<and> env_app (genv g') = env_app (genv ex_node) @ map payload ds \<and> subseq ds [ex_arrived, ex_arrived]
     \<and> (\<forall>i. sorted_wrt (<) (map sequence_number (filter (\<lambda>r. member_id r = i) (map data_record ds))))
     \<and> (\<forall>r \<in> set (map data_record ds). \<forall>s. vc_map (data_version ex_node) (member_id r) = Some s \<longrightarrow> s < sequence_number r)
     \<and> (\<forall>r \<in> set (map data_record [ex_arrived, ex_arrived]).
          \<exists>s. vc_map (data_version g') (member_id r) = Some s \<and> sequence_number r \<le> s)"
proof (rule data_delivered_once_in_order)
  show "card (dom (vc_map (data_version ex_node)) \<union> member_id ` set (map data_record [ex_arrived, ex_arrived]))
      \<le> MAX_VECTOR_SIZE"
    by (simp add: ex_node_def ex_arrived_def ex_data_def)
  show "state ex_node = STATE_CONNECTED" "ms_size (members ex_node) + 2 ^ 16 < 3 * 2 ^ 29"
    by (simp_all add: ex_node_def)
qed simp_all

text \<open>A welcome message connects the node: whatever its state was, it becomes CONNECTED, the sender
  of the message joins the member set and the hello it answers leaves the queue; a message that cannot
  be decoded changes neither state, members nor queue and is reported as an error.\<close>

lemma welcome_connects:
  assumes "gossip_inv L g" "envelope_in_ok L g x"
  shows "\<exists>r g'. gossip_handle_welcome g x = Some (r, g') \<and> gossip_inv L g'
           \<and> ((r < 0 \<and> state g' = state g \<and> members g' = members g \<and> outbound_messages g' = outbound_messages g)
              \<or> (\<exists>k m e. message_welcome_decode (genv g) (in_buffer x) (in_buffer_size x) = Some (Inr (k, m), e)
                  \<and> r = 0 \<and> state g' = STATE_CONNECTED
                  \<and> ms_keys (members g') = add_new (ms_keys (members g)) [member_key (welcome_this_member m)]
                  \<and> outbound_messages g' = remove_by_sequence_num (hello_sequence_num m) (outbound_messages g)))"
  using gossip_handle_welcome_ok [OF assms] by blast


text \<open>
  A datagram of 30 bytes that announces 20 members, in a buffer in which earlier members of 26 bytes each are
  left: the last one starts at 508.
\<close>

definition ex_stale :: "u8 list" where
  "ex_stale = take 512 (PROTOCOL_ID @ [MESSAGE_MEMBER_LIST_TYPE, 0, 0, 0, 0, 0, 1, 0, 20]
     @ concat (replicate 20 ([0, 1, 0, 0, 0, 7, 0, 0, 0, 16] @ ex_addr)))"

lemma drop_copies: "j \<le> k \<Longrightarrow> drop (j * length xs) (concat (replicate k xs)) = concat (replicate (k - j) xs)"
proof (induction j arbitrary: k)
  case (Suc j)
  then obtain k' where "k = Suc k'" by (cases k) auto
  then show ?case using Suc by simp
qed simp

lemma ex_stale_length: "j < 19 \<Longrightarrow> u32_at ex_stale (20 + j * 26) = 16"
proof -
  assume j: "j < 19"
  define m where "m = [0, 1, 0, 0, 0, 7, 0, 0, 0, 16] @ ex_addr"
  define h where "h = PROTOCOL_ID @ [MESSAGE_MEMBER_LIST_TYPE, 0, 0, 0, 0, 0, 1, 0, 20]"
  have stale: "ex_stale = take 512 (h @ concat (replicate 20 m))" by (simp add: ex_stale_def h_def m_def)
  obtain i where i: "20 - j = Suc i" using j by (cases "20 - j") auto
  have "length m = 26" "length h = 14" by (simp_all add: m_def h_def PROTOCOL_ID_def)
  then have "drop (14 + j * 26) (h @ concat (replicate 20 m)) = m @ concat (replicate i m)"
    using drop_copies [of j 20 m] j i by simp
  moreover have "drop 6 (m @ xs) = [0, 0, 0, 16] @ ex_addr @ xs" for xs by (simp add: m_def)
  ultimately have "drop 6 (drop (14 + j * 26) (h @ concat (replicate 20 m))) = [0, 0, 0, 16] @ ex_addr @ concat (replicate i m)"
    by metis
  moreover have "take 4 (drop (20 + j * 26) (take 512 xs)) = take 4 (drop 6 (drop (14 + j * 26) xs))" for xs :: "u8 list"
    using j by (simp add: drop_take min_def add.commute)
  ultimately have "take 4 (drop (20 + j * 26) ex_stale) = take 4 ([0, 0, 0, 16] @ ex_addr @ concat (replicate i m))"
    unfolding stale by metis
  then show ?thesis by (simp add: u32_at_def)
qed

lemma ex_stale_overrun: "i \<le> 19 \<Longrightarrow> \<not> members_within ex_stale 30 (Suc i) (14 + (19 - i) * 26)"
proof (induction i)
  case 0
  have "length ex_stale \<le> 512" by (simp add: ex_stale_def)
  then show ?case by simp
next
  case (Suc i)
  define j where "j = 19 - Suc i"
  have j: "19 - i = Suc j" "j < 19" using Suc.prems by (simp_all add: j_def)
  have "u32_at ex_stale (14 + j * 26 + 6) = 16" using ex_stale_length [OF j(2)] by simp
  moreover have "\<not> members_within ex_stale 30 (Suc i) (14 + Suc j * 26)" using Suc j by simp
  moreover have "14 + j * 26 + 10 + 16 = 14 + Suc j * 26" "\<not> 30 < 14 + j * 26 + 10 \<or> \<not> 14 + j * 26 \<le> 30"
    by (cases j; simp)+
  ultimately show ?case unfolding j_def [symmetric] by (subst members_within.simps) (simp only: simp_thms de_Morgan_disj de_Morgan_conj, blast?)
qed

lemma ex_stale_facts:
  "received ex_stale 30" "is_message MESSAGE_MEMBER_LIST_TYPE ex_stale 30" "\<not> members_within ex_stale 30 (u16_at ex_stale 12) 14"
proof -
  show "received ex_stale 30" by (simp add: received_def ex_stale_def length_concat sum_list_replicate)
  show "is_message MESSAGE_MEMBER_LIST_TYPE ex_stale 30" by (simp add: is_message_def ex_stale_def PROTOCOL_ID_def)
  have "u16_at ex_stale 12 = Suc 19" by (simp add: u16_at_def ex_stale_def)
  then show "\<not> members_within ex_stale 30 (u16_at ex_stale 12) 14" using ex_stale_overrun [of 19] by simp
qed

text \<open>C33. How far the decoders stay within memory, for any bytes in the input buffer as long as no allocation
  fails. The decoders of acknowledgements and data always do. Those of hello and welcome do exactly if the address
  of a message long enough to be looked at ends within the 512 bytes of the buffer, that of member
  lists exactly if each member it walks over does, that of status exactly if a clock that was received whole has at
  most 20 records. What they return is typed by the numbers in the buffer: members have addresses of the
  announced lengths, a list has none of them cut, a payload ends with the datagram, a clock fits into its array.\<close>

theorem decoders_within_buffer:
  assumes "received buf n" "allocs_ok e"
  shows "(message_hello_decode e buf n \<noteq> None \<longleftrightarrow>
         (is_message MESSAGE_HELLO_TYPE buf n \<and> 28 \<le> n \<longrightarrow> 22 + u32_at buf 18 \<le> INPUT_BUFFER_SIZE))
     \<and> (message_welcome_decode e buf n \<noteq> None \<longleftrightarrow>
         (is_message MESSAGE_WELCOME_TYPE buf n \<and> 32 \<le> n \<longrightarrow> 26 + u32_at buf 22 \<le> INPUT_BUFFER_SIZE))
     \<and> (message_member_list_decode e buf n \<noteq> None \<longleftrightarrow>
         (is_message MESSAGE_MEMBER_LIST_TYPE buf n \<and> 14 \<le> n \<longrightarrow> members_within buf n (u16_at buf 12) 14))
     \<and> (message_status_decode buf n vector_clock_zero \<noteq> None \<longleftrightarrow>
         (is_message MESSAGE_STATUS_TYPE buf n \<and> 14 + 12 * u16_at buf 12 \<le> n \<longrightarrow> u16_at buf 12 \<le> MAX_VECTOR_SIZE))
     \<and> message_ack_decode buf n \<noteq> None \<and> message_data_decode buf n \<noteq> None
     \<and> (\<forall>k m e'. message_hello_decode e buf n = Some (Inr (k, m), e') \<longrightarrow>
          k = 22 + u32_at buf 18 \<and> member_fam (u32_at buf 18) (hello_this_member m))
     \<and> (\<forall>k m e'. message_welcome_decode e buf n = Some (Inr (k, m), e') \<longrightarrow>
          k = 26 + u32_at buf 22 \<and> member_fam (u32_at buf 22) (welcome_this_member m))
     \<and> (\<forall>k m e'. message_member_list_decode e buf n = Some (Inr (k, m), e') \<longrightarrow>
          \<not> list_cut buf n (u16_at buf 12) 14 \<and> (\<forall>x \<in> set (list_members m). member_ok x)
          \<and> map (\<lambda>x. unat (address_len x)) (list_members m) = announced_lengths buf (u16_at buf 12) 14)
     \<and> (\<forall>k m. message_data_decode buf n = Some (Inr (k, m)) \<longrightarrow> data_valid m \<and> 26 + unat (data_size m) = n \<and> k = n)
     \<and> (\<forall>k m. message_status_decode buf n vector_clock_zero = Some (Inr (k, m)) \<longrightarrow> vc_bounded (status_version m))"
  (is "?h \<and> ?w \<and> ?l \<and> ?s \<and> ?a \<and> ?d \<and> ?ht \<and> ?wt \<and> ?lt \<and> ?dt \<and> ?st")
proof -
  have h: "?h \<and> ?ht" using message_hello_decode_at [OF assms] by (auto split: if_splits)
  have w: "?w \<and> ?wt" using message_welcome_decode_at [OF assms] by (auto split: if_splits)
  have l: "?l \<and> ?lt" using message_member_list_decode_at [OF assms] by (auto split: if_splits)
  have a: "?a" and d: "?d" using message_ack_decode_received [OF assms(1)] message_data_decode_received [OF assms(1)] by auto
  have s: "?s" by (rule message_status_decode_at(1) [OF assms(1)])
  have st: "?st" using message_status_decode_at(2) [OF assms(1)] by blast
  have dt: "?dt" using message_data_decode_Inr [OF assms(1)] by blast
  show ?thesis by (intro conjI h [THEN conjunct1] h [THEN conjunct2] w [THEN conjunct1] w [THEN conjunct2]
        l [THEN conjunct1] l [THEN conjunct2] a d s st dt)
qed

theorem decoders_within_buffer_witness:
  "message_member_list_decode ex_env ex_stale 30 = None \<and> message_hello_decode ex_env ex_stale 30 \<noteq> None"
proof -
  have "\<not> is_message MESSAGE_HELLO_TYPE ex_stale 30" using ex_stale_facts(2) by (simp add: is_message_def)
  moreover have "14 \<le> (30 :: nat)" by simp
  ultimately show ?thesis
    using decoders_within_buffer [OF ex_stale_facts(1) ex_env_ok] ex_stale_facts(2,3) by blast
qed

end
