(* ===== verification/Pt_Api.thy ===== *)
theory Pt_Api
  imports Pt_Handlers
begin

text \<open>
  The functions an application calls (\<^verbatim>\<open>gossip.h\<close>) and the socket they use (\<^verbatim>\<open>network.c\<close>).
\<close>

section \<open>Sockets\<close>

text \<open>
  The answers of \<^verbatim>\<open>socket\<close>, \<^verbatim>\<open>fcntl\<close>, \<^verbatim>\<open>bind\<close> and \<^verbatim>\<open>getsockname\<close> for the calls of one
  initialisation, and the sockets that are open.
\<close>

record os =
  os_socket :: int
  os_fcntl :: int
  os_bind :: int
  os_getsockname :: int
  os_name :: "u8 list"
  os_name_len :: u32
  os_open :: "int list"

definition pt_socket :: "os \<Rightarrow> int \<times> os" where
  "pt_socket os =
     (os_socket os, if os_socket os < 0 then os else os\<lparr>os_open := os_socket os # os_open os\<rparr>)"

definition pt_close :: "os \<Rightarrow> int \<Rightarrow> os" where
  "pt_close os fd = os\<lparr>os_open := remove1 fd (os_open os)\<rparr>"

definition pt_bind :: "os \<Rightarrow> int \<Rightarrow> u8 list \<Rightarrow> u32 \<Rightarrow> int option" where
  "pt_bind os fd addr addr_len = do { _ \<leftarrow> mem_read addr 0 (unat addr_len); Some (os_bind os) }"

definition pt_get_sock_name :: "os \<Rightarrow> int \<Rightarrow> int \<times> u8 list \<times> u32" where
  "pt_get_sock_name os fd = (os_getsockname os, os_name os, os_name_len os)"

definition pt_socket_datagram :: "os \<Rightarrow> u8 list \<Rightarrow> u32 \<Rightarrow> (int \<times> os) option" where
  "pt_socket_datagram os addr addr_len = do {
     domain \<leftarrow> mem_read addr 0 2;
     let (fd, os) = pt_socket os;
     if fd < 0 then Some (fd, os)
     else do {
       let fcntl_result = os_fcntl os;
       if fcntl_result < 0 then Some (fcntl_result, pt_close os fd)
       else do {
         bind_result \<leftarrow> pt_bind os fd addr addr_len;
         if bind_result < 0 then Some (bind_result, pt_close os fd)
         else Some (fd, os)
       }
     }
   }"

text \<open>
  A datagram that does not fit is cut off; one of length 0 and an error leave the buffer alone.
\<close>

definition pt_recv_from :: "env \<Rightarrow> u8 list \<Rightarrow> (int \<times> u8 list \<times> u8 list \<times> u32 \<times> env) option" where
  "pt_recv_from e buffer =
     (let e' = e\<lparr>env_recvs := stl (env_recvs e)\<rparr>
      in case shd (env_recvs e) of
           Recv_Error \<Rightarrow> Some (-1, buffer, [], 0, e')
         | Recv_Datagram bs from from_len \<Rightarrow> do {
             let bs = take INPUT_BUFFER_SIZE bs;
             buffer \<leftarrow> mem_write buffer 0 bs;
             Some (int (length bs), buffer, from, from_len, e')
           })"

definition pt_send_to :: "env \<Rightarrow> u8 list \<Rightarrow> u8 list \<Rightarrow> int \<times> env" where
  "pt_send_to e bytes to =
     (let r = shd (env_sends e); e = e\<lparr>env_sends := stl (env_sends e)\<rparr>
      in (r, if r < 0 then e else e\<lparr>env_wire := env_wire e @ [(to, bytes)]\<rparr>))"

section \<open>Creating and destroying\<close>

text \<open>\<open>self\<close> is the uninitialised memory of the descriptor.\<close>

definition pittacus_gossip_init ::
  "pittacus_gossip \<Rightarrow> os \<Rightarrow> u8 list \<Rightarrow> u32 \<Rightarrow> (pittacus_error \<times> pittacus_gossip \<times> os) option" where
  "pittacus_gossip_init self os addr addr_len = do {
     (fd, os) \<leftarrow> pt_socket_datagram os addr addr_len;
     let self = self\<lparr>socket := fd\<rparr>;
     if fd < 0 then Some (PITTACUS_ERR_INIT_FAILED, self, os)
     else do {
       let (r, name, name_len) = pt_get_sock_name os fd;
       if r < 0 then Some (PITTACUS_ERR_INIT_FAILED, self, pt_close os fd)
       else do {
         let self = self\<lparr>output_buffer_offset := 0, outbound_messages := [], gossip_sequence_num := 0,
                         data_counter := 0, data_version := vector_clock_zero, state := STATE_INITIALIZED\<rparr>;
         (_, me, e) \<leftarrow> cluster_member_init (genv self) name name_len;
         let self = self\<lparr>self_address := me, genv := e\<rparr>;
         let (_, ms, e) = cluster_member_set_init (genv self) (members self);
         let self = self\<lparr>members := ms, genv := e\<rparr>;
         let self = self\<lparr>gossip_log := (gossip_log self)\<lparr>log_current_idx := 0, log_size := 0\<rparr>,
                         last_gossip_ts := 0\<rparr>;
         Some (PITTACUS_ERR_NONE, self, os)
       }
     }
   }"

definition pittacus_gossip_create ::
  "pittacus_gossip \<Rightarrow> os \<Rightarrow> u8 list \<Rightarrow> u32 \<Rightarrow> (pittacus_gossip option \<times> os) option" where
  "pittacus_gossip_create raw os addr addr_len = do {
     let (ok, e) = malloc (genv raw);
     if \<not> ok then Some (None, os)
     else do {
       (int_res, self, os) \<leftarrow> pittacus_gossip_init (raw\<lparr>genv := e\<rparr>) os addr addr_len;
       if err_code int_res < 0 then Some (None, os) else Some (Some self, os)
     }
   }"

text \<open>The descriptor as it is when it is freed.\<close>

definition pittacus_gossip_destroy :: "pittacus_gossip \<Rightarrow> os \<Rightarrow> (pittacus_gossip \<times> os) option" where
  "pittacus_gossip_destroy self os = do {
     let os = pt_close os (socket self);
     let self = self\<lparr>outbound_messages := [], state := STATE_DESTROYED,
                     self_address := cluster_member_destroy (self_address self)\<rparr>;
     ms \<leftarrow> cluster_member_set_destroy (members self);
     Some (self\<lparr>members := ms\<rparr>, os)
   }"

section \<open>Joining\<close>

fun join_seeds ::
  "pittacus_gossip \<Rightarrow> (u8 list option \<times> u32) list \<Rightarrow> (int \<times> pittacus_gossip) option" where
  "join_seeds self [] = Some (err_code PITTACUS_ERR_NONE, self\<lparr>state := STATE_JOINING\<rparr>)"
| "join_seeds self ((addr, addr_len) # nodes) = do {
     (res, self) \<leftarrow> gossip_enqueue_hello self addr addr_len;
     if res < 0 then Some (res, self) else join_seeds self nodes
   }"

text \<open>\<open>seed_nodes\<close> is \<open>None\<close> for \<^verbatim>\<open>NULL\<close>, else the array.\<close>

definition pittacus_gossip_join ::
  "pittacus_gossip \<Rightarrow> (u8 list option \<times> u32) list option \<Rightarrow> u16 \<Rightarrow> (int \<times> pittacus_gossip) option" where
  "pittacus_gossip_join self seed_nodes seed_nodes_len =
     (if state self \<noteq> STATE_INITIALIZED then Some (err_code PITTACUS_ERR_BAD_STATE, self)
      else case seed_nodes of
          None \<Rightarrow> Some (err_code PITTACUS_ERR_NONE, self\<lparr>state := STATE_CONNECTED\<rparr>)
        | Some nodes \<Rightarrow>
            if seed_nodes_len = 0 then Some (err_code PITTACUS_ERR_NONE, self\<lparr>state := STATE_CONNECTED\<rparr>)
            else if length nodes < unat seed_nodes_len then None
            else join_seeds self (take (unat seed_nodes_len) nodes))"

section \<open>Receiving and sending\<close>

definition pittacus_gossip_process_receive ::
  "data_receiver option \<Rightarrow> pittacus_gossip \<Rightarrow> (int \<times> pittacus_gossip) option" where
  "pittacus_gossip_process_receive receiver self =
     (if state self \<noteq> STATE_JOINING \<and> state self \<noteq> STATE_CONNECTED
      then Some (err_code PITTACUS_ERR_BAD_STATE, self)
      else do {
        (read_result, buffer, from, from_len, e) \<leftarrow> pt_recv_from (genv self) (input_buffer self);
        let self = self\<lparr>input_buffer := buffer, genv := e\<rparr>;
        if read_result \<le> 0 then Some (err_code PITTACUS_ERR_READ_FAILED, self)
        else gossip_handle_new_message receiver self
               \<lparr>sender = from, sender_len = from_len, in_buffer = input_buffer self,
                in_buffer_size = nat read_result\<rparr>
      })"

text \<open>
  When a recipient is given up: the envelopes directly behind that go to the same recipient are
  removed as well.
\<close>

fun drop_same_recipient :: "envelope \<Rightarrow> envelope list \<Rightarrow> envelope list option" where
  "drop_same_recipient current [] = Some []"
| "drop_same_recipient current (next_env # rest) = do {
     same \<leftarrow> memcmp_eq (Some (recipient next_env)) (Some (recipient current)) (unat (recipient_len next_env));
     if same then drop_same_recipient current rest else Some (next_env # rest)
   }"

lemma drop_same_recipient_length [termination_simp]:
  "drop_same_recipient c xs = Some ys \<Longrightarrow> length ys \<le> length xs"
  by (induction xs) (auto split: Option.bind_splits if_splits dest: le_SucI)

text \<open>
  The loop of \<^verbatim>\<open>pittacus_gossip_process_send\<close>. \<open>kept\<close> are the envelopes it has passed and left
  in the queue, the last argument those from \<^verbatim>\<open>head\<close> on.
\<close>

function process_send_loop ::
  "pittacus_gossip \<Rightarrow> int \<Rightarrow> envelope list \<Rightarrow> envelope list \<Rightarrow> (int \<times> pittacus_gossip) option" where
  "process_send_loop self msg_sent kept [] = Some (msg_sent, self\<lparr>outbound_messages := kept\<rparr>)"
| "process_send_loop self msg_sent kept (current # rest) =
     (if attempt_num current \<ge> max_attempts current
      then (if max_attempts current > 1
            then do {
              (_, ms) \<leftarrow> cluster_member_set_remove_by_addr (members self) (recipient current)
                           (unat (recipient_len current));
              rest \<leftarrow> drop_same_recipient current rest;
              process_send_loop (self\<lparr>members := ms\<rparr>) msg_sent kept rest
            }
            else process_send_loop self msg_sent kept rest)
      else let (current_ts, e) = pt_time (genv self); self = self\<lparr>genv := e\<rparr>
           in if attempt_num current \<noteq> 0 \<and> attempt_ts current + MESSAGE_RETRY_INTERVAL > current_ts
              then process_send_loop self msg_sent (kept @ [current]) rest
              else do {
                let offset = sizeof_message_header - 4;
                out \<leftarrow> mem_write (output_buffer self) (env_buffer current + offset)
                         (mem_of_word (PT_HTONL (sequence_num current)));
                let self = self\<lparr>output_buffer := out\<rparr>;
                bytes \<leftarrow> mem_read (output_buffer self) (env_buffer current) (env_buffer_size current);
                let (write_result, e) = pt_send_to (genv self) bytes (recipient current);
                let self = self\<lparr>genv := e\<rparr>;
                if write_result < 0
                then Some (err_code PITTACUS_ERR_WRITE_FAILED,
                           self\<lparr>outbound_messages := kept @ current # rest\<rparr>)
                else do {
                  let current = current\<lparr>attempt_ts := current_ts, attempt_num := attempt_num current + 1\<rparr>;
                  process_send_loop self (msg_sent + 1)
                    (if max_attempts current \<le> 1 then kept else kept @ [current]) rest
                }
              })"
  by pat_completeness auto
termination
  by (relation "measure (\<lambda>(self, n, kept, rest). length rest)")
    (auto dest: drop_same_recipient_length simp: less_Suc_eq_le)

declare process_send_loop.simps [simp del]

definition pittacus_gossip_process_send :: "pittacus_gossip \<Rightarrow> (int \<times> pittacus_gossip) option" where
  "pittacus_gossip_process_send self =
     (if state self \<noteq> STATE_JOINING \<and> state self \<noteq> STATE_CONNECTED
      then Some (err_code PITTACUS_ERR_BAD_STATE, self)
      else process_send_loop self 0 [] (outbound_messages self))"

text \<open>The size is an \<^verbatim>\<open>uint32_t\<close> here and an \<^verbatim>\<open>uint16_t\<close> in the callee.\<close>

definition pittacus_gossip_send_data ::
  "pittacus_gossip \<Rightarrow> u8 list option \<Rightarrow> u32 \<Rightarrow> (int \<times> pittacus_gossip) option" where
  "pittacus_gossip_send_data self bytes n =
     (if state self \<noteq> STATE_CONNECTED then Some (err_code PITTACUS_ERR_BAD_STATE, self)
      else gossip_enqueue_data self bytes (ucast n))"

section \<open>The tick\<close>

text \<open>\<^verbatim>\<open>return next_gossip_ts - current_ts\<close> converts 64 bits to an \<^verbatim>\<open>int\<close>.\<close>

definition int_of_u64 :: "u64 \<Rightarrow> int" where
  "int_of_u64 w = sint (ucast w :: u32)"

definition pittacus_gossip_tick :: "pittacus_gossip \<Rightarrow> (int \<times> pittacus_gossip) option" where
  "pittacus_gossip_tick self =
     (if state self \<noteq> STATE_CONNECTED then Some (int_of_u64 GOSSIP_TICK_INTERVAL, self)
      else do {
        let next_gossip_ts = last_gossip_ts self + GOSSIP_TICK_INTERVAL;
        let (current_ts, e) = pt_time (genv self);
        let self = self\<lparr>genv := e\<rparr>;
        if next_gossip_ts > current_ts then Some (int_of_u64 (next_gossip_ts - current_ts), self)
        else do {
          (enqueue_result, self) \<leftarrow> gossip_enqueue_status self None 0;
          if enqueue_result < 0 then Some (enqueue_result, self)
          else Some (int_of_u64 GOSSIP_TICK_INTERVAL, self\<lparr>last_gossip_ts := current_ts\<rparr>)
        }
      })"

definition pittacus_gossip_state :: "pittacus_gossip \<Rightarrow> gossip_state" where
  "pittacus_gossip_state self = state self"

definition pittacus_gossip_socket_fd :: "pittacus_gossip \<Rightarrow> int" where
  "pittacus_gossip_socket_fd self = socket self"

section \<open>Sockets are not leaked\<close>

lemma pt_socket_datagram_ok:
  assumes "2 \<le> length addr" "unat addr_len \<le> length addr"
  shows "\<exists>fd os'. pt_socket_datagram os addr addr_len = Some (fd, os')
           \<and> os_open os' = (if fd < 0 then os_open os else fd # os_open os)
           \<and> os' = os\<lparr>os_open := os_open os'\<rparr>"
  using assms
  by (simp add: pt_socket_datagram_def pt_socket_def pt_close_def pt_bind_def mem_read_def Let_def)

section \<open>Initialisation establishes the invariant\<close>

text \<open>
  The memory of a new descriptor: only the sizes of its arrays are known.
\<close>

definition raw_ok :: "pittacus_gossip \<Rightarrow> bool" where
  "raw_ok g \<longleftrightarrow> length (input_buffer g) = INPUT_BUFFER_SIZE \<and> length (output_buffer g) = OUTPUT_BUFFER_SIZE
     \<and> length (messages (gossip_log g)) = DATA_LOG_SIZE \<and> (\<forall>r \<in> set (messages (gossip_log g)). log_record_ok r)"

lemma vc_inv_zero: "vc_inv vector_clock_zero" "vc_map vector_clock_zero = Map.empty"
  by (simp_all add: vc_inv_def vc_wf_def vector_clock_zero_def vc_map_def vc_pairs_def)

lemma cluster_member_init_ok:
  assumes "allocs_ok e" "unat len \<le> length addr"
  shows "\<exists>m e'. cluster_member_init e addr len = Some (PITTACUS_ERR_NONE, m, e') \<and> allocs_ok e'
           \<and> member_ok m \<and> address_len m = len \<and> member_addr m = take (unat len) addr"
proof -
  obtain now e1 where t: "pt_time e = (now, e1)" by (cases "pt_time e")
  then have "allocs_ok e1" using assms(1) by (auto simp: pt_time_def allocs_ok_def split: prod.splits)
  then obtain e2 where "malloc e1 = (True, e2)" "allocs_ok e2" using malloc_ok by blast
  then show ?thesis
    using t assms(2) by (simp add: cluster_member_init_def mem_read_def member_ok_def member_addr_def)
qed

lemma cluster_member_set_init_ok:
  assumes "allocs_ok e"
  shows "\<exists>s e'. cluster_member_set_init e s0 = (PITTACUS_ERR_NONE, s, e') \<and> allocs_ok e' \<and> members_inv s \<and> ms_list s = []"
proof -
  obtain e' where "malloc e = (True, e')" "allocs_ok e'" using malloc_ok [OF assms] by blast
  then show ?thesis by (simp add: cluster_member_set_init_def members_inv_def ms_keys_def ms_list_def)
qed

lemma pittacus_gossip_create_ok:
  assumes raw: "raw_ok raw" "allocs_ok (genv raw)"
    and addr: "2 \<le> length addr" "unat addr_len \<le> length addr"
    and name: "unat (os_name_len os) \<le> length (os_name os)" "12 \<le> unat (os_name_len os)" "unat (os_name_len os) \<le> 128"
  shows "\<exists>r os'. pittacus_gossip_create raw os addr addr_len = Some (r, os')
     \<and> (r = None \<longrightarrow> os_open os' = os_open os)
     \<and> (\<forall>g. r = Some g \<longrightarrow> gossip_inv (unat (os_name_len os)) g \<and> state g = STATE_INITIALIZED
          \<and> outbound_messages g = [] \<and> ms_list (members g) = [] \<and> vc_map (data_version g) = Map.empty
          \<and> log_map (gossip_log g) = Map.empty \<and> os_open os' = socket g # os_open os)"
proof -
  obtain e where e: "malloc (genv raw) = (True, e)" "allocs_ok e" using malloc_ok [OF raw(2)] by blast
  let ?raw = "raw\<lparr>genv := e\<rparr>"
  obtain fd os1 where s: "pt_socket_datagram os addr addr_len = Some (fd, os1)"
    "os_open os1 = (if fd < 0 then os_open os else fd # os_open os)" "os1 = os\<lparr>os_open := os_open os1\<rparr>"
    using pt_socket_datagram_ok [OF addr] by blast
  have name1: "os_name os1 = os_name os" "os_name_len os1 = os_name_len os" "os_getsockname os1 = os_getsockname os"
    by (subst s(3), simp)+
  show ?thesis
  proof (cases "fd < 0")
    case True
    then show ?thesis using e s by (simp add: pittacus_gossip_create_def pittacus_gossip_init_def)
  next
    case False
    show ?thesis
    proof (cases "os_getsockname os < 0")
      case True
      then show ?thesis
        using e s False name1
        by (simp add: pittacus_gossip_create_def pittacus_gossip_init_def pt_get_sock_name_def pt_close_def)
    next
      case named: False
      obtain me e1 where me: "cluster_member_init e (os_name os) (os_name_len os) = Some (PITTACUS_ERR_NONE, me, e1)"
        "allocs_ok e1" "member_ok me" "address_len me = os_name_len os"
        using cluster_member_init_ok [OF e(2) name(1)] by blast
      obtain ms e2 where ms: "cluster_member_set_init e1 (members raw) = (PITTACUS_ERR_NONE, ms, e2)" "allocs_ok e2"
        "members_inv ms" "ms_list ms = []"
        using cluster_member_set_init_ok [OF me(2)] by blast
      let ?g = "?raw\<lparr>socket := fd, output_buffer_offset := 0, outbound_messages := [], gossip_sequence_num := 0,
          data_counter := 0, data_version := vector_clock_zero, state := STATE_INITIALIZED, self_address := me,
          members := ms, genv := e2, gossip_log := (gossip_log raw)\<lparr>log_current_idx := 0, log_size := 0\<rparr>,
          last_gossip_ts := 0\<rparr>"
      have run: "pittacus_gossip_create raw os addr addr_len = Some (Some ?g, os1)"
        using e s(1) False named name1 me(1) ms(1)
        by (simp add: pittacus_gossip_create_def pittacus_gossip_init_def pt_get_sock_name_def Let_def)
      have "log_inv ((gossip_log raw)\<lparr>log_current_idx := 0, log_size := 0\<rparr>)"
        using raw(1) by (simp add: raw_ok_def log_inv_def)
      then have "gossip_inv (unat (os_name_len os)) ?g"
        using raw(1) name me ms by (simp add: gossip_inv_def raw_ok_def vc_inv_zero member_fam_def)
      moreover have "log_map (gossip_log ?g) = Map.empty" by (simp add: log_map_def table_map_def fun_eq_iff)
      ultimately show ?thesis using run ms(4) s(2) False by (simp add: vc_inv_zero)
    qed
  qed
qed

section \<open>Joining, publishing, ticking\<close>

definition target :: "envelope \<Rightarrow> u32 \<times> u8 list" where
  "target x = (recipient_len x, recipient x)"

text \<open>With room for the messages, the queue gets one hello of the node per seed, in their order.\<close>

definition own_hello :: "pittacus_gossip \<Rightarrow> message" where
  "own_hello g = Hello \<lparr>hello_header = message_header_init MESSAGE_HELLO_TYPE 0, hello_this_member = self_address g\<rparr>"

definition queues_hellos :: "pittacus_gossip \<Rightarrow> (u32 \<times> u8 list) list \<Rightarrow> pittacus_gossip \<Rightarrow> bool" where
  "queues_hellos g as g' \<longleftrightarrow> (\<exists>new. outbound_messages g' = outbound_messages g @ new \<and> map target new = as
     \<and> (\<forall>x \<in> set new. carries (output_buffer g') (own_hello g) x)
     \<and> (\<forall>x \<in> set (outbound_messages g). region (output_buffer g') (env_buffer x) = region (output_buffer g) (env_buffer x)))"

lemma enqueued_hello:
  assumes "gossip_inv L g" "dest_ok L a l" "length (outbound_messages g) < MAX_OUTPUT_MESSAGES"
    "enqueued L g (own_hello g) [(l, take L (the a))] g'"
  shows "queues_hellos g [(l, take L (the a))] g'"
  using assms(3,4) by (auto simp: enqueued_def queues_hellos_def target_def [abs_def])

lemma queues_hellos_trans:
  assumes "queues_hellos g as g1" "queues_hellos g1 bs g'" "self_address g1 = self_address g" "gossip_inv L g1"
  shows "queues_hellos g (as @ bs) g'"
proof -
  obtain xs ys where xs: "outbound_messages g1 = outbound_messages g @ xs" "map target xs = as"
      "\<forall>x \<in> set xs. carries (output_buffer g1) (own_hello g) x"
      "\<forall>x \<in> set (outbound_messages g). region (output_buffer g1) (env_buffer x) = region (output_buffer g) (env_buffer x)"
    and ys: "outbound_messages g' = outbound_messages g1 @ ys" "map target ys = bs"
      "\<forall>x \<in> set ys. carries (output_buffer g') (own_hello g1) x"
      "\<forall>x \<in> set (outbound_messages g1). region (output_buffer g') (env_buffer x) = region (output_buffer g1) (env_buffer x)"
    using assms(1,2) unfolding queues_hellos_def by blast
  have "own_hello g1 = own_hello g" using assms(3) by (simp add: own_hello_def)
  moreover have "carries (output_buffer g') (own_hello g) x" if "x \<in> set xs" for x
  proof (rule carries_region)
    show "carries (output_buffer g1) (own_hello g) x" using that xs(3) by blast
    show "region (output_buffer g') (env_buffer x) = region (output_buffer g1) (env_buffer x)" using that xs(1) ys(4) by simp
    have "envelope_ok L x" using that xs(1) assms(4) by (simp add: gossip_inv_def)
    then show "env_buffer_size x \<le> MESSAGE_MAX_SIZE" by (simp add: envelope_ok_def)
  qed
  ultimately have "\<forall>x \<in> set (xs @ ys). carries (output_buffer g') (own_hello g) x" using ys(3) by auto
  moreover have "\<forall>x \<in> set (outbound_messages g). region (output_buffer g') (env_buffer x) = region (output_buffer g) (env_buffer x)"
    using xs(1,4) ys(4) by simp
  moreover have "outbound_messages g' = outbound_messages g @ xs @ ys" "map target (xs @ ys) = as @ bs" using xs(1,2) ys(1,2) by simp_all
  ultimately show ?thesis unfolding queues_hellos_def by blast
qed

lemma join_seeds_ok:
  assumes "gossip_inv L g" "\<forall>(a, l) \<in> set nodes. dest_ok L a l"
  shows "\<exists>g'. join_seeds g nodes = Some (0, g') \<and> gossip_inv L g' \<and> state g' = STATE_JOINING
           \<and> (length (outbound_messages g) + length nodes \<le> MAX_OUTPUT_MESSAGES \<longrightarrow>
                queues_hellos g (map (\<lambda>(a, l). (l, take L (the a))) nodes) g')"
  using assms
proof (induction nodes arbitrary: g)
  case Nil
  then show ?case by (simp add: gossip_inv_def queues_hellos_def)
next
  case (Cons n nodes)
  obtain a l where n: "n = (a, l)" by (cases n)
  have dest: "dest_ok L a l" using Cons.prems(2) n by simp
  obtain g1 where g1: "gossip_enqueue_hello g a l = Some (0, g1)" "enqueued L g (own_hello g) [(l, take L (the a))] g1"
    using gossip_enqueue_hello_ok [OF Cons.prems(1) dest] by (auto simp: own_hello_def)
  then have inv1: "gossip_inv L g1" "self_address g1 = self_address g" using enqueued_inv by (auto simp: same_node_def)
  obtain g' where g': "join_seeds g1 nodes = Some (0, g')" "gossip_inv L g'" "state g' = STATE_JOINING"
    "length (outbound_messages g1) + length nodes \<le> MAX_OUTPUT_MESSAGES \<longrightarrow>
       queues_hellos g1 (map (\<lambda>(a, l). (l, take L (the a))) nodes) g'"
    using Cons.IH [OF inv1(1)] Cons.prems(2) by auto
  have "queues_hellos g (map (\<lambda>(a, l). (l, take L (the a))) (n # nodes)) g'"
    if room: "length (outbound_messages g) + length (n # nodes) \<le> MAX_OUTPUT_MESSAGES"
  proof -
    have q: "queues_hellos g [(l, take L (the a))] g1" using enqueued_hello [OF Cons.prems(1) dest _ g1(2)] room by simp
    have "length (outbound_messages g1) = Suc (length (outbound_messages g))"
      using q by (auto simp: queues_hellos_def dest: arg_cong [where f = length])
    then show ?thesis using queues_hellos_trans [OF q _ inv1(2,1)] g'(4) room n by simp
  qed
  then show ?case using n g1(1) g'(1-3) by simp
qed

lemma pittacus_gossip_join_ok:
  assumes inv: "gossip_inv L g" and init: "state g = STATE_INITIALIZED"
    and seeds: "\<forall>nodes. seeds = Some nodes \<longrightarrow> unat n \<le> length nodes \<and> (\<forall>(a, l) \<in> set nodes. dest_ok L a l)"
  shows "\<exists>g'. pittacus_gossip_join g seeds n = Some (0, g') \<and> gossip_inv L g'
           \<and> state g' = (if seeds = None \<or> n = 0 then STATE_CONNECTED else STATE_JOINING)
           \<and> (length (outbound_messages g) + unat n \<le> MAX_OUTPUT_MESSAGES \<longrightarrow>
                queues_hellos g (case seeds of None \<Rightarrow> []
                  | Some nodes \<Rightarrow> map (\<lambda>(a, l). (l, take L (the a))) (take (unat n) nodes)) g')"
proof (cases "seeds = None \<or> n = 0")
  case True
  then show ?thesis
    using inv init by (cases seeds) (auto simp: pittacus_gossip_join_def gossip_inv_def queues_hellos_def)
next
  case False
  then obtain nodes where nodes: "seeds = Some nodes" "unat n \<le> length nodes" "\<forall>(a, l) \<in> set nodes. dest_ok L a l"
    using seeds by (cases seeds) auto
  have "\<forall>(a, l) \<in> set (take (unat n) nodes). dest_ok L a l" using nodes(3) by (auto dest: in_set_takeD)
  from join_seeds_ok [OF inv this] show ?thesis
    using False nodes init by (auto simp: pittacus_gossip_join_def)
qed

lemma pt_time_frame:
  "pt_time e = (t, e') \<Longrightarrow> env_allocs e' = env_allocs e \<and> env_wire e' = env_wire e \<and> env_app e' = env_app e"
  by (auto simp: pt_time_def split: prod.splits)

lemma allocs_ok_cong: "env_allocs e = env_allocs e' \<Longrightarrow> allocs_ok e = allocs_ok e'"
  by (simp only: allocs_ok_def)

lemma gossip_inv_time: "gossip_inv L g \<Longrightarrow> pt_time (genv g) = (t, e) \<Longrightarrow> gossip_inv L (g\<lparr>genv := e\<rparr>)"
  using pt_time_frame [of "genv g" t e] allocs_ok_cong [of e "genv g"] by (simp add: gossip_inv_def)

text \<open>
  The tick: before its time it only tells how long to wait; when it is due a status goes to random
  members and the time of the tick is kept.
\<close>

lemma pittacus_gossip_tick_ok:
  assumes inv: "gossip_inv L g"
  shows "\<exists>r g'. pittacus_gossip_tick g = Some (r, g') \<and> gossip_inv L g' \<and> state g' = state g
           \<and> (state g \<noteq> STATE_CONNECTED \<longrightarrow> g' = g \<and> r = 1000)
           \<and> (\<forall>now e. state g = STATE_CONNECTED \<longrightarrow> pt_time (genv g) = (now, e) \<longrightarrow>
                (if last_gossip_ts g + GOSSIP_TICK_INTERVAL > now
                 then g' = g\<lparr>genv := e\<rparr> \<and> r = int_of_u64 (last_gossip_ts g + GOSSIP_TICK_INTERVAL - now)
                 else r = 1000 \<and> last_gossip_ts g' = now
                   \<and> (\<exists>m as g1. enqueued L (g\<lparr>genv := e\<rparr>) (Status m) as g1 \<and> g' = g1\<lparr>last_gossip_ts := now\<rparr>
                       \<and> vc_map (status_version m) = vc_map (data_version g)
                       \<and> targets_ok g None 0 GOSSIP_RANDOM as)))"
proof (cases "state g = STATE_CONNECTED")
  case False
  have "int_of_u64 1000 = 1000" by (simp add: int_of_u64_def)
  then show ?thesis using False inv by (simp add: pittacus_gossip_tick_def)
next
  case True
  obtain now e where t: "pt_time (genv g) = (now, e)" by (cases "pt_time (genv g)")
  note inv1 = gossip_inv_time [OF inv t]
  have k: "int_of_u64 1000 = 1000" by (simp add: int_of_u64_def)
  show ?thesis
  proof (cases "last_gossip_ts g + GOSSIP_TICK_INTERVAL > now")
    case early: True
    then show ?thesis using True t inv1 by (simp add: pittacus_gossip_tick_def)
  next
    case due: False
    obtain m as g1 where g1: "gossip_enqueue_status (g\<lparr>genv := e\<rparr>) None 0 = Some (0, g1)"
      "enqueued L (g\<lparr>genv := e\<rparr>) (Status m) as g1" "vc_map (status_version m) = vc_map (data_version g)"
      "targets_ok g None 0 GOSSIP_RANDOM as"
      using gossip_enqueue_status_ok [OF inv1, of None 0] by auto
    have "gossip_inv L (g1\<lparr>last_gossip_ts := now\<rparr>)" "state g1 = state g"
      using enqueued_inv [OF g1(2)] by (auto simp: gossip_inv_def same_node_def)
    moreover have "pittacus_gossip_tick g = Some (1000, g1\<lparr>last_gossip_ts := now\<rparr>)"
      using True t due g1(1) k by (simp add: pittacus_gossip_tick_def)
    moreover have "\<exists>m as g1'. enqueued L (g\<lparr>genv := e\<rparr>) (Status m) as g1' \<and> g1\<lparr>last_gossip_ts := now\<rparr> = g1'\<lparr>last_gossip_ts := now\<rparr>
        \<and> vc_map (status_version m) = vc_map (data_version g) \<and> targets_ok g None 0 GOSSIP_RANDOM as"
      using g1(2-4) by blast
    ultimately show ?thesis using True t due by (simp del: targets_ok.simps)
  qed
qed

lemma pittacus_gossip_send_data_ok:
  assumes "gossip_inv L g" "memcpy_src bytes (unat n) = Some p" "unat n \<le> MESSAGE_MAX_SIZE"
  shows "\<exists>r g'. pittacus_gossip_send_data g bytes n = Some (r, g') \<and> gossip_inv L g' \<and> state g' = state g"
proof (cases "state g = STATE_CONNECTED")
  case True
  have n: "unat (ucast n :: u16) = unat n" using assms(3) by (simp add: unsigned_ucast_eq unsigned_take_bit_eq take_bit_eq_mod)
  from gossip_enqueue_data_ok [OF assms(1), of bytes "ucast n" p] assms(2,3) n
  obtain g1 m as r g' where "gossip_enqueue_data g bytes (ucast n) = Some (r, g')"
    "enqueued L g1 (Data m) as g'"
    "g1 = g\<lparr>data_counter := data_counter g + 1, data_version := data_version g', gossip_log := gossip_log g'\<rparr>"
    by metis
  then show ?thesis
    using True enqueued_inv [of L g1 "Data m" as g']
    by (auto simp: pittacus_gossip_send_data_def same_node_def)
qed (use assms(1) in \<open>simp add: pittacus_gossip_send_data_def\<close>)

section \<open>Receiving\<close>

text \<open>The input buffer after a datagram was received.\<close>

definition arrived :: "pittacus_gossip \<Rightarrow> u8 list \<Rightarrow> u8 list" where
  "arrived g bs = take INPUT_BUFFER_SIZE bs @ drop (length bs) (input_buffer g)"

text \<open>What the network may hand over: datagrams within the bounds, from addresses of the family.\<close>

definition recv_ok :: "nat \<Rightarrow> pittacus_gossip \<Rightarrow> bool" where
  "recv_ok L g \<longleftrightarrow> (case shd (env_recvs (genv g)) of Recv_Error \<Rightarrow> True
     | Recv_Datagram bs from from_len \<Rightarrow>
         packet_ok L (arrived g bs) (min (length bs) INPUT_BUFFER_SIZE) \<and> dest_ok L (Some from) from_len)
     \<and> ms_size (members g) + 2 ^ 16 < 3 * 2 ^ 29"

lemma process_receive_cases:
  fixes receiver
  defines "e g \<equiv> (genv g)\<lparr>env_recvs := stl (env_recvs (genv g))\<rparr>"
  assumes "state g = STATE_JOINING \<or> state g = STATE_CONNECTED" "length (input_buffer g) = INPUT_BUFFER_SIZE"
  shows "shd (env_recvs (genv g)) = Recv_Error \<Longrightarrow>
      pittacus_gossip_process_receive receiver g = Some (err_code PITTACUS_ERR_READ_FAILED, g\<lparr>genv := e g\<rparr>)"
    "shd (env_recvs (genv g)) = Recv_Datagram bs src len \<Longrightarrow>
      pittacus_gossip_process_receive receiver g =
        (let g1 = g\<lparr>input_buffer := arrived g bs, genv := e g\<rparr>
         in if bs = [] then Some (err_code PITTACUS_ERR_READ_FAILED, g1)
            else gossip_handle_new_message receiver g1
              \<lparr>sender = src, sender_len = len, in_buffer = arrived g bs, in_buffer_size = min (length bs) INPUT_BUFFER_SIZE\<rparr>)"
proof -
  have w: "mem_write (input_buffer g) 0 (take INPUT_BUFFER_SIZE bs) = Some (arrived g bs)"
    using assms(3) by (auto simp: mem_write_def arrived_def min_def)
  have pos: "int (length (take INPUT_BUFFER_SIZE bs)) \<le> 0 \<longleftrightarrow> bs = []" by (cases bs) auto
  show "shd (env_recvs (genv g)) = Recv_Error \<Longrightarrow>
      pittacus_gossip_process_receive receiver g = Some (err_code PITTACUS_ERR_READ_FAILED, g\<lparr>genv := e g\<rparr>)"
    using assms(2) by (auto simp: pittacus_gossip_process_receive_def pt_recv_from_def e_def Let_def)
  show "shd (env_recvs (genv g)) = Recv_Datagram bs src len \<Longrightarrow>
      pittacus_gossip_process_receive receiver g =
        (let g1 = g\<lparr>input_buffer := arrived g bs, genv := e g\<rparr>
         in if bs = [] then Some (err_code PITTACUS_ERR_READ_FAILED, g1)
            else gossip_handle_new_message receiver g1
              \<lparr>sender = src, sender_len = len, in_buffer = arrived g bs, in_buffer_size = min (length bs) INPUT_BUFFER_SIZE\<rparr>)"
    using assms(2) w pos
    by (auto simp: pittacus_gossip_process_receive_def pt_recv_from_def e_def Let_def simp del: length_take of_nat_le_0_iff)
      (simp_all add: min.commute)
qed

context receiver_contract
begin

lemma process_receive_ok:
  assumes inv: "gossip_inv L g" and r: "recv_ok L g"
  shows "\<exists>r g'. pittacus_gossip_process_receive receiver g = Some (r, g') \<and> gossip_inv L g'
           \<and> (state g' = state g \<or> (state g' = STATE_CONNECTED \<and> state g = STATE_JOINING))"
proof (cases "state g = STATE_JOINING \<or> state g = STATE_CONNECTED")
  case False
  then show ?thesis using inv by (simp add: pittacus_gossip_process_receive_def)
next
  case True
  let ?e = "(genv g)\<lparr>env_recvs := stl (env_recvs (genv g))\<rparr>"
  have al: "allocs_ok ?e" using inv allocs_ok_cong [of ?e "genv g"] by (simp add: gossip_inv_def)
  have len: "length (input_buffer g) = INPUT_BUFFER_SIZE" using inv by (simp add: gossip_inv_def)
  note receive = process_receive_cases [OF True len, where receiver = receiver]
  show ?thesis
  proof (cases "shd (env_recvs (genv g))")
    case Recv_Error
    then show ?thesis using receive(1) gossip_inv_genv [OF inv al] by auto
  next
    case (Recv_Datagram bs src src_len)
    let ?g = "g\<lparr>input_buffer := arrived g bs, genv := ?e\<rparr>"
    let ?x = "\<lparr>sender = src, sender_len = src_len, in_buffer = arrived g bs, in_buffer_size = min (length bs) INPUT_BUFFER_SIZE\<rparr>"
    have "length (arrived g bs) = 512" using len by (auto simp: arrived_def)
    then have inv1: "gossip_inv L ?g" and x: "envelope_in_ok L ?g ?x"
      using inv al r Recv_Datagram by (simp_all add: gossip_inv_def recv_ok_def envelope_in_ok_def)
    show ?thesis using receive(2) [OF Recv_Datagram] inv1 handle_new_message_ok [OF inv1 x] True by (auto simp: Let_def)
  qed
qed

end

section \<open>Sending\<close>

lemma drop_same_recipient_ok:
  assumes "\<forall>x \<in> set xs. envelope_ok L x" "length (recipient c) = L"
  shows "drop_same_recipient c xs = Some (dropWhile (\<lambda>x. recipient x = recipient c) xs)"
  using assms by (induction xs) (auto simp: envelope_ok_def memcmp_eq_Some)

lemma gossip_inv_members:
  assumes "gossip_inv L g" "members_inv s" "set (ms_list s) \<subseteq> set (ms_list (members g))"
  shows "gossip_inv L (g\<lparr>members := s\<rparr>)"
  using assms by (auto simp: gossip_inv_def)

lemma remove_unreachable:
  assumes inv: "gossip_inv L g" and a: "length addr = L" "n = L"
  shows "\<exists>b s. cluster_member_set_remove_by_addr (members g) addr n = Some (b, s)
           \<and> ms_list s = remove_first (\<lambda>m. member_addr m = addr) (ms_list (members g))
           \<and> gossip_inv L (g\<lparr>members := s\<rparr>)"
proof -
  have ms: "members_inv (members g)" "\<forall>m \<in> set (ms_list (members g)). member_fam L m"
    using inv by (auto simp: gossip_inv_def)
  have "addr_readable L (members g)"
    using ms(2) by (auto simp: addr_readable_def member_fam_def elim!: member_okE)
  then obtain s where s: "cluster_member_set_remove_by_addr (members g) addr n =
      Some (\<exists>m \<in> set (ms_list (members g)). addr_prefix n addr m, s)" "members_inv s"
    "ms_list s = remove_first (addr_prefix n addr) (ms_list (members g))"
    using cluster_member_set_remove_by_addr_ok [OF ms(1), of n addr] a by auto
  have "addr_prefix n addr m \<longleftrightarrow> member_addr m = addr" if "m \<in> set (ms_list (members g))" for m
    using ms(2) that a by (auto simp: addr_prefix_def member_addr_def member_fam_def)
  then have "remove_first (addr_prefix n addr) (ms_list (members g)) =
      remove_first (\<lambda>m. member_addr m = addr) (ms_list (members g))"
    by (intro remove_first_cong) auto
  then show ?thesis
    using s gossip_inv_members [OF inv s(2)] set_remove_first_subset by fastforce
qed

text \<open>
  The bytes of an envelope on the wire: those of its message in the output buffer, with the
  envelope's sequence number in the header. Writing the number of another envelope into the output
  buffer does not change them.
\<close>

definition on_wire :: "u8 list \<Rightarrow> envelope \<Rightarrow> u8 list" where
  "on_wire out x = take 8 (drop (env_buffer x) out) @ be32 (sequence_num x)
     @ take (env_buffer_size x - 12) (drop (env_buffer x + 12) out)"

definition datagram_of :: "u8 list \<Rightarrow> envelope \<Rightarrow> u8 list \<times> u8 list \<Rightarrow> bool" where
  "datagram_of out x d \<longleftrightarrow> d = (recipient x, on_wire out x)"

lemma drop_take_eqI:
  "length a = length b \<Longrightarrow> (\<And>k. i \<le> k \<Longrightarrow> k < i + n \<Longrightarrow> k < length a \<Longrightarrow> a ! k = b ! k) \<Longrightarrow>
     take n (drop i a) = take n (drop i b)"
  by (rule nth_equalityI) auto

lemma mem_write_nth_other:
  assumes "mem_write out i bs = Some out'" "k < i \<or> i + length bs \<le> k" "k < length out"
  shows "out' ! k = out ! k"
  using assms by (auto simp: mem_write_Some_iff nth_append)

lemma on_wire_patch:
  assumes w: "mem_write out (off + 8) (be32 s) = Some out'" and off: "region_ok off"
    and x: "envelope_ok L x"
  shows "on_wire out' x = on_wire out x"
proof -
  have r: "region_ok (env_buffer x)" and n: "env_buffer_size x \<le> 512" using x by (auto simp: envelope_ok_def)
  have apart: "k < off + 8 \<or> off + 12 \<le> k"
    if "env_buffer x \<le> k \<and> k < env_buffer x + 8 \<or> env_buffer x + 12 \<le> k \<and> k < env_buffer x + 512" for k
  proof (cases "off = env_buffer x")
    case False
    then have "off + 512 \<le> env_buffer x \<or> env_buffer x + 512 \<le> off"
      using region_div [OF off] region_div [OF r] by (metis less_imp_le_nat linorder_neqE_nat mult_Suc add.commute mult_le_mono1 Suc_leI)
    then show ?thesis using that by auto
  qed (use that in auto)
  have same: "out' ! k = out ! k"
    if "env_buffer x \<le> k \<and> k < env_buffer x + 8 \<or> env_buffer x + 12 \<le> k \<and> k < env_buffer x + 512" "k < length out" for k
    using mem_write_nth_other [OF w, of k] apart [OF that(1)] that(2) by (simp add: add.commute)
  have len: "length out' = length out" using mem_write_Some_length [OF w] .
  have "take 8 (drop (env_buffer x) out') = take 8 (drop (env_buffer x) out)"
    using len same by (intro drop_take_eqI) auto
  moreover have "take (env_buffer_size x - 12) (drop (env_buffer x + 12) out') =
      take (env_buffer_size x - 12) (drop (env_buffer x + 12) out)"
    using len same n by (intro drop_take_eqI) auto
  ultimately show ?thesis by (simp add: on_wire_def)
qed

lemma patched_bytes:
  assumes "mem_write out (off + 8) (be32 s) = Some out'" "12 \<le> n" "off + n \<le> length out"
  shows "mem_read out' off n = Some (take 8 (drop off out) @ be32 s @ take (n - 12) (drop (off + 12) out))"
proof -
  have out': "out' = take (off + 8) out @ be32 s @ drop (off + 12) out"
    using assms(1) by (simp add: mem_write_Some_iff add.commute)
  have "drop off out' = take 8 (drop off out) @ be32 s @ drop (off + 12) out"
    using assms(3) assms(2) by (simp add: out' drop_take)
  moreover have "off + n \<le> length out'" using mem_write_Some_length [OF assms(1)] assms(3) by simp
  ultimately show ?thesis using assms(2,3) by (simp add: mem_read_def)
qed

text \<open>
  One round of sending: it returns, keeps the invariant, and what it put on the wire is one
  datagram per counted message, each for a queued envelope and with its sequence number. Members
  only leave the set.
\<close>

definition sent_ok :: "u8 list \<Rightarrow> envelope list \<Rightarrow> int \<Rightarrow> env \<Rightarrow> int \<Rightarrow> env \<Rightarrow> bool" where
  "sent_ok out q n e r e' \<longleftrightarrow> (\<exists>ds. env_wire e' = env_wire e @ ds \<and> (\<forall>d \<in> set ds. \<exists>x \<in> set q. datagram_of out x d)
     \<and> (r = n + int (length ds) \<or> r = err_code PITTACUS_ERR_WRITE_FAILED))"

lemma sent_ok_refl: "sent_ok out q n e n e"
  by (auto simp: sent_ok_def)

lemma sent_ok_mono: "sent_ok out q n e r e' \<Longrightarrow> set q \<subseteq> set q' \<Longrightarrow> sent_ok out q' n e r e'"
  unfolding sent_ok_def by blast

lemma sent_ok_step:
  assumes "sent_ok out' q (n + 1) e1 r e'" "env_wire e1 = env_wire e @ [d]" "datagram_of out x d"
    "\<forall>y \<in> set q. on_wire out' y = on_wire out y"
  shows "sent_ok out (x # q) n e r e'"
proof -
  obtain ds where ds: "env_wire e' = env_wire e1 @ ds" "\<forall>d \<in> set ds. \<exists>y \<in> set q. datagram_of out' y d"
    "r = n + 1 + int (length ds) \<or> r = err_code PITTACUS_ERR_WRITE_FAILED"
    using assms(1) by (auto simp: sent_ok_def)
  have "\<forall>d' \<in> set (d # ds). \<exists>y \<in> set (x # q). datagram_of out y d'"
    using ds(2) assms(3,4) by (auto simp: datagram_of_def)
  then show ?thesis using ds(1,3) assms(2) unfolding sent_ok_def by (intro exI [of _ "d # ds"]) auto
qed

definition loop_result :: "nat \<Rightarrow> pittacus_gossip \<Rightarrow> int \<Rightarrow> envelope list \<Rightarrow> (int \<times> pittacus_gossip) option \<Rightarrow> bool" where
  "loop_result L g n q res \<longleftrightarrow> (\<exists>r g'. res = Some (r, g') \<and> gossip_inv L g' \<and> state g' = state g
     \<and> set (ms_list (members g')) \<subseteq> set (ms_list (members g))
     \<and> sent_ok (output_buffer g) q n (genv g) r (genv g'))"

lemma loop_result_mono:
  "loop_result L g n q res \<Longrightarrow> set q \<subseteq> set q' \<Longrightarrow> loop_result L g n q' res"
  unfolding loop_result_def using sent_ok_mono by blast

lemma loop_result_members:
  "loop_result L (g\<lparr>members := s\<rparr>) n q res \<Longrightarrow> set (ms_list s) \<subseteq> set (ms_list (members g)) \<Longrightarrow> loop_result L g n q res"
  unfolding loop_result_def by fastforce

lemma loop_result_genv:
  "loop_result L (g\<lparr>genv := e\<rparr>) n q res \<Longrightarrow> env_wire e = env_wire (genv g) \<Longrightarrow> loop_result L g n q res"
  unfolding loop_result_def by (auto simp: sent_ok_def)

lemma gossip_inv_queue:
  "gossip_inv L (g\<lparr>outbound_messages := q\<rparr>) \<Longrightarrow> \<forall>x \<in> set q'. envelope_ok L x \<Longrightarrow> gossip_inv L (g\<lparr>outbound_messages := q'\<rparr>)"
  by (simp add: gossip_inv_def)

lemma attempt_ok:
  "envelope_ok L x \<Longrightarrow> attempt_num x < max_attempts x \<Longrightarrow>
     envelope_ok L (x\<lparr>attempt_ts := t, attempt_num := attempt_num x + 1\<rparr>)"
  by (auto simp: envelope_ok_def inc_le)

text \<open>
  One envelope of the loop. Either it has used up its attempts, and goes together with the
  recipient if an acknowledgement was due; or it waits; or a datagram with its number is handed to
  the socket, which fails or sends it.
\<close>

definition clock_ms :: "int \<times> int \<Rightarrow> u64" where
  "clock_ms t = word_of_int (fst t * 1000 + snd t div 1000)"

lemma pt_time_eq: "pt_time e = (clock_ms (shd (env_clock e)), e\<lparr>env_clock := stl (env_clock e)\<rparr>)"
  by (simp add: pt_time_def clock_ms_def case_prod_unfold)

lemma patch_envelope:
  assumes "envelope_ok L c" "length out = OUTPUT_BUFFER_SIZE"
  shows "\<exists>out' bs. mem_write out (env_buffer c + 8) (be32 (sequence_num c)) = Some out'
           \<and> mem_read out' (env_buffer c) (env_buffer_size c) = Some bs \<and> datagram_of out c (recipient c, bs)
           \<and> length out' = OUTPUT_BUFFER_SIZE \<and> (\<forall>y. envelope_ok L y \<longrightarrow> on_wire out' y = on_wire out y)"
proof -
  have c: "region_ok (env_buffer c)" "12 \<le> env_buffer_size c" "env_buffer_size c \<le> 512"
    using assms(1) by (auto simp: envelope_ok_def)
  have fits: "env_buffer c + 512 \<le> length out"
    using c(1) region_div [OF c(1)] assms(2) by (auto simp: region_ok_def)
  then obtain out' where out': "mem_write out (env_buffer c + 8) (be32 (sequence_num c)) = Some out'"
    by (simp add: mem_write_def)
  then show ?thesis
    using patched_bytes [OF out' c(2)] fits c(3) mem_write_Some_length [OF out'] assms(2) on_wire_patch [OF out' c(1)]
    by (simp add: datagram_of_def on_wire_def)
qed

text \<open>An envelope whose attempts are used up.\<close>

lemma process_send_give_up:
  assumes inv: "gossip_inv L (g\<lparr>outbound_messages := kept @ c # rest\<rparr>)"
    and give_up: "attempt_num c \<ge> max_attempts c" "max_attempts c > 1"
  defines "rest' \<equiv> dropWhile (\<lambda>x. recipient x = recipient c) rest"
  shows "\<exists>s. process_send_loop g n kept (c # rest) = process_send_loop (g\<lparr>members := s\<rparr>) n kept rest'
     \<and> gossip_inv L (g\<lparr>members := s, outbound_messages := kept @ rest'\<rparr>)
     \<and> set (ms_list s) \<subseteq> set (ms_list (members g))"
proof -
  have ok: "envelope_ok L c" "\<forall>x \<in> set kept. envelope_ok L x" "\<forall>x \<in> set rest. envelope_ok L x"
    using inv by (auto simp: gossip_inv_def)
  have c: "length (recipient c) = L" "unat (recipient_len c) = L" using ok(1) by (auto simp: envelope_ok_def)
  obtain b s where s: "cluster_member_set_remove_by_addr (members g) (recipient c) (unat (recipient_len c)) = Some (b, s)"
    "ms_list s = remove_first (\<lambda>m. member_addr m = recipient c) (ms_list (members g))"
    "gossip_inv L (g\<lparr>outbound_messages := kept @ c # rest, members := s\<rparr>)"
    using remove_unreachable [OF inv c] by auto
  have d: "drop_same_recipient c rest = Some rest'" unfolding rest'_def by (rule drop_same_recipient_ok [OF ok(3) c(1)])
  have "gossip_inv L (g\<lparr>members := s, outbound_messages := kept @ rest'\<rparr>)"
    using s(3) ok(2,3) by (auto simp: gossip_inv_def rest'_def dest: set_dropWhileD)
  moreover have "set (ms_list s) \<subseteq> set (ms_list (members g))" unfolding s(2) by (rule set_remove_first_subset)
  ultimately show ?thesis using give_up s(1) d by (auto simp: process_send_loop.simps)
qed

lemma gossip_inv_sending:
  assumes "gossip_inv L g" "\<forall>x \<in> set q. envelope_ok L x" "env_allocs e = env_allocs (genv g)" "length out = OUTPUT_BUFFER_SIZE"
  shows "gossip_inv L (g\<lparr>output_buffer := out, genv := e, outbound_messages := q\<rparr>)"
  using assms allocs_ok_cong [OF assms(3)] by (simp add: gossip_inv_def)

lemma process_send_cases:
  assumes inv: "gossip_inv L (g\<lparr>outbound_messages := kept @ c # rest\<rparr>)"
  defines "now \<equiv> clock_ms (shd (env_clock (genv g)))"
    and "e \<equiv> (genv g)\<lparr>env_clock := stl (env_clock (genv g))\<rparr>"
    and "w \<equiv> shd (env_sends (genv g))"
  obtains s where "attempt_num c \<ge> max_attempts c" "max_attempts c > 1"
      "process_send_loop g n kept (c # rest) =
         process_send_loop (g\<lparr>members := s\<rparr>) n kept (dropWhile (\<lambda>x. recipient x = recipient c) rest)"
      "gossip_inv L (g\<lparr>members := s, outbound_messages := kept @ dropWhile (\<lambda>x. recipient x = recipient c) rest\<rparr>)"
      "set (ms_list s) \<subseteq> set (ms_list (members g))"
  | "attempt_num c \<ge> max_attempts c" "\<not> max_attempts c > 1"
      "process_send_loop g n kept (c # rest) = process_send_loop g n kept rest"
      "gossip_inv L (g\<lparr>outbound_messages := kept @ rest\<rparr>)"
  | "\<not> attempt_num c \<ge> max_attempts c" "attempt_num c \<noteq> 0" "attempt_ts c + MESSAGE_RETRY_INTERVAL > now"
      "process_send_loop g n kept (c # rest) = process_send_loop (g\<lparr>genv := e\<rparr>) n (kept @ [c]) rest"
      "gossip_inv L (g\<lparr>genv := e, outbound_messages := (kept @ [c]) @ rest\<rparr>)"
  | out where "\<not> attempt_num c \<ge> max_attempts c" "w < 0"
      "process_send_loop g n kept (c # rest) = Some (err_code PITTACUS_ERR_WRITE_FAILED,
         g\<lparr>output_buffer := out, genv := e\<lparr>env_sends := stl (env_sends e)\<rparr>, outbound_messages := kept @ c # rest\<rparr>)"
      "gossip_inv L (g\<lparr>output_buffer := out, genv := e\<lparr>env_sends := stl (env_sends e)\<rparr>,
         outbound_messages := kept @ c # rest\<rparr>)"
      "\<forall>y. envelope_ok L y \<longrightarrow> on_wire out y = on_wire (output_buffer g) y"
  | out bs where "\<not> attempt_num c \<ge> max_attempts c" "\<not> w < 0" "datagram_of (output_buffer g) c (recipient c, bs)"
      "process_send_loop g n kept (c # rest) =
         process_send_loop (g\<lparr>output_buffer := out, genv := e\<lparr>env_sends := stl (env_sends e), env_wire := env_wire e @ [(recipient c, bs)]\<rparr>\<rparr>) (n + 1)
           (kept @ (if max_attempts c \<le> 1 then [] else [c\<lparr>attempt_ts := now, attempt_num := attempt_num c + 1\<rparr>])) rest"
      "gossip_inv L (g\<lparr>output_buffer := out, genv := e\<lparr>env_sends := stl (env_sends e), env_wire := env_wire e @ [(recipient c, bs)]\<rparr>, outbound_messages :=
           (kept @ (if max_attempts c \<le> 1 then [] else [c\<lparr>attempt_ts := now, attempt_num := attempt_num c + 1\<rparr>])) @ rest\<rparr>)"
      "\<forall>y \<in> set rest. on_wire out y = on_wire (output_buffer g) y"
      "\<forall>y. envelope_ok L y \<longrightarrow> on_wire out y = on_wire (output_buffer g) y"
proof -
  have ok: "envelope_ok L c" "\<forall>x \<in> set kept. envelope_ok L x" "\<forall>x \<in> set rest. envelope_ok L x"
    using inv by (auto simp: gossip_inv_def)
  have frame: "gossip_inv L (g\<lparr>output_buffer := out, genv := e', outbound_messages := q\<rparr>)"
    if "\<forall>x \<in> set q. envelope_ok L x" "env_allocs e' = env_allocs (genv g)" "length out = OUTPUT_BUFFER_SIZE" for q e' out
    using gossip_inv_sending [OF inv that(1) _ that(3), of e'] that(2) by simp
  show thesis
  proof (cases "attempt_num c \<ge> max_attempts c")
    case give_up: True
    show thesis
    proof (cases "max_attempts c > 1")
      case True
      then show thesis using process_send_give_up [OF inv give_up True, of n] that(1) give_up by blast
    next
      case False
      have "gossip_inv L (g\<lparr>outbound_messages := kept @ rest\<rparr>)"
        using gossip_inv_queue [OF inv, of "kept @ rest"] ok by auto
      then show thesis using that(2) give_up False by (simp add: process_send_loop.simps)
    qed
  next
    case again: False
    note t = pt_time_eq [of "genv g", folded now_def e_def]
    have out: "length (output_buffer g) = OUTPUT_BUFFER_SIZE" using inv by (simp add: gossip_inv_def)
    show thesis
    proof (cases "attempt_num c \<noteq> 0 \<and> attempt_ts c + MESSAGE_RETRY_INTERVAL > now")
      case True
      then have "process_send_loop g n kept (c # rest) = process_send_loop (g\<lparr>genv := e\<rparr>) n (kept @ [c]) rest"
        using again t by (simp add: process_send_loop.simps)
      moreover have "gossip_inv L (g\<lparr>output_buffer := output_buffer g, genv := e, outbound_messages := (kept @ [c]) @ rest\<rparr>)"
        by (rule frame) (use ok out in \<open>auto simp: e_def\<close>)
      ultimately show thesis using that(3) again True by simp
    next
      case due: False
      obtain out' bs where bs: "mem_write (output_buffer g) (env_buffer c + 8) (be32 (sequence_num c)) = Some out'"
        "mem_read out' (env_buffer c) (env_buffer_size c) = Some bs" "datagram_of (output_buffer g) c (recipient c, bs)"
        "length out' = OUTPUT_BUFFER_SIZE" "\<forall>y. envelope_ok L y \<longrightarrow> on_wire out' y = on_wire (output_buffer g) y"
        using patch_envelope [OF ok(1) out] by blast
      note step = process_send_loop.simps(2) [of g n kept c rest] mem_of_htonl Let_def pt_send_to_def
      have sends: "env_sends e = env_sends (genv g)" by (simp add: e_def)
      show thesis
      proof (cases "w < 0")
        case True
        have "process_send_loop g n kept (c # rest) = Some (err_code PITTACUS_ERR_WRITE_FAILED,
            g\<lparr>output_buffer := out', genv := e\<lparr>env_sends := stl (env_sends e)\<rparr>, outbound_messages := kept @ c # rest\<rparr>)"
          using again due t bs True by (auto simp: step sends w_def)
        moreover have "gossip_inv L (g\<lparr>output_buffer := out', genv := e\<lparr>env_sends := stl (env_sends e)\<rparr>,
            outbound_messages := kept @ c # rest\<rparr>)"
          by (rule frame) (use ok bs(4) in \<open>auto simp: e_def\<close>)
        ultimately show thesis using that(4) [of out'] again True bs(5) by simp
      next
        case False
        let ?c = "c\<lparr>attempt_ts := now, attempt_num := attempt_num c + 1\<rparr>"
        let ?e = "e\<lparr>env_sends := stl (env_sends e), env_wire := env_wire e @ [(recipient c, bs)]\<rparr>"
        have eq: "process_send_loop g n kept (c # rest) = process_send_loop (g\<lparr>output_buffer := out', genv := ?e\<rparr>) (n + 1)
            (kept @ (if max_attempts c \<le> 1 then [] else [?c])) rest"
          using again due t bs False by (auto simp: step sends w_def)
        have "envelope_ok L ?c" using attempt_ok [OF ok(1)] again by simp
        then have "gossip_inv L (g\<lparr>output_buffer := out', genv := ?e, outbound_messages :=
            (kept @ (if max_attempts c \<le> 1 then [] else [?c])) @ rest\<rparr>)"
          using ok bs(4) by (intro frame) (auto simp: e_def)
        then show thesis using that(5) [OF again False bs(3) eq] bs(5) ok(3) by simp
      qed
    qed
  qed
qed

lemma loop_result_sent:
  assumes "loop_result L (g\<lparr>output_buffer := out, genv := e\<rparr>) (n + 1) q res"
    "env_wire e = env_wire (genv g) @ [d]" "datagram_of (output_buffer g) x d"
    "\<forall>y \<in> set q. on_wire out y = on_wire (output_buffer g) y"
  shows "loop_result L g n (x # q) res"
  using assms sent_ok_step [of out q n e _ _ "genv g" d "output_buffer g" x] unfolding loop_result_def by auto

lemma process_send_loop_ok:
  assumes "gossip_inv L (g\<lparr>outbound_messages := kept @ rest\<rparr>)"
  shows "loop_result L g n rest (process_send_loop g n kept rest)"
  using assms
proof (induction "length rest" arbitrary: g n kept rest rule: less_induct)
  case less
  show ?case
  proof (cases rest)
    case Nil
    then show ?thesis using less.prems by (simp add: process_send_loop.simps loop_result_def sent_ok_refl)
  next
    case (Cons c rest')
    note inv = less.prems [unfolded Cons]
    have IH: "gossip_inv L (g'\<lparr>outbound_messages := kept' @ r\<rparr>) \<Longrightarrow> length r \<le> length rest' \<Longrightarrow>
        loop_result L g' n' r (process_send_loop g' n' kept' r)" for g' n' kept' r
      using less.hyps Cons by simp
    show ?thesis
      unfolding Cons
    proof (cases rule: process_send_cases [OF inv, of n])
      case (1 s)
      have "loop_result L (g\<lparr>members := s\<rparr>) n (c # rest') (process_send_loop g n kept (c # rest'))"
        unfolding 1(3) using 1(4)
        by (intro loop_result_mono [OF IH]) (auto simp: length_dropWhile_le dest: set_dropWhileD)
      then show "loop_result L g n (c # rest') (process_send_loop g n kept (c # rest'))"
        by (rule loop_result_members) (rule 1(5))
    next
      case 2
      then show "loop_result L g n (c # rest') (process_send_loop g n kept (c # rest'))"
        by (simp only: 2(3)) (intro loop_result_mono [OF IH], auto)
    next
      case 3
      show "loop_result L g n (c # rest') (process_send_loop g n kept (c # rest'))"
        unfolding 3(4) using 3(5)
        by (intro loop_result_genv [OF loop_result_mono [OF IH]]) auto
    next
      case (4 out)
      then show "loop_result L g n (c # rest') (process_send_loop g n kept (c # rest'))"
        by (auto simp: loop_result_def sent_ok_def)
    next
      case (5 out bs)
      show "loop_result L g n (c # rest') (process_send_loop g n kept (c # rest'))"
        unfolding 5(4) using 5(5)
        by (intro loop_result_sent [OF IH _ 5(3)]) (use 5(6) in auto)
    qed
  qed
qed

text \<open>A queue of which nothing was sent before goes out completely, in its order, if the writes succeed.\<close>

lemma process_send_loop_fresh:
  assumes "gossip_inv L (g\<lparr>outbound_messages := kept @ rest\<rparr>)" "\<forall>x \<in> set rest. attempt_num x = 0 \<and> 0 < max_attempts x"
    "\<forall>w \<in> sset (env_sends (genv g)). 0 \<le> w"
  shows "\<exists>g'. process_send_loop g n kept rest = Some (n + int (length rest), g')
     \<and> env_wire (genv g') = env_wire (genv g) @ map (\<lambda>x. (recipient x, on_wire (output_buffer g) x)) rest"
  using assms
proof (induction rest arbitrary: g n kept)
  case (Cons c rest)
  have ok: "attempt_num c = 0" "\<not> attempt_num c \<ge> max_attempts c" using Cons.prems(2) by auto
  have sends: "\<not> shd (env_sends (genv g)) < 0" "\<forall>w \<in> sset (stl (env_sends (genv g))). 0 \<le> w"
    using Cons.prems(3) shd_sset [of "env_sends (genv g)"] stl_sset [of _ "env_sends (genv g)"] by force+
  from process_send_cases [OF Cons.prems(1), of n] show ?case
  proof cases
    case (5 out bs)
    let ?g = "g\<lparr>output_buffer := out, genv := (genv g)\<lparr>env_clock := stl (env_clock (genv g)), env_sends := stl (env_sends (genv g)),
        env_wire := env_wire (genv g) @ [(recipient c, bs)]\<rparr>\<rparr>"
    let ?k = "kept @ (if max_attempts c \<le> 1 then []
        else [c\<lparr>attempt_ts := clock_ms (shd (env_clock (genv g))), attempt_num := attempt_num c + 1\<rparr>])"
    have "\<exists>g'. process_send_loop ?g (n + 1) ?k rest = Some (n + 1 + int (length rest), g')
      \<and> env_wire (genv g') = env_wire (genv ?g) @ map (\<lambda>x. (recipient x, on_wire (output_buffer ?g) x)) rest"
      using 5(5) Cons.prems(2) sends(2) by (intro Cons.IH) simp_all
    moreover have "bs = on_wire (output_buffer g) c" using 5(3) by (simp add: datagram_of_def)
    ultimately show ?thesis using 5(4,6) by (auto simp: add.assoc cong: map_cong)
  qed (use ok sends in auto)
qed (simp add: process_send_loop.simps)

lemma pittacus_gossip_process_send_ok:
  assumes inv: "gossip_inv L g"
  shows "loop_result L g 0 (outbound_messages g) (pittacus_gossip_process_send g)
     \<or> pittacus_gossip_process_send g = Some (err_code PITTACUS_ERR_BAD_STATE, g)"
proof (cases "state g = STATE_JOINING \<or> state g = STATE_CONNECTED")
  case True
  have "gossip_inv L (g\<lparr>outbound_messages := [] @ outbound_messages g\<rparr>)" using inv by simp
  from process_send_loop_ok [OF this] show ?thesis using True by (auto simp: pittacus_gossip_process_send_def)
qed (simp add: pittacus_gossip_process_send_def)

section \<open>The life of a node\<close>

text \<open>The calls an application makes on a created descriptor.\<close>

datatype api_call =
    Join "(u8 list option \<times> u32) list option" u16
  | Process_Receive
  | Process_Send
  | Send_Data "u8 list option" u32
  | Tick

fun api :: "data_receiver option \<Rightarrow> api_call \<Rightarrow> pittacus_gossip \<Rightarrow> (int \<times> pittacus_gossip) option" where
  "api receiver (Join seeds n) g = pittacus_gossip_join g seeds n"
| "api receiver Process_Receive g = pittacus_gossip_process_receive receiver g"
| "api receiver Process_Send g = pittacus_gossip_process_send g"
| "api receiver (Send_Data bytes n) g = pittacus_gossip_send_data g bytes n"
| "api receiver Tick g = pittacus_gossip_tick g"

text \<open>What the caller and the network have to respect.\<close>

fun call_ok :: "nat \<Rightarrow> api_call \<Rightarrow> pittacus_gossip \<Rightarrow> bool" where
  "call_ok L (Join seeds n) g \<longleftrightarrow> (case seeds of None \<Rightarrow> True
     | Some nodes \<Rightarrow> unat n \<le> length nodes \<and> (\<forall>(a, l) \<in> set nodes. dest_ok L a l))"
| "call_ok L Process_Receive g \<longleftrightarrow> recv_ok L g"
| "call_ok L Process_Send g \<longleftrightarrow> True"
| "call_ok L (Send_Data bytes n) g \<longleftrightarrow> memcpy_src bytes (unat n) \<noteq> None \<and> unat n \<le> MESSAGE_MAX_SIZE"
| "call_ok L Tick g \<longleftrightarrow> True"

inductive reachable :: "nat \<Rightarrow> data_receiver option \<Rightarrow> pittacus_gossip \<Rightarrow> pittacus_gossip \<Rightarrow> bool"
  for L receiver g0 where
  start: "reachable L receiver g0 g0"
| step: "reachable L receiver g0 g \<Longrightarrow> call_ok L c g \<Longrightarrow> api receiver c g = Some (r, g')
     \<Longrightarrow> reachable L receiver g0 g'"

text \<open>The states a node goes through, in their order.\<close>

fun progress :: "gossip_state \<Rightarrow> nat option" where
  "progress STATE_INITIALIZED = Some 0"
| "progress STATE_JOINING = Some 1"
| "progress STATE_CONNECTED = Some 2"
| "progress _ = None"

definition state_le :: "gossip_state \<Rightarrow> gossip_state \<Rightarrow> bool" where
  "state_le a b \<longleftrightarrow> (\<exists>i j. progress a = Some i \<and> progress b = Some j \<and> i \<le> j)"

context receiver_contract
begin

lemma api_ok:
  assumes inv: "gossip_inv L g" and ok: "call_ok L c g"
  shows "\<exists>r g'. api receiver c g = Some (r, g') \<and> gossip_inv L g'
           \<and> (progress (state g) \<noteq> None \<longrightarrow> state_le (state g) (state g'))"
proof (cases c)
  case (Join seeds n)
  show ?thesis
  proof (cases "state g = STATE_INITIALIZED")
    case True
    have "\<forall>nodes. seeds = Some nodes \<longrightarrow> unat n \<le> length nodes \<and> (\<forall>(a, l) \<in> set nodes. dest_ok L a l)"
      using ok Join by auto
    from pittacus_gossip_join_ok [OF inv True this] show ?thesis
      using Join True by (auto simp: state_le_def)
  next
    case False
    then show ?thesis using Join inv by (auto simp: pittacus_gossip_join_def state_le_def)
  qed
next
  case Process_Receive
  then have "recv_ok L g" using ok by simp
  from process_receive_ok [OF inv this] obtain r g' where "pittacus_gossip_process_receive receiver g = Some (r, g')"
    "gossip_inv L g'" "state g' = state g \<or> (state g' = STATE_CONNECTED \<and> state g = STATE_JOINING)" by blast
  then show ?thesis using Process_Receive by (auto simp: state_le_def)
next
  case Process_Send
  then show ?thesis
    using pittacus_gossip_process_send_ok [OF inv] inv by (auto simp: loop_result_def state_le_def)
next
  case (Send_Data bytes n)
  then obtain p where "memcpy_src bytes (unat n) = Some p" "unat n \<le> MESSAGE_MAX_SIZE" using ok by auto
  from pittacus_gossip_send_data_ok [OF inv this] show ?thesis
    using Send_Data by (auto simp: state_le_def)
next
  case Tick
  from pittacus_gossip_tick_ok [OF inv] obtain r g' where "pittacus_gossip_tick g = Some (r, g')"
    "gossip_inv L g'" "state g' = state g" by blast
  then show ?thesis using Tick by (auto simp: state_le_def)
qed

lemma state_le_trans: "state_le a b \<Longrightarrow> state_le b c \<Longrightarrow> state_le a c"
  by (auto simp: state_le_def)

lemma reachable_inv:
  assumes "reachable L receiver g0 g" "gossip_inv L g0" "state g0 = STATE_INITIALIZED"
  shows "gossip_inv L g \<and> state_le STATE_INITIALIZED (state g)"
  using assms
proof (induction rule: reachable.induct)
  case start
  then show ?case by (simp add: state_le_def)
next
  case (step g c r g')
  then have g: "gossip_inv L g" "state_le STATE_INITIALIZED (state g)" by auto
  then have "progress (state g) \<noteq> None" by (auto simp: state_le_def)
  with api_ok [OF g(1) step.hyps(2)] step.hyps(3) g(2) show ?case
    using state_le_trans by fastforce
qed

end

section \<open>Properties\<close>

definition ex_os :: os where
  "ex_os = \<lparr>os_socket = 3, os_fcntl = 0, os_bind = 0, os_getsockname = 0, os_name = ex_addr, os_name_len = 16,
     os_open = [0, 1]\<rparr>"

definition ex_initialized :: pittacus_gossip where
  "ex_initialized = ex_node\<lparr>state := STATE_INITIALIZED\<rparr>"

lemma ex_initialized_ok [simp]: "gossip_inv 16 ex_initialized" "state ex_initialized = STATE_INITIALIZED"
  using ex_node_inv by (simp_all add: gossip_inv_def ex_initialized_def)

lemma ex_queue_inv: "gossip_inv 16 (ex_node\<lparr>outbound_messages := map ex_envelope ss\<rparr>)"
  using ex_node_inv by (simp add: gossip_inv_def envelope_ok_def ex_envelope_def region_ok_def)

definition ex_sending :: pittacus_gossip where
  "ex_sending = ex_node\<lparr>outbound_messages := map ex_envelope [1, 2]\<rparr>"

lemma ex_sending_inv [simp]: "gossip_inv 16 ex_sending"
  unfolding ex_sending_def by (rule ex_queue_inv)



text \<open>C23. Joining a fresh node: without seed nodes it is CONNECTED at once; with seed nodes it is JOINING
  and, if the queue has room for them, exactly one envelope per seed node was queued, in their order. Each of these
  carries a hello: its bytes in the output buffer are those of a hello with the node's own member, it has not been sent and
  has the attempts of a hello. What was queued before is still there with its bytes.\<close>

theorem join_greets_seeds:
  assumes "gossip_inv L g" "state g = STATE_INITIALIZED"
    "\<forall>nodes. seeds = Some nodes \<longrightarrow> unat n \<le> length nodes \<and> (\<forall>(a, l) \<in> set nodes. dest_ok L a l)"
  shows "\<exists>g'. pittacus_gossip_join g seeds n = Some (0, g') \<and> gossip_inv L g'
           \<and> state g' = (if seeds = None \<or> n = 0 then STATE_CONNECTED else STATE_JOINING)
           \<and> (length (outbound_messages g) + unat n \<le> MAX_OUTPUT_MESSAGES \<longrightarrow>
                (\<exists>new. outbound_messages g' = outbound_messages g @ new
                  \<and> map target new = (case seeds of None \<Rightarrow> []
                      | Some nodes \<Rightarrow> map (\<lambda>(a, l). (l, take L (the a))) (take (unat n) nodes))
                  \<and> (\<forall>x \<in> set new. carries (output_buffer g') (Hello \<lparr>hello_header = message_header_init MESSAGE_HELLO_TYPE 0,
                        hello_this_member = self_address g\<rparr>) x)
                  \<and> (\<forall>x \<in> set (outbound_messages g).
                        region (output_buffer g') (env_buffer x) = region (output_buffer g) (env_buffer x))))"
  using pittacus_gossip_join_ok [OF assms] unfolding queues_hellos_def own_hello_def .

theorem join_greets_seeds_witness:
  "\<exists>g' x. pittacus_gossip_join ex_initialized (Some [(Some ex_addr, 16)]) 1 = Some (0, g') \<and> gossip_inv 16 g'
     \<and> state g' = STATE_JOINING \<and> outbound_messages g' = [x] \<and> target x = (16, ex_addr)
     \<and> carries (output_buffer g') (Hello \<lparr>hello_header = message_header_init MESSAGE_HELLO_TYPE 0,
          hello_this_member = self_address ex_initialized\<rparr>) x"
proof -
  have "outbound_messages ex_initialized = []" by (simp add: ex_initialized_def ex_node_def)
  then show ?thesis
    using join_greets_seeds [OF ex_initialized_ok, of "Some [(Some ex_addr, 16)]" 1] by (auto simp: map_eq_Cons_conv)
qed

text \<open>C14. A round of sending on a valid node. A node that is neither joining nor connected is left as it is and the
  call reports the bad state. Otherwise the call returns and leaves a valid node in the same state; every datagram
  that went out belongs to a queued envelope: it goes to its recipient and consists of the bytes of its message with
  the envelope's sequence number in the header; the result counts the datagrams or reports a failed write; and members only
  leave the set. If the writes succeed and no queued envelope was sent before, each of them is sent, in the
  order of the queue, and the result is their number.\<close>

theorem process_send_sends_queued:
  assumes "gossip_inv L g"
  shows "(state g \<noteq> STATE_JOINING \<and> state g \<noteq> STATE_CONNECTED \<longrightarrow>
           pittacus_gossip_process_send g = Some (err_code PITTACUS_ERR_BAD_STATE, g))
     \<and> (state g = STATE_JOINING \<or> state g = STATE_CONNECTED \<longrightarrow>
         (\<exists>r g' ds. pittacus_gossip_process_send g = Some (r, g') \<and> gossip_inv L g' \<and> state g' = state g
          \<and> set (ms_list (members g')) \<subseteq> set (ms_list (members g))
          \<and> env_wire (genv g') = env_wire (genv g) @ ds
          \<and> (\<forall>d \<in> set ds. \<exists>x \<in> set (outbound_messages g). datagram_of (output_buffer g) x d)
          \<and> (r = int (length ds) \<or> r = err_code PITTACUS_ERR_WRITE_FAILED)
          \<and> ((\<forall>x \<in> set (outbound_messages g). attempt_num x = 0 \<and> 0 < max_attempts x) \<and> (\<forall>w \<in> sset (env_sends (genv g)). 0 \<le> w) \<longrightarrow>
               ds = map (\<lambda>x. (recipient x, on_wire (output_buffer g) x)) (outbound_messages g) \<and> r = int (length ds))))"
proof (cases "state g = STATE_JOINING \<or> state g = STATE_CONNECTED")
  case True
  then have run: "pittacus_gossip_process_send g = process_send_loop g 0 [] (outbound_messages g)"
    by (auto simp: pittacus_gossip_process_send_def)
  have inv: "gossip_inv L (g\<lparr>outbound_messages := [] @ outbound_messages g\<rparr>)" using assms by simp
  obtain r g' ds where g': "process_send_loop g 0 [] (outbound_messages g) = Some (r, g')" "gossip_inv L g'" "state g' = state g"
    "set (ms_list (members g')) \<subseteq> set (ms_list (members g))" "env_wire (genv g') = env_wire (genv g) @ ds"
    "\<forall>d \<in> set ds. \<exists>x \<in> set (outbound_messages g). datagram_of (output_buffer g) x d"
    "r = int (length ds) \<or> r = err_code PITTACUS_ERR_WRITE_FAILED"
    using process_send_loop_ok [OF inv, of 0] by (auto simp: loop_result_def sent_ok_def)
  moreover have "ds = map (\<lambda>x. (recipient x, on_wire (output_buffer g) x)) (outbound_messages g) \<and> r = int (length ds)"
    if "\<forall>x \<in> set (outbound_messages g). attempt_num x = 0 \<and> 0 < max_attempts x" "\<forall>w \<in> sset (env_sends (genv g)). 0 \<le> w"
    using process_send_loop_fresh [OF inv that, of 0] g'(1,5) by auto
  ultimately show ?thesis using True run by (intro conjI impI exI [of _ r] exI [of _ g'] exI [of _ ds]) auto
qed (simp add: pittacus_gossip_process_send_def)

theorem process_send_sends_queued_witness:
  "\<exists>r g'. pittacus_gossip_process_send ex_sending = Some (r, g') \<and> gossip_inv 16 g' \<and> state g' = STATE_CONNECTED
     \<and> env_wire (genv g') = [(ex_addr, on_wire (output_buffer ex_sending) (ex_envelope 1)),
          (ex_addr, on_wire (output_buffer ex_sending) (ex_envelope 2))] \<and> r = 2"
proof -
  have "state ex_sending = STATE_CONNECTED" "env_wire (genv ex_sending) = []" "outbound_messages ex_sending = [ex_envelope 1, ex_envelope 2]"
    "\<forall>w \<in> sset (env_sends (genv ex_sending)). 0 \<le> w" "recipient (ex_envelope k) = ex_addr" "attempt_num (ex_envelope k) = 0" "0 < max_attempts (ex_envelope k)" for k
    by (simp_all add: ex_sending_def ex_node_def ex_env_def ex_envelope_def)
  with process_send_sends_queued [OF ex_sending_inv] show ?thesis by fastforce
qed

text \<open>C24. The tick: before the interval has passed, and on a node that is not connected, it only
  returns the time to wait; after it, a status message with the node's version is queued for random
  members and the time of the tick is kept.\<close>

theorem tick_gossips_status:
  assumes "gossip_inv L g"
  shows "\<exists>r g'. pittacus_gossip_tick g = Some (r, g') \<and> gossip_inv L g' \<and> state g' = state g
           \<and> (state g \<noteq> STATE_CONNECTED \<longrightarrow> g' = g \<and> r = 1000)
           \<and> (\<forall>now e. state g = STATE_CONNECTED \<longrightarrow> pt_time (genv g) = (now, e) \<longrightarrow>
                (if last_gossip_ts g + GOSSIP_TICK_INTERVAL > now
                 then g' = g\<lparr>genv := e\<rparr> \<and> r = int_of_u64 (last_gossip_ts g + GOSSIP_TICK_INTERVAL - now)
                 else r = 1000 \<and> last_gossip_ts g' = now
                   \<and> (\<exists>m as g1. enqueued L (g\<lparr>genv := e\<rparr>) (Status m) as g1 \<and> g' = g1\<lparr>last_gossip_ts := now\<rparr>
                       \<and> vc_map (status_version m) = vc_map (data_version g)
                       \<and> targets_ok g None 0 GOSSIP_RANDOM as)))"
  using pittacus_gossip_tick_ok [OF assms] .

theorem tick_gossips_status_witness:
  "\<exists>r g'. pittacus_gossip_tick ex_node = Some (r, g') \<and> gossip_inv 16 g' \<and> state g' = state ex_node
     \<and> (state ex_node \<noteq> STATE_CONNECTED \<longrightarrow> g' = ex_node \<and> r = 1000)
     \<and> (\<forall>now e. state ex_node = STATE_CONNECTED \<longrightarrow> pt_time (genv ex_node) = (now, e) \<longrightarrow>
          (if last_gossip_ts ex_node + GOSSIP_TICK_INTERVAL > now
           then g' = ex_node\<lparr>genv := e\<rparr> \<and> r = int_of_u64 (last_gossip_ts ex_node + GOSSIP_TICK_INTERVAL - now)
           else r = 1000 \<and> last_gossip_ts g' = now
             \<and> (\<exists>m as g1. enqueued 16 (ex_node\<lparr>genv := e\<rparr>) (Status m) as g1 \<and> g' = g1\<lparr>last_gossip_ts := now\<rparr>
                 \<and> vc_map (status_version m) = vc_map (data_version ex_node)
                 \<and> targets_ok ex_node None 0 GOSSIP_RANDOM as)))"
  by (rule tick_gossips_status) simp

text \<open>C1. In every life of a node after its creation, in any order of calls and whatever the network
  delivers within the bounds, the node is valid, its state only moves forward from INITIALIZED over
  JOINING to CONNECTED, and every further permitted call returns and keeps this.\<close>

theorem node_always_valid:
  assumes "receiver_contract L receiver" "gossip_inv L g0" "state g0 = STATE_INITIALIZED"
    "reachable L receiver g0 g" "call_ok L c g"
  shows "gossip_inv L g \<and> state_le STATE_INITIALIZED (state g)
     \<and> (\<exists>r g'. api receiver c g = Some (r, g') \<and> gossip_inv L g' \<and> state_le (state g) (state g'))"
proof -
  have g: "gossip_inv L g" "state_le STATE_INITIALIZED (state g)"
    using receiver_contract.reachable_inv [OF assms(1,4,2,3)] by auto
  then have "progress (state g) \<noteq> None" by (auto simp: state_le_def)
  with receiver_contract.api_ok [OF assms(1) g(1) assms(5)] g show ?thesis by blast
qed

theorem node_always_valid_witness:
  "\<exists>g. reachable 16 None ex_initialized g \<and> gossip_inv 16 g \<and> state_le STATE_INITIALIZED (state g)
     \<and> (\<exists>r g'. api None Tick g = Some (r, g') \<and> gossip_inv 16 g' \<and> state_le (state g) (state g'))"
proof -
  obtain g where "api None (Join None 0) ex_initialized = Some (0, g)" "call_ok 16 (Join None 0) ex_initialized"
    by (simp add: pittacus_gossip_join_def)
  then have r: "reachable 16 None ex_initialized g" by (blast intro: reachable.intros)
  have "call_ok 16 Tick g" by simp
  from node_always_valid [OF no_receiver.receiver_contract_axioms ex_initialized_ok r this] r show ?thesis by blast
qed

end
