(* ===== verification/Pt_Retransmission.thy ===== *)
theory Pt_Retransmission
  imports Pt_Api
begin

text \<open>
  Repeated sending. \<^verbatim>\<open>pittacus_gossip_process_send\<close> sends every queued envelope that is due, keeps those
  that wait for an acknowledgement and gives up after the last attempt. The theory shows that this
  comes to an end: if nothing is added, the sends succeed and the rounds are at least
  \<^verbatim>\<open>MESSAGE_RETRY_INTERVAL\<close> apart, the queue is empty after four rounds.
\<close>

section \<open>One round\<close>

text \<open>All readings of the clock in a round are late enough for a retry of the envelope.\<close>

definition due_for :: "(int \<times> int) stream \<Rightarrow> envelope \<Rightarrow> bool" where
  "due_for clock x \<longleftrightarrow> attempt_num x = 0
     \<or> (\<forall>t \<in> sset clock. unat (attempt_ts x) + unat MESSAGE_RETRY_INTERVAL \<le> unat (clock_ms t))"

text \<open>What a round makes of an envelope it sends and keeps.\<close>

definition tried :: "(int \<times> int) stream \<Rightarrow> envelope \<Rightarrow> envelope \<Rightarrow> bool" where
  "tried clock x y \<longleftrightarrow> attempt_num x < max_attempts x
     \<and> (\<exists>t \<in> sset clock. y = x\<lparr>attempt_ts := clock_ms t, attempt_num := attempt_num x + 1\<rparr>)"

lemma due_not_waiting:
  assumes "due_for clock x" "attempt_num x \<noteq> 0" "t \<in> sset clock"
  shows "\<not> attempt_ts x + MESSAGE_RETRY_INTERVAL > clock_ms t"
proof -
  have le: "unat (attempt_ts x) + unat MESSAGE_RETRY_INTERVAL \<le> unat (clock_ms t)"
    using assms by (auto simp: due_for_def)
  have small: "unat (clock_ms t) < 2 ^ LENGTH(64)" by (rule unsigned_less)
  have "unat (attempt_ts x + MESSAGE_RETRY_INTERVAL) = unat (attempt_ts x) + unat MESSAGE_RETRY_INTERVAL"
    using le small by (intro unat_add_lem [THEN iffD1]) simp
  with le show ?thesis by (simp add: word_less_nat_alt)
qed

lemma sset_stl: "x \<in> sset (stl s) \<Longrightarrow> x \<in> sset s"
  by (cases s) auto

lemma tried_mono: "tried (stl clock) x y \<Longrightarrow> tried clock x y"
  by (auto simp: tried_def dest: sset_stl)

lemma due_for_stl: "due_for clock x \<Longrightarrow> due_for (stl clock) x"
  by (auto simp: due_for_def dest: sset_stl)

definition round_result ::
  "nat \<Rightarrow> pittacus_gossip \<Rightarrow> (int \<times> int) stream \<Rightarrow> envelope list \<Rightarrow> envelope list \<Rightarrow> (int \<times> pittacus_gossip) option \<Rightarrow> bool" where
  "round_result L g clock kept rest res \<longleftrightarrow> (\<exists>r g' new. res = Some (r, g') \<and> gossip_inv L g' \<and> state g' = state g
     \<and> sset (env_sends (genv g')) \<subseteq> sset (env_sends (genv g))
     \<and> outbound_messages g' = kept @ new \<and> (\<forall>y \<in> set new. \<exists>x \<in> set rest. tried clock x y))"

lemma round_result_step:
  assumes "round_result L h clk (kept @ ys) rs res" "state h = state g"
    "sset (env_sends (genv h)) \<subseteq> sset (env_sends (genv g))" "clk = clock \<or> clk = stl clock"
    "set rs \<subseteq> set rest" "\<forall>y \<in> set ys. \<exists>x \<in> set rest. tried clock x y"
  shows "round_result L g clock kept rest res"
proof -
  obtain r g' new where r: "res = Some (r, g')" "gossip_inv L g'" "state g' = state h"
    "sset (env_sends (genv g')) \<subseteq> sset (env_sends (genv h))" "outbound_messages g' = (kept @ ys) @ new"
    "\<forall>y \<in> set new. \<exists>x \<in> set rs. tried clk x y"
    using assms(1) by (auto simp: round_result_def)
  have "\<forall>y \<in> set new. \<exists>x \<in> set rest. tried clock x y"
    using r(6) assms(4,5) tried_mono by blast
  then have "\<forall>y \<in> set (ys @ new). \<exists>x \<in> set rest. tried clock x y" using assms(6) by auto
  moreover have "outbound_messages g' = kept @ (ys @ new)" using r(5) by simp
  ultimately show ?thesis unfolding round_result_def using r(1-4) assms(2,3) by (metis subset_trans)
qed

lemma process_send_loop_round:
  assumes "gossip_inv L (g\<lparr>outbound_messages := kept @ rest\<rparr>)"
    "\<forall>x \<in> set rest. due_for (env_clock (genv g)) x" "\<forall>w \<in> sset (env_sends (genv g)). 0 \<le> w"
  shows "round_result L g (env_clock (genv g)) kept rest (process_send_loop g n kept rest)"
  using assms
proof (induction "length rest" arbitrary: g n kept rest rule: less_induct)
  case less
  show ?case
  proof (cases rest)
    case Nil
    then show ?thesis using less.prems(1) by (simp add: process_send_loop.simps round_result_def)
  next
    case (Cons c rest')
    let ?clock = "env_clock (genv g)"
    note inv = less.prems(1) [unfolded Cons]
    have due: "due_for ?clock c" "\<forall>x \<in> set rest'. due_for ?clock x" using less.prems(2) Cons by auto
    have now: "shd ?clock \<in> sset ?clock" by (rule shd_sset)
    have ok: "\<not> shd (env_sends (genv g)) < 0" using less.prems(3) shd_sset [of "env_sends (genv g)"] by force
    have IH: "round_result L g' (env_clock (genv g')) kept' r (process_send_loop g' n' kept' r)"
      if "gossip_inv L (g'\<lparr>outbound_messages := kept' @ r\<rparr>)" "length r \<le> length rest'"
        "\<forall>x \<in> set r. due_for (env_clock (genv g')) x" "\<forall>w \<in> sset (env_sends (genv g')). 0 \<le> w" for g' n' kept' r
      using less.hyps that Cons by simp
    show ?thesis
      unfolding Cons
    proof (cases rule: process_send_cases [OF inv, of n])
      case (1 s)
      let ?r = "dropWhile (\<lambda>x. recipient x = recipient c) rest'"
      have "round_result L (g\<lparr>members := s\<rparr>) ?clock kept ?r (process_send_loop g n kept (c # rest'))"
        unfolding 1(3) using IH [where g' = "g\<lparr>members := s\<rparr>" and kept' = kept and r = ?r and n' = n] 1(4) due(2) less.prems(3)
        by (auto simp: length_dropWhile_le dest: set_dropWhileD)
      then show "round_result L g ?clock kept (c # rest') (process_send_loop g n kept (c # rest'))"
        by (rule round_result_step [where ys = "[]", simplified]) (auto dest: set_dropWhileD)
    next
      case 2
      have "round_result L g ?clock kept rest' (process_send_loop g n kept (c # rest'))"
        unfolding 2(3) using IH [where g' = g and kept' = kept and r = rest' and n' = n] 2(4) due(2) less.prems(3) by simp
      then show "round_result L g ?clock kept (c # rest') (process_send_loop g n kept (c # rest'))"
        by (rule round_result_step [where ys = "[]", simplified]) auto
    next
      case 3
      then show "round_result L g ?clock kept (c # rest') (process_send_loop g n kept (c # rest'))"
        using due_not_waiting [OF due(1) 3(2) now] by simp
    next
      case (4 out)
      then show "round_result L g ?clock kept (c # rest') (process_send_loop g n kept (c # rest'))"
        using ok by simp
    next
      case (5 out bs)
      let ?y = "c\<lparr>attempt_ts := clock_ms (shd ?clock), attempt_num := attempt_num c + 1\<rparr>"
      let ?ys = "if max_attempts c \<le> 1 then [] else [?y]"
      let ?g = "g\<lparr>output_buffer := out, genv := (genv g)\<lparr>env_clock := stl ?clock, env_sends := stl (env_sends (genv g)),
          env_wire := env_wire (genv g) @ [(recipient c, bs)]\<rparr>\<rparr>"
      have sends: "\<forall>w \<in> sset (stl (env_sends (genv g))). 0 \<le> w" using less.prems(3) sset_stl [of _ "env_sends (genv g)"] by blast
      have "\<forall>x \<in> set rest'. due_for (stl ?clock) x" using due(2) due_for_stl [of ?clock] by blast
      then have step: "round_result L ?g (stl ?clock) (kept @ ?ys) rest' (process_send_loop g n kept (c # rest'))"
        unfolding 5(4) using IH [where g' = ?g and kept' = "kept @ ?ys" and r = rest' and n' = "n + 1"] 5(5) sends by simp
      have "tried ?clock c ?y" using 5(1) now by (auto simp: tried_def)
      then have ys: "\<forall>y \<in> set ?ys. \<exists>x \<in> set (c # rest'). tried ?clock x y" by simp
      have sub: "sset (stl (env_sends (genv g))) \<subseteq> sset (env_sends (genv g))"
        using sset_stl [of _ "env_sends (genv g)"] by blast
      show "round_result L g ?clock kept (c # rest') (process_send_loop g n kept (c # rest'))"
        by (rule round_result_step [OF step _ _ _ _ ys]) (use sub in \<open>simp_all add: subset_insertI\<close>)
    qed
  qed
qed

section \<open>Several rounds\<close>

text \<open>
  The application calls \<^verbatim>\<open>pittacus_gossip_process_send\<close> again and again; each round has its own readings
  of the clock. \<open>apart\<close> says that every reading of the later round is a retry interval after every
  reading of the earlier one.
\<close>

fun send_rounds :: "(int \<times> int) stream list \<Rightarrow> pittacus_gossip \<Rightarrow> pittacus_gossip option" where
  "send_rounds [] g = Some g"
| "send_rounds (clock # clocks) g = do {
     (_, g) \<leftarrow> pittacus_gossip_process_send (g\<lparr>genv := (genv g)\<lparr>env_clock := clock\<rparr>\<rparr>);
     send_rounds clocks g
   }"

definition apart :: "(int \<times> int) stream \<Rightarrow> (int \<times> int) stream \<Rightarrow> bool" where
  "apart a b \<longleftrightarrow> (\<forall>s \<in> sset a. \<forall>t \<in> sset b. unat (clock_ms s) + unat MESSAGE_RETRY_INTERVAL \<le> unat (clock_ms t))"

lemma tried_due: "tried clock x y \<Longrightarrow> apart clock clock' \<Longrightarrow> due_for clock' y"
  by (auto simp: tried_def due_for_def apart_def)

lemma tried_more:
  assumes "tried clock x y"
  shows "unat (attempt_num y) = unat (attempt_num x) + 1"
proof -
  obtain t where t: "attempt_num x < max_attempts x"
    "y = x\<lparr>attempt_ts := clock_ms t, attempt_num := attempt_num x + 1\<rparr>" using assms by (auto simp: tried_def)
  have "unat (max_attempts x) < 2 ^ LENGTH(16)" by (rule unsigned_less)
  with t(1) have "unat (attempt_num x) + unat (1 :: u16) < 2 ^ LENGTH(16)" by (simp add: word_less_nat_alt)
  then have "unat (attempt_num x + 1) = unat (attempt_num x) + unat (1 :: u16)" by (rule unat_add_lem [THEN iffD1])
  then show ?thesis using t(2) by simp
qed

lemma attempts_bounded: "envelope_ok L x \<Longrightarrow> unat (attempt_num x) \<le> 3"
  by (auto simp: envelope_ok_def word_le_nat_alt)

lemma send_round_ok:
  assumes inv: "gossip_inv L g" and st: "state g = STATE_JOINING \<or> state g = STATE_CONNECTED"
    and due: "\<forall>x \<in> set (outbound_messages g). due_for clock x" and sends: "\<forall>w \<in> sset (env_sends (genv g)). 0 \<le> w"
  shows "\<exists>r g'. pittacus_gossip_process_send (g\<lparr>genv := (genv g)\<lparr>env_clock := clock\<rparr>\<rparr>) = Some (r, g') \<and> gossip_inv L g'
     \<and> state g' = state g \<and> sset (env_sends (genv g')) \<subseteq> sset (env_sends (genv g))
     \<and> (\<forall>y \<in> set (outbound_messages g'). \<exists>x \<in> set (outbound_messages g). tried clock x y)"
proof -
  let ?g = "g\<lparr>genv := (genv g)\<lparr>env_clock := clock\<rparr>\<rparr>"
  have "gossip_inv L (?g\<lparr>outbound_messages := [] @ outbound_messages g\<rparr>)"
    using inv allocs_ok_cong [of "(genv g)\<lparr>env_clock := clock\<rparr>" "genv g"] by (simp add: gossip_inv_def)
  from process_send_loop_round [OF this, of 0] due sends show ?thesis
    using st by (auto simp: round_result_def pittacus_gossip_process_send_def)
qed

text \<open>After \<open>n\<close> rounds every envelope left has been tried at least \<open>n\<close> times more.\<close>

lemma send_rounds_ok:
  assumes "gossip_inv L g" "state g = STATE_JOINING \<or> state g = STATE_CONNECTED" "sorted_wrt apart clocks"
    "\<forall>x \<in> set (outbound_messages g). \<forall>clock \<in> set clocks. due_for clock x" "\<forall>w \<in> sset (env_sends (genv g)). 0 \<le> w"
    "\<forall>x \<in> set (outbound_messages g). k \<le> unat (attempt_num x)"
  shows "\<exists>g'. send_rounds clocks g = Some g' \<and> gossip_inv L g' \<and> state g' = state g
     \<and> (\<forall>x \<in> set (outbound_messages g'). k + length clocks \<le> unat (attempt_num x))"
  using assms
proof (induction clocks arbitrary: g k)
  case Nil
  then show ?case by simp
next
  case (Cons clock clocks)
  obtain r g1 where g1: "pittacus_gossip_process_send (g\<lparr>genv := (genv g)\<lparr>env_clock := clock\<rparr>\<rparr>) = Some (r, g1)"
    "gossip_inv L g1" "state g1 = state g" "sset (env_sends (genv g1)) \<subseteq> sset (env_sends (genv g))"
    "\<forall>y \<in> set (outbound_messages g1). \<exists>x \<in> set (outbound_messages g). tried clock x y"
    using send_round_ok [OF Cons.prems(1,2), of clock] Cons.prems(4,5) by auto
  have due: "\<forall>y \<in> set (outbound_messages g1). \<forall>cl \<in> set clocks. due_for cl y"
    using g1(5) Cons.prems(3) tried_due by fastforce
  have more: "\<forall>y \<in> set (outbound_messages g1). Suc k \<le> unat (attempt_num y)"
    using g1(5) Cons.prems(6) tried_more by fastforce
  have "\<exists>g'. send_rounds clocks g1 = Some g' \<and> gossip_inv L g' \<and> state g' = state g1
     \<and> (\<forall>x \<in> set (outbound_messages g'). Suc k + length clocks \<le> unat (attempt_num x))"
    using g1 Cons.prems(2,3,5) due more by (intro Cons.IH) auto
  then show ?case using g1 by auto
qed

section \<open>Properties\<close>

definition ex_clocks :: "(int \<times> int) stream list" where
  "ex_clocks = map sconst [(10, 0), (20, 0), (30, 0), (40, 0)]"

lemma ex_clocks_apart [simp]: "sorted_wrt apart ex_clocks" "length ex_clocks = 4"
  by (simp_all add: ex_clocks_def apart_def clock_ms_def)

text \<open>C11. Retransmission ends: if nothing new is queued, the sends succeed and the rounds are at least
  the retry interval apart, four rounds of \<^verbatim>\<open>pittacus_gossip_process_send\<close> empty the queue, whether or
  not anything is acknowledged, and leave a valid node in the same state.\<close>

theorem retransmission_ends:
  assumes "gossip_inv L g" "state g = STATE_JOINING \<or> state g = STATE_CONNECTED"
    "sorted_wrt apart clocks" "length clocks = 4" "\<forall>w \<in> sset (env_sends (genv g)). 0 \<le> w"
    "\<forall>x \<in> set (outbound_messages g). \<forall>clock \<in> set clocks. due_for clock x"
  shows "\<exists>g'. send_rounds clocks g = Some g' \<and> outbound_messages g' = [] \<and> gossip_inv L g' \<and> state g' = state g"
proof -
  obtain g' where g': "send_rounds clocks g = Some g'" "gossip_inv L g'" "state g' = state g"
    "\<forall>x \<in> set (outbound_messages g'). 0 + length clocks \<le> unat (attempt_num x)"
    using send_rounds_ok [OF assms(1,2,3,6,5), of 0] by auto
  have "\<forall>x \<in> set (outbound_messages g'). unat (attempt_num x) \<le> 3"
    using g'(2) attempts_bounded by (auto simp: gossip_inv_def)
  with g'(4) assms(4) have "\<forall>x \<in> set (outbound_messages g'). False" by fastforce
  then have "outbound_messages g' = []" by (cases "outbound_messages g'") auto
  then show ?thesis using g' by blast
qed

theorem retransmission_ends_witness:
  "\<exists>g'. send_rounds ex_clocks ex_sending = Some g' \<and> outbound_messages g' = [] \<and> gossip_inv 16 g'
     \<and> state g' = state ex_sending"
  by (rule retransmission_ends) (simp, simp_all add: ex_sending_def due_for_def ex_envelope_def ex_node_def ex_env_def)

end
