(* ===== verification/Pt_Sync.thy ===== *)
theory Pt_Sync
  imports Pt_Retransmission
begin

text \<open>
  Anti-entropy between two nodes. A node that is told of an older version
  (\<^verbatim>\<open>gossip_enqueue_data_log\<close>, called by the handler of status messages) queues the logged data the other
  node lacks. The theory follows these messages to the other node: what is queued, what the bytes on
  the wire decode to, and what the receiver knows and has delivered to its application afterwards.
\<close>

section \<open>What is queued\<close>

text \<open>The record is news for a node with version \<open>c\<close>.\<close>

definition behind :: "(member_id_t \<rightharpoonup> u32) \<Rightarrow> data_log_record \<Rightarrow> bool" where
  "behind k r \<longleftrightarrow> record_verdict (k (member_id (log_version r))) (sequence_number (log_version r)) = VC_BEFORE"

definition missing :: "(member_id_t \<rightharpoonup> u32) \<Rightarrow> data_log \<Rightarrow> data_log_record list" where
  "missing k l = filter (behind k) (take (log_size l) (messages l))"

lemma enqueued_room:
  assumes "enqueued L g m [to] g'" "length (outbound_messages g) < MAX_OUTPUT_MESSAGES"
  shows "\<exists>x. outbound_messages g' = outbound_messages g @ [x] \<and> target x = to \<and> carries (output_buffer g') m x
     \<and> (\<forall>y \<in> set (outbound_messages g). region (output_buffer g') (env_buffer y) = region (output_buffer g) (env_buffer y))"
proof -
  obtain new where "outbound_messages g' = outbound_messages g @ new" "map target new = [to]"
    "\<forall>x \<in> set new. carries (output_buffer g') m x"
    "\<forall>y \<in> set (outbound_messages g). region (output_buffer g') (env_buffer y) = region (output_buffer g) (env_buffer y)"
    using assms by (auto simp: enqueued_def target_def)
  then show ?thesis by (cases new) auto
qed

lemma envelope_in_bounds:
  assumes "gossip_inv L g" "x \<in> set (outbound_messages g)"
  shows "env_buffer x + env_buffer_size x \<le> length (output_buffer g)"
proof -
  have x: "region_ok (env_buffer x)" "env_buffer_size x \<le> 512" and out: "length (output_buffer g) = 51200"
    using assms by (auto simp: gossip_inv_def envelope_ok_def)
  have "env_buffer x + 512 \<le> 51200" using region_div [OF x(1)] by linarith
  then show ?thesis using x(2) out by simp
qed

definition queued_for :: "u8 list \<Rightarrow> u32 \<times> u8 list \<Rightarrow> data_log_record \<Rightarrow> envelope \<Rightarrow> bool" where
  "queued_for out to r x \<longleftrightarrow> target x = to \<and> carries out (Data (gossip_data_log_create_message r)) x"

lemma send_data_log_exact:
  assumes "gossip_inv L g" "dest_ok L to len" "vc_wf c" "\<forall>i \<in> set is. i < log_size (gossip_log g)"
    "\<forall>r \<in> set (map ((!) (messages (gossip_log g))) is). behind (vc_map c) r \<longrightarrow> 26 + unat (log_data_size r) \<le> MESSAGE_MAX_SIZE"
    "length (outbound_messages g) + length (filter (behind (vc_map c)) (map ((!) (messages (gossip_log g))) is)) \<le> MAX_OUTPUT_MESSAGES"
  shows "\<exists>g' new. send_data_log g c to len is 0 = Some (0, g') \<and> gossip_inv L g' \<and> same_node g g'
     \<and> outbound_messages g' = outbound_messages g @ new
     \<and> list_all2 (queued_for (output_buffer g') (len, take L (the to)))
          (filter (behind (vc_map c)) (map ((!) (messages (gossip_log g))) is)) new
     \<and> (\<forall>y \<in> set (outbound_messages g). region (output_buffer g') (env_buffer y) = region (output_buffer g) (env_buffer y))"
  using assms
proof (induction "is" arbitrary: g)
  case Nil
  then show ?case by simp
next
  case (Cons i "is")
  have l: "log_inv (gossip_log g)" using Cons.prems(1) by (simp add: gossip_inv_def)
  then have i: "i < length (messages (gossip_log g))" "i < log_size (gossip_log g)"
    using Cons.prems(4) by (auto simp: log_inv_def)
  let ?r = "messages (gossip_log g) ! i"
  let ?m = "gossip_data_log_create_message ?r" and ?to = "(len, take L (the to))"
  have v: "vector_clock_compare_with_record c (log_version ?r) False =
      Some (record_verdict (vc_map c (member_id (log_version ?r))) (sequence_number (log_version ?r)), c)"
    using vector_clock_compare_with_record_nomerge [OF Cons.prems(3)] .
  show ?case
  proof (cases "behind (vc_map c) ?r")
    case True
    have fits: "message_fits (Data ?m)"
      using Cons.prems(5) True by (simp add: gossip_data_log_create_message_def)
    obtain g1 where g1: "gossip_enqueue_message g MESSAGE_DATA_TYPE (Data ?m) to len GOSSIP_DIRECT = Some (0, g1)"
      "enqueued L g (Data ?m) [?to] g1"
      using direct_ok [OF Cons.prems(1) _ fits Cons.prems(2), of MESSAGE_DATA_TYPE] log_message_valid [OF l i(2)] by auto
    note inv1 = enqueued_inv [OF g1(2)]
    then have log1: "gossip_log g1 = gossip_log g" by (simp add: same_node_def)
    obtain x where x: "outbound_messages g1 = outbound_messages g @ [x]" "queued_for (output_buffer g1) ?to ?r x"
      "\<forall>y \<in> set (outbound_messages g). region (output_buffer g1) (env_buffer y) = region (output_buffer g) (env_buffer y)"
      using enqueued_room [OF g1(2)] Cons.prems(6) True by (auto simp: queued_for_def)
    have "\<exists>g' new. send_data_log g1 c to len is 0 = Some (0, g') \<and> gossip_inv L g' \<and> same_node g1 g'
       \<and> outbound_messages g' = outbound_messages g1 @ new
       \<and> list_all2 (queued_for (output_buffer g') ?to) (filter (behind (vc_map c)) (map ((!) (messages (gossip_log g1))) is)) new
       \<and> (\<forall>y \<in> set (outbound_messages g1). region (output_buffer g') (env_buffer y) = region (output_buffer g1) (env_buffer y))"
      using inv1 Cons.prems log1 x(1) True by (intro Cons.IH) auto
    then obtain g' new where g': "send_data_log g1 c to len is 0 = Some (0, g')" "gossip_inv L g'" "same_node g1 g'"
      "outbound_messages g' = outbound_messages g1 @ new"
      "list_all2 (queued_for (output_buffer g') ?to) (filter (behind (vc_map c)) (map ((!) (messages (gossip_log g))) is)) new"
      "\<forall>y \<in> set (outbound_messages g1). region (output_buffer g') (env_buffer y) = region (output_buffer g1) (env_buffer y)"
      unfolding log1 by blast
    have "env_buffer_size x \<le> MESSAGE_MAX_SIZE" using inv1 x(1) by (auto simp: gossip_inv_def envelope_ok_def)
    then have "queued_for (output_buffer g') ?to ?r x"
      using x(1,2) g'(6) carries_region by (auto simp: queued_for_def)
    moreover have "send_data_log g c to len (i # is) 0 = Some (0, g')"
      using g1(1) g'(1) v i True by (simp add: arr_get_in behind_def)
    moreover have "same_node g g'" using inv1 g'(3) same_node_trans by blast
    ultimately show ?thesis
      using g'(2,4,5,6) x(1,3) True by (intro exI [of _ g'] exI [of _ "x # new"]) simp
  next
    case False
    have "\<exists>g' new. send_data_log g c to len is 0 = Some (0, g') \<and> gossip_inv L g' \<and> same_node g g'
       \<and> outbound_messages g' = outbound_messages g @ new
       \<and> list_all2 (queued_for (output_buffer g') ?to) (filter (behind (vc_map c)) (map ((!) (messages (gossip_log g))) is)) new
       \<and> (\<forall>y \<in> set (outbound_messages g). region (output_buffer g') (env_buffer y) = region (output_buffer g) (env_buffer y))"
      using Cons.prems False by (intro Cons.IH) auto
    moreover have "send_data_log g c to len (i # is) 0 = send_data_log g c to len is 0"
      using v i False by (simp add: arr_get_in behind_def)
    ultimately show ?thesis using False by simp
  qed
qed

text \<open>With room for them, exactly the missing records are queued, in the order of the log.\<close>

lemma gossip_enqueue_data_log_exact:
  assumes inv: "gossip_inv L g" and dest: "dest_ok L to len" and c: "vc_wf c"
    and fits: "\<forall>r \<in> set (missing (vc_map c) (gossip_log g)). 26 + unat (log_data_size r) \<le> MESSAGE_MAX_SIZE"
    and room: "length (outbound_messages g) + length (missing (vc_map c) (gossip_log g)) \<le> MAX_OUTPUT_MESSAGES"
  shows "\<exists>g' new. gossip_enqueue_data_log g c to len = Some (0, g') \<and> gossip_inv L g' \<and> same_node g g'
     \<and> outbound_messages g' = outbound_messages g @ new
     \<and> list_all2 (queued_for (output_buffer g') (len, take L (the to))) (missing (vc_map c) (gossip_log g)) new"
proof -
  have "log_size (gossip_log g) \<le> length (messages (gossip_log g))" using inv by (auto simp: gossip_inv_def log_inv_def)
  then have recs: "map ((!) (messages (gossip_log g))) [0..<log_size (gossip_log g)] = take (log_size (gossip_log g)) (messages (gossip_log g))"
    by (simp add: map_nth_upt_take)
  show ?thesis
    unfolding gossip_enqueue_data_log_def
    using send_data_log_exact [OF inv dest c, of "[0..<log_size (gossip_log g)]"] fits room
    unfolding recs missing_def by auto
qed

section \<open>What arrives\<close>

text \<open>The datagram of an envelope in the input buffer of its receiver.\<close>

definition arrives :: "u8 list \<Rightarrow> envelope \<Rightarrow> message_envelope_in \<Rightarrow> bool" where
  "arrives out x p \<longleftrightarrow> length (in_buffer p) = INPUT_BUFFER_SIZE \<and> in_buffer_size p = length (on_wire out x)
     \<and> take (length (on_wire out x)) (in_buffer p) = on_wire out x"

lemma data_bytes_patched:
  assumes "data_valid m"
  shows "take 8 (data_msg_bytes m) @ be32 s @ drop 12 (data_msg_bytes m) =
     data_msg_bytes (m\<lparr>data_header := (data_header m)\<lparr>header_sequence_num := s\<rparr>\<rparr>)"
proof -
  have "length (protocol_id (data_header m)) = 5"
    using assms by (simp add: data_valid_def header_ok_def)
  then show ?thesis by (simp add: data_msg_bytes_def header_bytes_def payload_def)
qed

lemma carried_on_wire:
  assumes "carries out (Data m) x" "data_valid m" "env_buffer x + env_buffer_size x \<le> length out"
  shows "on_wire out x = data_msg_bytes (m\<lparr>data_header := (data_header m)\<lparr>header_sequence_num := sequence_num x\<rparr>\<rparr>)"
proof -
  have bytes: "take (env_buffer_size x) (drop (env_buffer x) out) = data_msg_bytes m"
    "env_buffer_size x = length (data_msg_bytes m)"
    using assms(1) by (auto simp: carries_def)
  have "length (data_msg_bytes m) = 26 + unat (data_size m)"
    using assms(2) payload_Some(2) [OF assms(2)] by (auto simp: data_msg_bytes_def data_valid_def)
  then have n: "8 \<le> env_buffer_size x" using bytes(2) by simp
  have "take 8 (drop (env_buffer x) out) = take 8 (take (env_buffer_size x) (drop (env_buffer x) out))"
    using n by (simp add: min_def)
  moreover have "take (env_buffer_size x - 12) (drop (env_buffer x + 12) out) =
      drop 12 (take (env_buffer_size x) (drop (env_buffer x) out))"
    by (simp add: drop_take add.commute)
  ultimately have "take 8 (drop (env_buffer x) out) = take 8 (data_msg_bytes m)"
    "take (env_buffer_size x - 12) (drop (env_buffer x + 12) out) = drop 12 (data_msg_bytes m)"
    unfolding bytes(1) by simp_all
  then show ?thesis using data_bytes_patched [OF assms(2)] by (simp add: on_wire_def)
qed

lemma arrives_decodes:
  assumes c: "carries out (Data m) x" and m: "data_valid m" "26 + unat (data_size m) \<le> MESSAGE_MAX_SIZE"
    and x: "env_buffer x + env_buffer_size x \<le> length out" and p: "arrives out x p"
  shows "\<exists>m'. data_packet p m' \<and> data_record m' = data_record m \<and> payload m' = payload m"
proof -
  let ?m = "m\<lparr>data_header := (data_header m)\<lparr>header_sequence_num := sequence_num x\<rparr>\<rparr>"
  have v: "data_valid ?m" using m(1) by (simp add: data_valid_def header_ok_def)
  have pay: "payload ?m = payload m" by (simp add: payload_def)
  have len: "length (data_msg_bytes ?m) = 26 + unat (data_size m)"
    using v payload_Some(2) [OF v] by (auto simp: data_msg_bytes_def data_valid_def)
  have wire: "on_wire out x = data_msg_bytes ?m" by (rule carried_on_wire [OF c m(1) x])
  have buf: "in_buffer p = data_msg_bytes ?m @ drop (length (data_msg_bytes ?m)) (in_buffer p)"
    "in_buffer_size p = length (data_msg_bytes ?m)"
    using p append_take_drop_id [of "length (on_wire out x)" "in_buffer p"] unfolding arrives_def wire by auto
  have "length (data_msg_bytes ?m) < 2 ^ 64" using len m(2) by simp
  from data_codec.decode_bytes [OF v ex_env_ok this, of "drop (length (data_msg_bytes ?m)) (in_buffer p)"]
  obtain m' where m': "message_data_decode (in_buffer p) (in_buffer_size p) = Some (Inr (length (data_msg_bytes ?m), m'))"
    "data_agrees ?m m'"
    unfolding buf(1) [symmetric] buf(2) by (auto simp: no_alloc_def)
  have "received (in_buffer p) (in_buffer_size p)"
    using p buf(2) len m(2) by (simp add: arrives_def received_def)
  then have "data_packet p m'" using m'(1) by (auto simp: data_packet_def)
  moreover have "data_record m' = data_record m" "payload m' = payload m"
    using m'(2) pay by (auto simp: data_agrees_def payload_def)
  ultimately show ?thesis by blast
qed

text \<open>The queued messages of the log, as they arrive.\<close>

definition log_record_sendable :: "data_log_record \<Rightarrow> bool" where
  "log_record_sendable r \<longleftrightarrow> data_valid (gossip_data_log_create_message r) \<and> 26 + unat (log_data_size r) \<le> MESSAGE_MAX_SIZE"

lemma create_message_parts:
  assumes "log_record_sendable r"
  shows "data_record (gossip_data_log_create_message r) = log_version r"
    "payload (gossip_data_log_create_message r) = snd (log_entry r)"
  using payload_Some(1) [of "gossip_data_log_create_message r"] assms
  by (auto simp: log_record_sendable_def gossip_data_log_create_message_def vector_clock_record_copy_def log_entry_def
      memcpy_src_def mem_read_def split: if_splits)

lemma queued_arrive:
  assumes "list_all2 (queued_for out to) rs new" "list_all2 (arrives out) new xs" "\<forall>r \<in> set rs. log_record_sendable r"
    "\<forall>x \<in> set new. env_buffer x + env_buffer_size x \<le> length out"
  shows "\<exists>ms. list_all2 data_packet xs ms \<and> map data_record ms = map log_version rs
           \<and> map payload ms = map (snd \<circ> log_entry) rs"
  using assms
proof (induction rs new arbitrary: xs rule: list_all2_induct)
  case Nil
  then show ?case by simp
next
  case (Cons r rs x new)
  then obtain p ps where xs: "xs = p # ps" "arrives out x p" "list_all2 (arrives out) new ps"
    by (auto simp: list_all2_Cons1)
  obtain ms where ms: "list_all2 data_packet ps ms" "map data_record ms = map log_version rs"
    "map payload ms = map (snd \<circ> log_entry) rs"
    using Cons.IH [OF xs(3)] Cons.prems by auto
  have r: "log_record_sendable r" using Cons.prems(2) by simp
  note parts = create_message_parts [OF r]
  obtain m where "data_packet p m" "data_record m = log_version r" "payload m = snd (log_entry r)"
    using arrives_decodes [of out "gossip_data_log_create_message r" x p] Cons.hyps(1) Cons.prems(3) xs(2) r
    unfolding parts
    by (auto simp: queued_for_def log_record_sendable_def gossip_data_log_create_message_def)
  then show ?case using xs(1) ms by (intro exI [of _ "m # ms"]) simp
qed

section \<open>What the receiver knows afterwards\<close>

lemma news_all:
  "distinct (map member_id rs) \<Longrightarrow> \<forall>r \<in> set rs. record_verdict (k (member_id r)) (sequence_number r) = VC_BEFORE \<Longrightarrow>
     news k rs = rs"
proof (induction rs arbitrary: k)
  case (Cons r rs)
  have "\<forall>r' \<in> set rs. record_verdict ((k(member_id r \<mapsto> sequence_number r)) (member_id r')) (sequence_number r') = VC_BEFORE"
    using Cons.prems by (auto simp: image_iff)
  then show ?case using Cons by simp
qed simp

lemma missing_distinct:
  assumes "log_inv l"
  shows "distinct (map member_id (map log_version (missing k l)))"
proof -
  have "distinct (map log_key (take (log_size l) (messages l)))" using assms by (simp add: log_inv_def)
  then have "distinct (map log_key (missing k l))" unfolding missing_def by (rule distinct_map_filter)
  then show ?thesis by (simp add: log_key_def [abs_def] comp_def)
qed

lemma log_map_record:
  assumes "log_inv l" "log_map l m = Some (s, p)"
  shows "\<exists>r \<in> set (take (log_size l) (messages l)). member_id (log_version r) = m \<and> sequence_number (log_version r) = s"
proof -
  have n: "log_size l \<le> length (messages l)" and d: "distinct (map log_key (take (log_size l) (messages l)))"
    using assms(1) by (auto simp: log_inv_def)
  obtain r where r: "table_map log_key (log_size l) (messages l) m = Some r" "log_entry r = (s, p)"
    using assms(2) by (auto simp: log_map_def)
  then obtain i where "i < log_size l" "r = messages l ! i" "log_key r = m"
    using table_map_Some_iff [OF d n] by auto
  then have "r \<in> set (take (log_size l) (messages l))" using n by (auto simp: in_set_conv_nth)
  then show ?thesis using r(2) \<open>log_key r = m\<close> by (auto simp: log_key_def log_entry_def)
qed

lemma missing_in_log:
  assumes "log_inv l" "r \<in> set (missing k l)"
  shows "member_id (log_version r) \<in> dom (log_map l)"
proof -
  have n: "log_size l \<le> length (messages l)" using assms(1) by (auto simp: log_inv_def)
  obtain i where "i < log_size l" "r = messages l ! i" using assms(2) by (auto simp: missing_def in_set_conv_nth)
  then have "table_map log_key (log_size l) (messages l) (log_key r) \<noteq> None"
    using table_map_None_iff [OF n, of log_key "log_key r"] by auto
  then show ?thesis by (simp add: log_map_dom log_key_def domIff)
qed

lemma not_behind: "\<not> behind k r \<Longrightarrow> \<exists>t. k (member_id (log_version r)) = Some t \<and> sequence_number (log_version r) \<le> t"
  by (auto simp: behind_def record_verdict_def split: option.splits if_splits)

text \<open>
  A node handles the missing data of another one's log: all of it is delivered, and the node then
  knows at least what the log holds.
\<close>

lemma missing_delivered:
  assumes a: "gossip_inv L a" "state a = STATE_CONNECTED" "ms_size (members a) + 2 ^ 16 < 3 * 2 ^ 29"
    and l: "log_inv l" "card (dom (vc_map (data_version a)) \<union> dom (log_map l)) \<le> MAX_VECTOR_SIZE"
    and xs: "list_all2 data_packet xs ms" "\<forall>x \<in> set xs. dest_ok L (Some (sender x)) (sender_len x)"
    and ms: "map data_record ms = map log_version (missing (vc_map (data_version a)) l)"
  shows "\<exists>a'. handle_packets (Some recording_receiver) a xs = Some a' \<and> gossip_inv L a'
     \<and> env_app (genv a') = env_app (genv a) @ map payload ms
     \<and> (\<forall>m s p. log_map l m = Some (s, p) \<longrightarrow> (\<exists>t. vc_map (data_version a') m = Some t \<and> s \<le> t))"
proof -
  let ?k = "vc_map (data_version a)" and ?rs = "map data_record ms"
  obtain a' ds where h: "handle_packets (Some recording_receiver) a xs = Some a'" "gossip_inv L a'"
    "observe_all (\<lambda>c r. vector_clock_compare_with_record c r True) (data_version a) ?rs = Some (map data_record ds, data_version a')"
    "subseq ds ms" "env_app (genv a') = env_app (genv a) @ map payload ds"
    using handle_packets_observed [OF a(1,2) xs a(3)] by blast
  have vc: "vc_inv (data_version a)" using a(1) by (simp add: gossip_inv_def)
  have fin: "finite (dom ?k \<union> dom (log_map l))"
    using clock_store.finite_known [OF vc] by (simp add: log_map_dom table_map_def finite_dom_map_of)
  have "member_id ` set ?rs \<subseteq> dom (log_map l)"
    unfolding ms using missing_in_log [OF l(1)] by auto
  then have "card (dom ?k \<union> member_id ` set ?rs) \<le> card (dom ?k \<union> dom (log_map l))" by (intro card_mono fin) auto
  then have "card (dom ?k \<union> member_id ` set ?rs) \<le> MAX_VECTOR_SIZE" using l(2) by simp
  from clock_store.observe_all_news [OF vc this] h(3)
  have obs: "map data_record ds = news ?k ?rs" "vc_le ?k (vc_map (data_version a'))"
    "\<forall>r \<in> set ?rs. \<exists>s. vc_map (data_version a') (member_id r) = Some s \<and> sequence_number r \<le> s" by auto
  have "news ?k ?rs = ?rs"
    unfolding ms using missing_distinct [OF l(1)] by (intro news_all) (auto simp: missing_def behind_def)
  then have "length ds = length ms" using obs(1) map_eq_imp_length_eq by metis
  then have ds: "ds = ms" using h(4) subseq_same_length by blast
  have "\<exists>t. vc_map (data_version a') m = Some t \<and> s \<le> t" if known: "log_map l m = Some (s, p)" for m s p
  proof -
    obtain r where r: "r \<in> set (take (log_size l) (messages l))" "member_id (log_version r) = m"
      "sequence_number (log_version r) = s" using log_map_record [OF l(1) known] by blast
    show ?thesis
    proof (cases "behind ?k r")
      case True
      then have "log_version r \<in> set ?rs" unfolding ms using r(1) by (simp add: missing_def)
      then show ?thesis using obs(3) r by blast
    next
      case False
      then obtain t where "?k m = Some t" "s \<le> t" using not_behind r by blast
      then show ?thesis using obs(2) unfolding vc_le_def by (meson order.trans)
    qed
  qed
  then show ?thesis using h(1,2,5) ds by auto
qed

section \<open>Properties\<close>

definition ex_logged :: data_log where
  "ex_logged = \<lparr>messages = \<lparr>log_version = \<lparr>sequence_number = 6, member_id = 1\<rparr>, log_data_size = 3,
       log_data = [104, 101, 121] @ replicate 509 0\<rparr>
     # replicate 24 \<lparr>log_version = \<lparr>sequence_number = 0, member_id = 0\<rparr>, log_data_size = 0, log_data = replicate 512 0\<rparr>,
     log_size = 1, log_current_idx = 1\<rparr>"

definition ex_ahead :: pittacus_gossip where
  "ex_ahead = ex_node\<lparr>gossip_log := ex_logged\<rparr>"

lemma ex_ahead_inv [simp]: "gossip_inv 16 ex_ahead"
proof -
  have "log_inv ex_logged" by (simp add: log_inv_def ex_logged_def log_record_ok_def)
  then show ?thesis using ex_node_inv by (simp add: gossip_inv_def ex_ahead_def)
qed

text \<open>C4. Anti-entropy converges. A node that answers another node's version with its data log queues
  exactly the records the other one lacks. If the datagrams of these envelopes reach the other node,
  it delivers exactly these payloads to its application, in the order of the log, and from then on
  knows every originator at least as far as the first node's log, provided that the payloads fit into
  messages, the messages into the queue and the originators into the version.\<close>

theorem anti_entropy_converges:
  assumes b: "gossip_inv L b" "dest_ok L to len" "vc_wf c" "vc_map c = vc_map (data_version a)"
    and fits: "\<forall>r \<in> set (missing (vc_map c) (gossip_log b)). 26 + unat (log_data_size r) \<le> MESSAGE_MAX_SIZE"
    and room: "length (outbound_messages b) + length (missing (vc_map c) (gossip_log b)) \<le> MAX_OUTPUT_MESSAGES"
    and a: "gossip_inv L a" "state a = STATE_CONNECTED" "ms_size (members a) + 2 ^ 16 < 3 * 2 ^ 29"
    and card: "card (dom (vc_map (data_version a)) \<union> dom (log_map (gossip_log b))) \<le> MAX_VECTOR_SIZE"
  shows "\<exists>b' new. gossip_enqueue_data_log b c to len = Some (0, b') \<and> gossip_inv L b'
     \<and> outbound_messages b' = outbound_messages b @ new
     \<and> length new = length (missing (vc_map c) (gossip_log b)) \<and> (\<forall>x \<in> set new. target x = (len, take L (the to)))
     \<and> (\<forall>xs. list_all2 (arrives (output_buffer b')) new xs \<and> (\<forall>x \<in> set xs. dest_ok L (Some (sender x)) (sender_len x)) \<longrightarrow>
          (\<exists>a'. handle_packets (Some recording_receiver) a xs = Some a' \<and> gossip_inv L a'
             \<and> env_app (genv a') = env_app (genv a) @ map (snd \<circ> log_entry) (missing (vc_map c) (gossip_log b))
             \<and> (\<forall>m s p. log_map (gossip_log b) m = Some (s, p) \<longrightarrow>
                  (\<exists>t. vc_map (data_version a') m = Some t \<and> s \<le> t))))"
proof -
  let ?rs = "missing (vc_map c) (gossip_log b)"
  have l: "log_inv (gossip_log b)" using b(1) by (simp add: gossip_inv_def)
  obtain b' new where b': "gossip_enqueue_data_log b c to len = Some (0, b')" "gossip_inv L b'"
    "outbound_messages b' = outbound_messages b @ new" "list_all2 (queued_for (output_buffer b') (len, take L (the to))) ?rs new"
    using gossip_enqueue_data_log_exact [OF b(1-3) fits room] by blast
  have "\<forall>r \<in> set ?rs. data_valid (gossip_data_log_create_message r)"
    using log_message_valid(1) [OF l] by (auto simp: missing_def in_set_conv_nth)
  then have sendable: "\<forall>r \<in> set ?rs. log_record_sendable r" using fits by (simp add: log_record_sendable_def)
  have bounds: "\<forall>x \<in> set new. env_buffer x + env_buffer_size x \<le> length (output_buffer b')"
    using envelope_in_bounds [OF b'(2)] b'(3) by simp
  have "\<exists>a'. handle_packets (Some recording_receiver) a xs = Some a' \<and> gossip_inv L a'
       \<and> env_app (genv a') = env_app (genv a) @ map (snd \<circ> log_entry) ?rs
       \<and> (\<forall>m s p. log_map (gossip_log b) m = Some (s, p) \<longrightarrow> (\<exists>t. vc_map (data_version a') m = Some t \<and> s \<le> t))"
    if xs: "list_all2 (arrives (output_buffer b')) new xs" "\<forall>x \<in> set xs. dest_ok L (Some (sender x)) (sender_len x)" for xs
  proof -
    obtain ms where ms: "list_all2 data_packet xs ms" "map data_record ms = map log_version ?rs"
      "map payload ms = map (snd \<circ> log_entry) ?rs"
      using queued_arrive [OF b'(4) xs(1) sendable bounds] by blast
    from missing_delivered [OF a l card ms(1) xs(2)] show ?thesis using ms(2,3) b(4) by simp
  qed
  moreover have "length new = length ?rs" "\<forall>x \<in> set new. target x = (len, take L (the to))"
    using b'(4) by (auto simp: list_all2_conv_all_nth in_set_conv_nth queued_for_def)
  ultimately show ?thesis using b'(1-3) by blast
qed

theorem anti_entropy_converges_witness:
  "\<exists>b' new. gossip_enqueue_data_log ex_ahead (ex_clock [(1, 5)]) (Some ex_addr) 16 = Some (0, b') \<and> gossip_inv 16 b'
     \<and> outbound_messages b' = outbound_messages ex_ahead @ new
     \<and> length new = length (missing (vc_map (ex_clock [(1, 5)])) (gossip_log ex_ahead))
     \<and> (\<forall>x \<in> set new. target x = (16, take 16 (the (Some ex_addr))))
     \<and> (\<forall>xs. list_all2 (arrives (output_buffer b')) new xs \<and> (\<forall>x \<in> set xs. dest_ok 16 (Some (sender x)) (sender_len x)) \<longrightarrow>
          (\<exists>a'. handle_packets (Some recording_receiver) ex_node xs = Some a' \<and> gossip_inv 16 a'
             \<and> env_app (genv a') = env_app (genv ex_node)
                 @ map (snd \<circ> log_entry) (missing (vc_map (ex_clock [(1, 5)])) (gossip_log ex_ahead))
             \<and> (\<forall>m s p. log_map (gossip_log ex_ahead) m = Some (s, p) \<longrightarrow>
                  (\<exists>t. vc_map (data_version a') m = Some t \<and> s \<le> t))))"
proof (rule anti_entropy_converges)
  show "\<forall>r \<in> set (missing (vc_map (ex_clock [(1, 5)])) (gossip_log ex_ahead)). 26 + unat (log_data_size r) \<le> MESSAGE_MAX_SIZE"
    "length (outbound_messages ex_ahead) + length (missing (vc_map (ex_clock [(1, 5)])) (gossip_log ex_ahead)) \<le> MAX_OUTPUT_MESSAGES"
    by (simp_all add: missing_def ex_ahead_def ex_logged_def ex_node_def)
  show "card (dom (vc_map (data_version ex_node)) \<union> dom (log_map (gossip_log ex_ahead))) \<le> MAX_VECTOR_SIZE"
    by (simp add: ex_node_def log_map_dom table_map_def ex_ahead_def ex_logged_def log_key_def)
  show "vc_map (ex_clock [(1, 5)]) = vc_map (data_version ex_node)" "state ex_node = STATE_CONNECTED"
    "ms_size (members ex_node) + 2 ^ 16 < 3 * 2 ^ 29" by (simp_all add: ex_node_def)
qed simp_all

end
