(* ===== verification/Pt_Queue_Loops.thy ===== *)
theory Pt_Queue_Loops
  imports Pt_Sync
begin

text \<open>
  The loops of \<^verbatim>\<open>gossip.c\<close> that walk the outbound queue while they remove envelopes from it, on the linked
  list itself: the search for an output buffer, which frees the envelopes of the region it takes, and
  the round of sending, which saves the next pointer, frees envelopes in front of and at its position
  and updates envelopes in place. The lemmas show that on a well-formed list they never follow a freed
  pointer, end, and do what the definitions on lists of envelopes do, which the other theories use.
\<close>

section \<open>The loops\<close>

text \<open>The search: the first loop of \<^verbatim>\<open>gossip_find_available_output_buffer\<close>, then the one that removes.\<close>

partial_function (option) scan_heap ::
  "heap \<Rightarrow> ptr option \<Rightarrow> ptr option \<Rightarrow> bool list \<Rightarrow> (ptr option \<times> bool list) option" where
  "scan_heap h cur oldest occupied = (case cur of
       None \<Rightarrow> Some (oldest, occupied)
     | Some p \<Rightarrow> do {
         n \<leftarrow> h p;
         older \<leftarrow> (case oldest of
             None \<Rightarrow> Some True
           | Some o_ptr \<Rightarrow> do { m \<leftarrow> h o_ptr; Some (attempt_num (node_envelope n) > attempt_num (node_envelope m)) });
         occupied \<leftarrow> arr_set occupied (env_buffer (node_envelope n) div MESSAGE_MAX_SIZE) True;
         scan_heap h (next_ptr n) (if older then Some p else oldest) occupied
       })"

partial_function (option) evict_heap ::
  "heap \<Rightarrow> message_queue \<Rightarrow> ptr option \<Rightarrow> nat \<Rightarrow> (heap \<times> message_queue) option" where
  "evict_heap h q cur chosen_buffer = (case cur of
       None \<Rightarrow> Some (h, q)
     | Some p \<Rightarrow> do {
         n \<leftarrow> h p;
         if env_buffer (node_envelope n) = chosen_buffer then do {
           (h, q) \<leftarrow> gossip_envelope_remove h q p;
           evict_heap h q (next_ptr n) chosen_buffer
         }
         else Some (h, q)
       })"

definition find_buffer_heap :: "heap \<Rightarrow> message_queue \<Rightarrow> (nat \<times> heap \<times> message_queue) option" where
  "find_buffer_heap h q = do {
     (oldest, occupied) \<leftarrow> scan_heap h (head q) None (replicate MAX_OUTPUT_MESSAGES False);
     free \<leftarrow> find_loop 0 MAX_OUTPUT_MESSAGES (\<lambda>i. do { b \<leftarrow> arr_get occupied i; Some (\<not> b) });
     case free of
       Some i \<Rightarrow> Some (i * MESSAGE_MAX_SIZE, h, q)
     | None \<Rightarrow> do {
         p \<leftarrow> oldest;
         n \<leftarrow> h p;
         let chosen_buffer = env_buffer (node_envelope n);
         (h, q) \<leftarrow> evict_heap h q oldest chosen_buffer;
         Some (chosen_buffer, h, q)
       }
   }"

text \<open>The round of sending: the inner loop, then the loop of \<^verbatim>\<open>pittacus_gossip_process_send\<close>.\<close>

partial_function (option) drop_heap ::
  "heap \<Rightarrow> message_queue \<Rightarrow> ptr option \<Rightarrow> envelope \<Rightarrow> (ptr option \<times> heap \<times> message_queue) option" where
  "drop_heap h q cur current = (case cur of
       None \<Rightarrow> Some (None, h, q)
     | Some p \<Rightarrow> do {
         n \<leftarrow> h p;
         same \<leftarrow> memcmp_eq (Some (recipient (node_envelope n))) (Some (recipient current))
                   (unat (recipient_len (node_envelope n)));
         if same then do {
           hq \<leftarrow> gossip_envelope_remove h q p;
           drop_heap (fst hq) (snd hq) (next_ptr n) current
         }
         else Some (Some p, h, q)
       })"

definition set_envelope :: "heap \<Rightarrow> ptr \<Rightarrow> envelope \<Rightarrow> heap option" where
  "set_envelope h p x = do { n \<leftarrow> h p; Some (h(p \<mapsto> n\<lparr>node_envelope := x\<rparr>)) }"

text \<open>
  The variables of the loop. The body either returns from the function (\<open>Inl\<close>) or goes on with the
  next envelope.
\<close>

record send_loop =
  loop_self :: pittacus_gossip
  loop_heap :: heap
  loop_queue :: message_queue
  loop_sent :: int
  loop_head :: "ptr option"

definition send_step :: "send_loop \<Rightarrow> ptr \<Rightarrow> (int \<times> send_loop + send_loop) option" where
  "send_step l p = do {
     let self = loop_self l;
     let h = loop_heap l;
     let q = loop_queue l;
     n \<leftarrow> h p;
     let current = node_envelope n;
     let head_ptr = next_ptr n;
     if attempt_num current \<ge> max_attempts current
     then (if max_attempts current > 1
           then do {
             (_, ms) \<leftarrow> cluster_member_set_remove_by_addr (members self) (recipient current)
                          (unat (recipient_len current));
             (next_env, h, q) \<leftarrow> drop_heap h q (next_ptr n) current;
             (h, q) \<leftarrow> gossip_envelope_remove h q p;
             Some (Inr (l\<lparr>loop_self := self\<lparr>members := ms\<rparr>, loop_heap := h, loop_queue := q, loop_head := next_env\<rparr>))
           }
           else do {
             (h, q) \<leftarrow> gossip_envelope_remove h q p;
             Some (Inr (l\<lparr>loop_heap := h, loop_queue := q, loop_head := head_ptr\<rparr>))
           })
     else let (current_ts, e) = pt_time (genv self); self = self\<lparr>genv := e\<rparr>
          in if attempt_num current \<noteq> 0 \<and> attempt_ts current + MESSAGE_RETRY_INTERVAL > current_ts
             then Some (Inr (l\<lparr>loop_self := self, loop_head := head_ptr\<rparr>))
             else do {
               let offset = sizeof_message_header - 4;
               out \<leftarrow> mem_write (output_buffer self) (env_buffer current + offset)
                        (mem_of_word (PT_HTONL (sequence_num current)));
               let self = self\<lparr>output_buffer := out\<rparr>;
               bytes \<leftarrow> mem_read (output_buffer self) (env_buffer current) (env_buffer_size current);
               let (write_result, e) = pt_send_to (genv self) bytes (recipient current);
               let self = self\<lparr>genv := e\<rparr>;
               if write_result < 0 then Some (Inl (err_code PITTACUS_ERR_WRITE_FAILED, l\<lparr>loop_self := self\<rparr>))
               else do {
                 let current = current\<lparr>attempt_ts := current_ts, attempt_num := attempt_num current + 1\<rparr>;
                 h \<leftarrow> set_envelope h p current;
                 (h, q) \<leftarrow> (if max_attempts current \<le> 1 then gossip_envelope_remove h q p else Some (h, q));
                 Some (Inr (l\<lparr>loop_self := self, loop_heap := h, loop_queue := q, loop_sent := loop_sent l + 1,
                              loop_head := head_ptr\<rparr>))
               }
             }
   }"

partial_function (option) process_send_heap :: "send_loop \<Rightarrow> (int \<times> send_loop) option" where
  "process_send_heap l = (case loop_head l of
       None \<Rightarrow> Some (loop_sent l, l)
     | Some p \<Rightarrow> do {
         r \<leftarrow> send_step l p;
         case r of Inl result \<Rightarrow> Some result | Inr l \<Rightarrow> process_send_heap l
       })"

section \<open>Positions in the list\<close>

fun ptr_of :: "(ptr \<times> envelope) list \<Rightarrow> ptr option" where
  "ptr_of [] = None"
| "ptr_of ((p, x) # xs) = Some p"

lemma ptr_of_hd: "ptr_of xs = (if map fst xs = [] then None else Some (hd (map fst xs)))"
  by (cases xs rule: ptr_of.cases) auto

lemma queue_rep_head: "queue_rep h q xs \<Longrightarrow> head q = ptr_of xs"
  using dseg_first by (fastforce simp: queue_rep_def ptr_of_hd)

lemma queue_rep_at:
  assumes "queue_rep h q (xs @ (p, x) # ys)"
  shows "\<exists>n. h p = Some n \<and> node_envelope n = x \<and> next_ptr n = ptr_of ys"
proof -
  obtain n where n: "h p = Some n" "dseg h (Some p) (next_ptr n) (map fst ys) (tail q) None"
    using assms by (auto simp: queue_rep_def dseg_append)
  moreover have "node_envelope n = x" using queue_rep_node [OF assms, of p x] n(1) by simp
  moreover have "next_ptr n = ptr_of ys" using dseg_first [OF n(2)] by (simp add: ptr_of_hd)
  ultimately show ?thesis by blast
qed

lemma set_envelope_rep:
  assumes "queue_rep h q (xs @ (p, x) # ys)"
  shows "\<exists>h'. set_envelope h p y = Some h' \<and> queue_rep h' q (xs @ (p, y) # ys)"
proof -
  obtain n where n: "h p = Some n" using queue_rep_at [OF assms] by blast
  let ?h = "h(p \<mapsto> n\<lparr>node_envelope := y\<rparr>)"
  have d: "distinct (map fst (xs @ (p, x) # ys))" and p: "p \<notin> set (map fst xs)" "p \<notin> set (map fst ys)"
    using assms by (auto simp: queue_rep_def)
  have "dseg ?h None (head q) (map fst (xs @ (p, y) # ys)) (tail q) None"
    using assms p n by (auto simp: queue_rep_def dseg_append dseg_frame simp del: set_map)
  moreover have "\<forall>(a, z) \<in> set (xs @ (p, y) # ys). \<exists>m. ?h a = Some m \<and> node_envelope m = z"
    using assms p by (auto simp: queue_rep_def image_iff split: prod.splits)
  ultimately have "queue_rep ?h q (xs @ (p, y) # ys)" using d by (simp add: queue_rep_def)
  then show ?thesis using n by (simp add: set_envelope_def)
qed

section \<open>The search for a buffer\<close>

lemma evict_heap_rep:
  assumes "queue_rep h q (xs @ ys)"
  shows "\<exists>h' q' zs. evict_heap h q (ptr_of ys) b = Some (h', q') \<and> queue_rep h' q' (xs @ zs)
     \<and> zs = dropWhile (\<lambda>(p, x). env_buffer x = b) ys"
  using assms
proof (induction ys arbitrary: h q)
  case Nil
  then show ?case by (simp add: evict_heap.simps)
next
  case (Cons py ys)
  obtain p y where py: "py = (p, y)" by (cases py)
  obtain n where n: "h p = Some n" "node_envelope n = y" "next_ptr n = ptr_of ys"
    using queue_rep_at Cons.prems unfolding py by blast
  show ?case
  proof (cases "env_buffer y = b")
    case True
    obtain h1 q1 where r: "gossip_envelope_remove h q p = Some (h1, q1)" "queue_rep h1 q1 (xs @ ys)"
      using remove_rep Cons.prems unfolding py by blast
    show ?thesis using Cons.IH [OF r(2)] r(1) n True py by (simp add: evict_heap.simps)
  next
    case False
    then show ?thesis using Cons.prems n py by (simp add: evict_heap.simps)
  qed
qed

text \<open>The pointer kept as the oldest envelope and its position in the list.\<close>

definition oldest_at :: "(ptr \<times> envelope) list \<Rightarrow> ptr option \<Rightarrow> (nat \<times> envelope) option \<Rightarrow> bool" where
  "oldest_at xs o_ptr oldest \<longleftrightarrow> (case oldest of None \<Rightarrow> o_ptr = None
     | Some (j, y) \<Rightarrow> j < length xs \<and> (\<exists>p. o_ptr = Some p \<and> xs ! j = (p, y)))"

lemma scan_heap_rep:
  assumes "queue_rep h q (xs @ ys)" "oldest_at xs o_ptr oldest"
    "scan_outbound (map snd ys) (length xs) oldest occ = Some (oldest', occ')"
  shows "\<exists>o_ptr'. scan_heap h (ptr_of ys) o_ptr occ = Some (o_ptr', occ') \<and> oldest_at (xs @ ys) o_ptr' oldest'"
  using assms
proof (induction ys arbitrary: xs o_ptr oldest occ)
  case Nil
  then show ?case by (simp add: scan_heap.simps)
next
  case (Cons py ys)
  obtain p y where py: "py = (p, y)" by (cases py)
  obtain n where n: "h p = Some n" "node_envelope n = y" "next_ptr n = ptr_of ys"
    using queue_rep_at Cons.prems(1) unfolding py by blast
  let ?older = "case oldest of None \<Rightarrow> True | Some (j, z) \<Rightarrow> attempt_num y > attempt_num z"
  have older: "(case o_ptr of None \<Rightarrow> Some True | Some a \<Rightarrow> do { m \<leftarrow> h a; Some (attempt_num y > attempt_num (node_envelope m)) })
      = Some ?older"
  proof (cases oldest)
    case (Some jz)
    obtain j z where jz: "jz = (j, z)" by (cases jz)
    then obtain a where a: "o_ptr = Some a" "j < length xs" "xs ! j = (a, z)" using Cons.prems(2) Some by (auto simp: oldest_at_def)
    then have "(a, z) \<in> set (xs @ py # ys)" by (metis UnI1 nth_mem set_append)
    from queue_rep_node [OF Cons.prems(1) this] show ?thesis using Some jz a by auto
  qed (use Cons.prems(2) in \<open>simp add: oldest_at_def\<close>)
  let ?oldest = "case oldest of None \<Rightarrow> Some (length xs, y)
     | Some (j, z) \<Rightarrow> if attempt_num y > attempt_num z then Some (length xs, y) else oldest"
  obtain occ1 where occ1: "arr_set occ (env_buffer y div MESSAGE_MAX_SIZE) True = Some occ1"
    "scan_outbound (map snd ys) (length (xs @ [py])) ?oldest occ1 = Some (oldest', occ')"
    using Cons.prems(3) py by (auto simp: Let_def split: Option.bind_splits)
  have "oldest_at (xs @ [py]) (if ?older then Some p else o_ptr) ?oldest"
    using Cons.prems(2) py by (auto simp: oldest_at_def nth_append split: option.splits prod.splits)
  from Cons.IH [OF _ this occ1(2)] Cons.prems(1) obtain o_ptr' where
    "scan_heap h (ptr_of ys) (if ?older then Some p else o_ptr) occ1 = Some (o_ptr', occ')"
    "oldest_at (xs @ py # ys) o_ptr' oldest'" by auto
  moreover have "scan_heap h (Some p) o_ptr occ = scan_heap h (ptr_of ys) (if ?older then Some p else o_ptr) occ1"
    using older occ1(1) n(1,3) unfolding n(2) [symmetric] by (simp only: scan_heap.simps [of h "Some p"] option.case bind.bind_lunit)
  ultimately show ?case using py by simp
qed

lemma map_snd_dropWhile: "map snd (dropWhile (\<lambda>(p, x). P x) ys) = dropWhile P (map snd ys)"
  by (simp add: dropWhile_map comp_def case_prod_unfold)

lemma find_buffer_heap_rep:
  assumes rep: "queue_rep h q xs" and list: "outbound_messages g = map snd xs"
    and res: "gossip_find_available_output_buffer g = Some (off, g')"
  shows "\<exists>h' q' ys. find_buffer_heap h q = Some (off, h', q') \<and> queue_rep h' q' ys
     \<and> map snd ys = outbound_messages g' \<and> set ys \<subseteq> set xs"
proof -
  let ?occ = "replicate MAX_OUTPUT_MESSAGES False"
  obtain oldest occ where scan: "scan_outbound (map snd xs) 0 None ?occ = Some (oldest, occ)"
    using res list by (auto simp: gossip_find_available_output_buffer_def split: Option.bind_splits)
  obtain free where free: "find_loop 0 MAX_OUTPUT_MESSAGES (\<lambda>i. do { b \<leftarrow> arr_get occ i; Some (\<not> b) }) = Some free"
    using res list scan by (auto simp: gossip_find_available_output_buffer_def split: Option.bind_splits)
  obtain o_ptr where o: "scan_heap h (head q) None ?occ = Some (o_ptr, occ)" "oldest_at xs o_ptr oldest"
    using scan_heap_rep [of h q "[]" xs None None ?occ oldest occ] rep scan queue_rep_head [OF rep]
    by (auto simp: oldest_at_def)
  show ?thesis
  proof (cases free)
    case (Some i)
    then show ?thesis
      using res list scan free o(1) rep by (auto simp: gossip_find_available_output_buffer_def find_buffer_heap_def)
  next
    case None
    then obtain j y where jy: "oldest = Some (j, y)" "off = env_buffer y" "g' = g\<lparr>outbound_messages :=
        take j (map snd xs) @ dropWhile (\<lambda>x. env_buffer x = off) (drop j (map snd xs))\<rparr>"
      using res list scan free by (auto simp: gossip_find_available_output_buffer_def Let_def split: Option.bind_splits)
    then obtain p where p: "o_ptr = Some p" "j < length xs" "xs ! j = (p, y)" using o(2) by (auto simp: oldest_at_def)
    have split: "xs = take j xs @ (p, y) # drop (Suc j) xs" using p(2,3) id_take_nth_drop by metis
    have at: "ptr_of (drop j xs) = Some p" "drop j xs = (p, y) # drop (Suc j) xs"
      using p(2,3) by (simp_all add: Cons_nth_drop_Suc [symmetric])
    obtain n where n: "h p = Some n" "node_envelope n = y" using queue_rep_at rep split by metis
    let ?zs = "dropWhile (\<lambda>(p, x). env_buffer x = off) (drop j xs)"
    obtain h' q' where e: "evict_heap h q (Some p) off = Some (h', q')" "queue_rep h' q' (take j xs @ ?zs)"
      using evict_heap_rep [of h q "take j xs" "drop j xs" off] rep unfolding at(1) append_take_drop_id by blast
    have "find_buffer_heap h q = Some (off, h', q')"
      using o(1) free None p(1) n e(1) jy(2) by (simp add: find_buffer_heap_def Let_def)
    moreover have "map snd (take j xs @ ?zs) = outbound_messages g'"
      using jy(3) by (simp add: map_snd_dropWhile take_map drop_map)
    moreover have "set (take j xs @ ?zs) \<subseteq> set xs" by (auto dest: in_set_takeD in_set_dropD set_dropWhileD)
    ultimately show ?thesis using e(2) by blast
  qed
qed

section \<open>The round of sending\<close>

lemma drop_heap_rep:
  assumes "queue_rep h q (xs @ ys)" "drop_same_recipient c (map snd ys) = Some zs"
  shows "\<exists>h' q' ys'. drop_heap h q (ptr_of ys) c = Some (ptr_of ys', h', q') \<and> queue_rep h' q' (xs @ ys')
     \<and> map snd ys' = zs"
  using assms
proof (induction ys arbitrary: h q)
  case Nil
  then show ?case by (simp add: drop_heap.simps)
next
  case (Cons py ys)
  obtain p y where py: "py = (p, y)" by (cases py)
  obtain n where n: "h p = Some n" "node_envelope n = y" "next_ptr n = ptr_of ys"
    using queue_rep_at Cons.prems(1) unfolding py by blast
  obtain same where same: "memcmp_eq (Some (recipient y)) (Some (recipient c)) (unat (recipient_len y)) = Some same"
    "(if same then drop_same_recipient c (map snd ys) else Some (y # map snd ys)) = Some zs"
    using Cons.prems(2) py by (auto split: Option.bind_splits)
  show ?case
  proof (cases same)
    case True
    obtain h1 q1 where r: "gossip_envelope_remove h q p = Some (h1, q1)" "queue_rep h1 q1 (xs @ ys)"
      using remove_rep Cons.prems(1) unfolding py by blast
    show ?thesis
      using Cons.IH [OF r(2)] r(1) n same True py by (simp add: drop_heap.simps [of h q "Some p"])
  next
    case False
    then show ?thesis
      using Cons.prems(1) n same py by (intro exI [of _ h] exI [of _ q] exI [of _ "py # ys"])
        (simp add: drop_heap.simps [of h q "Some p"])
  qed
qed

text \<open>
  The loop over the list and the loop over the heap: the queue consists of the envelopes passed and
  left (\<open>ks\<close>) and those from the current position on (\<open>rs\<close>).
\<close>

definition loop_at :: "send_loop \<Rightarrow> (ptr \<times> envelope) list \<Rightarrow> (ptr \<times> envelope) list \<Rightarrow> bool" where
  "loop_at l ks rs \<longleftrightarrow> queue_rep (loop_heap l) (loop_queue l) (ks @ rs) \<and> loop_head l = ptr_of rs"

definition loop_done :: "pittacus_gossip \<Rightarrow> (int \<times> pittacus_gossip) option \<Rightarrow> (int \<times> send_loop) option \<Rightarrow> bool" where
  "loop_done g res heap_res \<longleftrightarrow> (\<forall>r g'. res = Some (r, g') \<longrightarrow> (\<exists>l xs. heap_res = Some (r, l)
     \<and> queue_rep (loop_heap l) (loop_queue l) xs \<and> map snd xs = outbound_messages g'
     \<and> loop_self l = g'\<lparr>outbound_messages := outbound_messages g\<rparr>))"

lemma loop_done_cong: "outbound_messages g1 = outbound_messages g2 \<Longrightarrow> loop_done g1 = loop_done g2"
  by (simp add: loop_done_def fun_eq_iff)

text \<open>One envelope: the body of the loop does what the list loop does before it goes on.\<close>

lemma send_step_give_up:
  assumes "loop_at l ks ((p, c) # rs)" "attempt_num c \<ge> max_attempts c" "max_attempts c > 1"
    "cluster_member_set_remove_by_addr (members (loop_self l)) (recipient c) (unat (recipient_len c)) = Some (b, ms)"
    "drop_same_recipient c (map snd rs) = Some zs"
  shows "\<exists>l' rs'. send_step l p = Some (Inr l') \<and> loop_at l' ks rs' \<and> map snd rs' = zs
     \<and> loop_self l' = (loop_self l)\<lparr>members := ms\<rparr> \<and> loop_sent l' = loop_sent l"
proof -
  have rep: "queue_rep (loop_heap l) (loop_queue l) (ks @ (p, c) # rs)" using assms(1) by (simp add: loop_at_def)
  obtain n where n: "loop_heap l p = Some n" "node_envelope n = c" "next_ptr n = ptr_of rs"
    using queue_rep_at [OF rep] by blast
  obtain h1 q1 rs' where d: "drop_heap (loop_heap l) (loop_queue l) (ptr_of rs) c = Some (ptr_of rs', h1, q1)"
    "queue_rep h1 q1 ((ks @ [(p, c)]) @ rs')" "map snd rs' = zs"
    using drop_heap_rep [of "loop_heap l" "loop_queue l" "ks @ [(p, c)]" rs c zs] rep assms(5) by auto
  obtain h2 q2 where r: "gossip_envelope_remove h1 q1 p = Some (h2, q2)" "queue_rep h2 q2 (ks @ rs')"
    using remove_rep [of h1 q1 ks p c rs'] d(2) by auto
  show ?thesis
    using n d r assms(2-4) by (auto simp: send_step_def Let_def loop_at_def intro!: exI [of _ rs'])
qed

lemma send_step_single:
  assumes "loop_at l ks ((p, c) # rs)" "attempt_num c \<ge> max_attempts c" "\<not> max_attempts c > 1"
  shows "\<exists>l'. send_step l p = Some (Inr l') \<and> loop_at l' ks rs \<and> loop_self l' = loop_self l \<and> loop_sent l' = loop_sent l"
proof -
  have rep: "queue_rep (loop_heap l) (loop_queue l) (ks @ (p, c) # rs)" using assms(1) by (simp add: loop_at_def)
  obtain n where n: "loop_heap l p = Some n" "node_envelope n = c" "next_ptr n = ptr_of rs"
    using queue_rep_at [OF rep] by blast
  obtain h2 q2 where r: "gossip_envelope_remove (loop_heap l) (loop_queue l) p = Some (h2, q2)" "queue_rep h2 q2 (ks @ rs)"
    using remove_rep [OF rep] by blast
  show ?thesis using n r assms(2,3) by (auto simp: send_step_def Let_def loop_at_def)
qed

lemma send_step_wait:
  assumes "loop_at l ks ((p, c) # rs)" "\<not> attempt_num c \<ge> max_attempts c" "pt_time (genv (loop_self l)) = (now, e)"
    "attempt_num c \<noteq> 0 \<and> attempt_ts c + MESSAGE_RETRY_INTERVAL > now"
  shows "\<exists>l'. send_step l p = Some (Inr l') \<and> loop_at l' (ks @ [(p, c)]) rs
     \<and> loop_self l' = (loop_self l)\<lparr>genv := e\<rparr> \<and> loop_sent l' = loop_sent l"
proof -
  have rep: "queue_rep (loop_heap l) (loop_queue l) (ks @ (p, c) # rs)" using assms(1) by (simp add: loop_at_def)
  obtain n where n: "loop_heap l p = Some n" "node_envelope n = c" "next_ptr n = ptr_of rs"
    using queue_rep_at [OF rep] by blast
  show ?thesis using n rep assms(2-4) by (auto simp: send_step_def Let_def loop_at_def)
qed

lemma send_step_send:
  assumes at: "loop_at l ks ((p, c) # rs)" and again: "\<not> attempt_num c \<ge> max_attempts c"
    and time: "pt_time (genv (loop_self l)) = (now, e)"
    and due: "\<not> (attempt_num c \<noteq> 0 \<and> attempt_ts c + MESSAGE_RETRY_INTERVAL > now)"
    and wire: "mem_write (output_buffer (loop_self l)) (env_buffer c + (sizeof_message_header - 4))
        (mem_of_word (PT_HTONL (sequence_num c))) = Some out"
      "mem_read out (env_buffer c) (env_buffer_size c) = Some bytes" "pt_send_to e bytes (recipient c) = (w, e')"
  defines "self' \<equiv> (loop_self l)\<lparr>output_buffer := out, genv := e'\<rparr>"
    and "c' \<equiv> c\<lparr>attempt_ts := now, attempt_num := attempt_num c + 1\<rparr>"
  shows "w < 0 \<Longrightarrow> send_step l p = Some (Inl (err_code PITTACUS_ERR_WRITE_FAILED, l\<lparr>loop_self := self'\<rparr>))"
    and "\<not> w < 0 \<Longrightarrow> \<exists>l'. send_step l p = Some (Inr l')
      \<and> loop_at l' (ks @ (if max_attempts c \<le> 1 then [] else [(p, c')])) rs
      \<and> loop_self l' = self' \<and> loop_sent l' = loop_sent l + 1"
proof -
  have rep: "queue_rep (loop_heap l) (loop_queue l) (ks @ (p, c) # rs)" using at by (simp add: loop_at_def)
  obtain n where n: "loop_heap l p = Some n" "node_envelope n = c" "next_ptr n = ptr_of rs"
    using queue_rep_at [OF rep] by blast
  note step = send_step_def Let_def n again time
  show "w < 0 \<Longrightarrow> send_step l p = Some (Inl (err_code PITTACUS_ERR_WRITE_FAILED, l\<lparr>loop_self := self'\<rparr>))"
    using due wire by (auto simp: step self'_def)
  obtain h1 where h1: "set_envelope (loop_heap l) p c' = Some h1" "queue_rep h1 (loop_queue l) (ks @ (p, c') # rs)"
    using set_envelope_rep [OF rep] by blast
  obtain h2 q2 where h2: "gossip_envelope_remove h1 (loop_queue l) p = Some (h2, q2)" "queue_rep h2 q2 (ks @ rs)"
    using remove_rep [OF h1(2)] by blast
  assume "\<not> w < 0"
  then have "send_step l p = Some (Inr (if max_attempts c \<le> 1
      then l\<lparr>loop_self := self', loop_heap := h2, loop_queue := q2, loop_sent := loop_sent l + 1, loop_head := ptr_of rs\<rparr>
      else l\<lparr>loop_self := self', loop_heap := h1, loop_sent := loop_sent l + 1, loop_head := ptr_of rs\<rparr>))"
    using due wire h1(1) h2(1) by (auto simp: step self'_def c'_def)
  then show "\<exists>l'. send_step l p = Some (Inr l')
      \<and> loop_at l' (ks @ (if max_attempts c \<le> 1 then [] else [(p, c')])) rs
      \<and> loop_self l' = self' \<and> loop_sent l' = loop_sent l + 1"
    using h1(2) h2(2) by (auto simp: loop_at_def)
qed

lemma process_send_heap_step:
  "loop_head l = Some p \<Longrightarrow> send_step l p = Some (Inr l') \<Longrightarrow> process_send_heap l = process_send_heap l'"
  "loop_head l = Some p \<Longrightarrow> send_step l p = Some (Inl r) \<Longrightarrow> process_send_heap l = Some r"
  by (simp_all add: process_send_heap.simps [of l])

text \<open>One step of the heap loop matches what the list loop computes from the same position.\<close>

definition simulated :: "send_loop \<Rightarrow> ptr \<Rightarrow> nat \<Rightarrow> (int \<times> pittacus_gossip) option \<Rightarrow> bool" where
  "simulated l p k res \<longleftrightarrow>
     (\<exists>result. send_step l p = Some (Inl result) \<and> loop_done (loop_self l) res (Some result))
     \<or> (\<exists>l' ks rs. send_step l p = Some (Inr l') \<and> loop_at l' ks rs \<and> length rs \<le> k
          \<and> outbound_messages (loop_self l') = outbound_messages (loop_self l)
          \<and> res = process_send_loop (loop_self l') (loop_sent l') (map snd ks) (map snd rs))"

lemma simulate_expired:
  assumes at: "loop_at l ks ((p, c) # rs)" and give_up: "attempt_num c \<ge> max_attempts c"
    and res: "process_send_loop (loop_self l) (loop_sent l) (map snd ks) (c # map snd rs) = Some rg"
  shows "simulated l p (length rs) (process_send_loop (loop_self l) (loop_sent l) (map snd ks) (c # map snd rs))"
proof (cases "max_attempts c > 1")
  case True
  let ?g = "loop_self l" and ?n = "loop_sent l"
  obtain b ms zs where d: "cluster_member_set_remove_by_addr (members ?g) (recipient c) (unat (recipient_len c)) = Some (b, ms)"
    "drop_same_recipient c (map snd rs) = Some zs"
    "process_send_loop ?g ?n (map snd ks) (c # map snd rs) = process_send_loop (?g\<lparr>members := ms\<rparr>) ?n (map snd ks) zs"
    using res give_up True unfolding process_send_loop.simps by (auto split: Option.bind_splits)
  obtain l' rs2 where l': "send_step l p = Some (Inr l')" "loop_at l' ks rs2" "map snd rs2 = zs"
    "loop_self l' = ?g\<lparr>members := ms\<rparr>" "loop_sent l' = ?n"
    using send_step_give_up [OF at give_up True d(1,2)] by blast
  have "length rs2 \<le> length rs" using drop_same_recipient_length [OF d(2)] l'(3) by (metis length_map)
  then show ?thesis using l' d(3) by (auto simp: simulated_def)
next
  case False
  obtain l' where l': "send_step l p = Some (Inr l')" "loop_at l' ks rs"
    "loop_self l' = loop_self l" "loop_sent l' = loop_sent l"
    using send_step_single [OF at give_up False] by blast
  have "process_send_loop (loop_self l) (loop_sent l) (map snd ks) (c # map snd rs)
      = process_send_loop (loop_self l) (loop_sent l) (map snd ks) (map snd rs)"
    using give_up False by (simp add: process_send_loop.simps)
  with l' show ?thesis
    unfolding simulated_def by (intro disjI2 exI [of _ l'] exI [of _ ks] exI [of _ rs]) simp
qed

lemma simulate_attempt:
  assumes at: "loop_at l ks ((p, c) # rs)" and again: "\<not> attempt_num c \<ge> max_attempts c"
    and res: "process_send_loop (loop_self l) (loop_sent l) (map snd ks) (c # map snd rs) = Some rg"
  shows "simulated l p (length rs) (process_send_loop (loop_self l) (loop_sent l) (map snd ks) (c # map snd rs))"
proof -
  let ?g = "loop_self l" and ?n = "loop_sent l"
  let ?res = "process_send_loop ?g ?n (map snd ks) (c # map snd rs)"
  obtain now e where t: "pt_time (genv ?g) = (now, e)" by (cases "pt_time (genv ?g)")
  show ?thesis
  proof (cases "attempt_num c \<noteq> 0 \<and> attempt_ts c + MESSAGE_RETRY_INTERVAL > now")
    case True
    then have "?res = process_send_loop (?g\<lparr>genv := e\<rparr>) ?n (map snd (ks @ [(p, c)])) (map snd rs)"
      using again t by (simp add: process_send_loop.simps)
    then show ?thesis using send_step_wait [OF at again t True] by (fastforce simp: simulated_def)
  next
    case due: False
    obtain out bytes where o: "mem_write (output_buffer ?g) (env_buffer c + (sizeof_message_header - 4))
        (mem_of_word (PT_HTONL (sequence_num c))) = Some out" "mem_read out (env_buffer c) (env_buffer_size c) = Some bytes"
      using res again t due unfolding process_send_loop.simps by (auto simp: Let_def split: Option.bind_splits)
    obtain w e' where w: "pt_send_to e bytes (recipient c) = (w, e')" by (cases "pt_send_to e bytes (recipient c)")
    note step = send_step_send [OF at again t due o w]
    note list = process_send_loop.simps(2) [of ?g ?n "map snd ks" c "map snd rs"]
    let ?self = "?g\<lparr>output_buffer := out, genv := e'\<rparr>"
    let ?ys = "if max_attempts c \<le> 1 then [] else [(p, c\<lparr>attempt_ts := now, attempt_num := attempt_num c + 1\<rparr>)]"
    show ?thesis
    proof (cases "w < 0")
      case True
      have "?res = Some (err_code PITTACUS_ERR_WRITE_FAILED, ?self\<lparr>outbound_messages := map snd ks @ c # map snd rs\<rparr>)"
        using again t due o w True unfolding list by (auto simp: Let_def)
      then have "loop_done ?g ?res (Some (err_code PITTACUS_ERR_WRITE_FAILED, l\<lparr>loop_self := ?self\<rparr>))"
        using at by (auto simp: loop_done_def loop_at_def intro!: exI [of _ "ks @ (p, c) # rs"])
      then show ?thesis using step(1) [OF True] by (simp add: simulated_def)
    next
      case False
      have "?res = process_send_loop ?self (?n + 1) (map snd (ks @ ?ys)) (map snd rs)"
        using again t due o w False unfolding list by (auto simp: Let_def)
      then show ?thesis using step(2) [OF False] unfolding simulated_def by fastforce
    qed
  qed
qed

lemma process_send_heap_refines:
  assumes "loop_at l ks rs"
  shows "loop_done (loop_self l) (process_send_loop (loop_self l) (loop_sent l) (map snd ks) (map snd rs)) (process_send_heap l)"
  using assms
proof (induction "length rs" arbitrary: l ks rs rule: less_induct)
  case less
  let ?res = "process_send_loop (loop_self l) (loop_sent l) (map snd ks) (map snd rs)"
  show ?case
  proof (cases rs)
    case Nil
    then have "process_send_heap l = Some (loop_sent l, l)" "queue_rep (loop_heap l) (loop_queue l) ks"
      using less.prems by (simp_all add: process_send_heap.simps [of l] loop_at_def)
    then show ?thesis unfolding Nil by (auto simp: loop_done_def process_send_loop.simps)
  next
    case (Cons pc rs')
    obtain p c where pc: "pc = (p, c)" by (cases pc)
    note at = less.prems [unfolded Cons pc]
    have hd: "loop_head l = Some p" using at by (simp add: loop_at_def)
    show ?thesis
    proof (cases ?res)
      case (Some rg)
      then have "simulated l p (length rs') ?res"
        using simulate_expired [OF at] simulate_attempt [OF at] Cons pc by (cases "attempt_num c \<ge> max_attempts c") auto
      then consider result where "send_step l p = Some (Inl result)" "loop_done (loop_self l) ?res (Some result)"
        | l' ks' rs2 where "send_step l p = Some (Inr l')" "loop_at l' ks' rs2" "length rs2 \<le> length rs'"
          "outbound_messages (loop_self l') = outbound_messages (loop_self l)"
          "?res = process_send_loop (loop_self l') (loop_sent l') (map snd ks') (map snd rs2)"
        unfolding simulated_def by blast
      then show ?thesis
      proof cases
        case (1 result)
        then show ?thesis using process_send_heap_step(2) [OF hd] by simp
      next
        case (2 l' ks' rs2)
        then show ?thesis
          using less.hyps [OF _ 2(2)] Cons process_send_heap_step(1) [OF hd 2(1)] loop_done_cong [OF 2(4)] by simp
      qed
    qed (simp add: loop_done_def)
  qed
qed

section \<open>Properties\<close>

text \<open>C17. The search for an output buffer, on the linked list: if the list is well-formed and holds the
  node's queue, the search ends, never follows a freed pointer, chooses the buffer that the search on
  the list of envelopes chooses and leaves a well-formed list of the envelopes that one leaves.\<close>

theorem heap_buffer_search_refines:
  assumes "gossip_inv L g" "queue_rep h q xs" "outbound_messages g = map snd xs"
  shows "\<exists>off g' h' q' ys. gossip_find_available_output_buffer g = Some (off, g')
     \<and> find_buffer_heap h q = Some (off, h', q') \<and> queue_rep h' q' ys
     \<and> map snd ys = outbound_messages g' \<and> set ys \<subseteq> set xs"
proof -
  have "\<forall>x \<in> set (outbound_messages g). region_ok (env_buffer x)"
    using assms(1) by (auto simp: gossip_inv_def envelope_ok_def)
  then obtain off g' where "gossip_find_available_output_buffer g = Some (off, g')"
    using gossip_find_available_output_buffer_ok by blast
  then show ?thesis using find_buffer_heap_rep [OF assms(2,3)] by blast
qed

theorem heap_buffer_search_refines_witness:
  "\<exists>off g' h' q' ys. gossip_find_available_output_buffer (ex_node\<lparr>outbound_messages := map ex_envelope [7, 8]\<rparr>) = Some (off, g')
     \<and> find_buffer_heap ex_heap ex_queue = Some (off, h', q') \<and> queue_rep h' q' ys
     \<and> map snd ys = outbound_messages g' \<and> set ys \<subseteq> set [(1, ex_envelope 7), (2, ex_envelope 8)]"
  by (rule heap_buffer_search_refines [OF ex_queue_inv ex_queue_rep]) simp

text \<open>C10. A round of sending, on the linked list: if the list is well-formed and holds the node's queue,
  the loop with its removals in front of and at its position ends, never follows a freed pointer,
  returns what the loop on the list of envelopes returns, with the same effect on the node, and leaves
  a well-formed list of the envelopes that one leaves.\<close>

theorem heap_process_send_refines:
  assumes "gossip_inv L g" "queue_rep h q xs" "outbound_messages g = map snd xs"
  shows "\<exists>r g' l ys. process_send_loop g 0 [] (outbound_messages g) = Some (r, g')
     \<and> process_send_heap \<lparr>loop_self = g, loop_heap = h, loop_queue = q, loop_sent = 0, loop_head = head q\<rparr> = Some (r, l)
     \<and> queue_rep (loop_heap l) (loop_queue l) ys \<and> map snd ys = outbound_messages g'
     \<and> loop_self l = g'\<lparr>outbound_messages := outbound_messages g\<rparr>"
proof -
  let ?l = "\<lparr>loop_self = g, loop_heap = h, loop_queue = q, loop_sent = 0, loop_head = head q\<rparr>"
  have "gossip_inv L (g\<lparr>outbound_messages := [] @ outbound_messages g\<rparr>)" using assms(1) by simp
  from process_send_loop_ok [OF this, of 0] obtain r g' where
    res: "process_send_loop g 0 [] (outbound_messages g) = Some (r, g')" by (auto simp: loop_result_def)
  have "loop_at ?l [] xs" using assms(2) queue_rep_head [OF assms(2)] by (simp add: loop_at_def)
  from process_send_heap_refines [OF this] show ?thesis using res assms(3) by (auto simp: loop_done_def)
qed

theorem heap_process_send_refines_witness:
  "\<exists>r g' l ys. process_send_loop (ex_node\<lparr>outbound_messages := map ex_envelope [7, 8]\<rparr>) 0 []
        (outbound_messages (ex_node\<lparr>outbound_messages := map ex_envelope [7, 8]\<rparr>)) = Some (r, g')
     \<and> process_send_heap \<lparr>loop_self = ex_node\<lparr>outbound_messages := map ex_envelope [7, 8]\<rparr>, loop_heap = ex_heap,
          loop_queue = ex_queue, loop_sent = 0, loop_head = head ex_queue\<rparr> = Some (r, l)
     \<and> queue_rep (loop_heap l) (loop_queue l) ys \<and> map snd ys = outbound_messages g'
     \<and> loop_self l = g'\<lparr>outbound_messages := outbound_messages (ex_node\<lparr>outbound_messages := map ex_envelope [7, 8]\<rparr>)\<rparr>"
  by (rule heap_process_send_refines [OF ex_queue_inv ex_queue_rep]) simp

end
