(* ===== verification/Pt_Frame.thy ===== *)
theory Pt_Frame
  imports Pt_Api
begin

text \<open>
  What the functions of the library leave alone. The lemmas need no invariant: they hold for every
  descriptor on which a function returns.
\<close>

section \<open>Who a node is\<close>

text \<open>
  Whatever a descriptor holds, no function of the library but the initialisation changes its socket
  and its address, and only publishing data changes its data counter.
\<close>

named_theorems frame

definition fixed :: "pittacus_gossip \<Rightarrow> int \<times> cluster_member \<times> u32" where
  "fixed g = (socket g, self_address g, data_counter g)"

lemma fixed_update [simp]:
  "fixed (g\<lparr>outbound_messages := q\<rparr>) = fixed g" "fixed (g\<lparr>genv := e\<rparr>) = fixed g"
  "fixed (g\<lparr>output_buffer := out\<rparr>) = fixed g" "fixed (g\<lparr>input_buffer := i\<rparr>) = fixed g"
  "fixed (g\<lparr>output_buffer_offset := k\<rparr>) = fixed g" "fixed (g\<lparr>gossip_sequence_num := n\<rparr>) = fixed g"
  "fixed (g\<lparr>data_version := v\<rparr>) = fixed g" "fixed (g\<lparr>gossip_log := l\<rparr>) = fixed g"
  "fixed (g\<lparr>members := m\<rparr>) = fixed g" "fixed (g\<lparr>state := s\<rparr>) = fixed g"
  "fixed (g\<lparr>last_gossip_ts := t\<rparr>) = fixed g"
  by (simp_all add: fixed_def)

lemma fixed_enqueue_to_outbound [frame]:
  "gossip_enqueue_to_outbound g b n a to len = Some (r, g') \<Longrightarrow> fixed g' = fixed g"
  by (auto simp: gossip_enqueue_to_outbound_def Let_def split: Option.bind_splits option.splits)

lemma fixed_enqueue_to_members [frame]:
  "enqueue_to_members g b n a ps res = Some (r, g') \<Longrightarrow> fixed g' = fixed g"
proof (induction ps arbitrary: g res)
  case (Cons p ps)
  from Cons.prems show ?case
    by (auto simp: bind_eq_Some_conv split: if_splits dest!: Cons.IH fixed_enqueue_to_outbound)
qed simp

lemma fixed_distribute [frame]:
  "distribute_message g b n a to len sp = Some (r, g') \<Longrightarrow> fixed g' = fixed g"
  by (auto simp: distribute_message_def split: spreading_type.splits Option.bind_splits if_splits dest: frame)

lemma fixed_offset [frame]:
  "gossip_update_output_buffer_offset g = Some (off, g') \<Longrightarrow> fixed g' = fixed g"
  by (auto simp: gossip_update_output_buffer_offset_def gossip_find_available_output_buffer_def Let_def
      split: Option.bind_splits option.splits if_splits)

lemma fixed_enqueue_message [frame]:
  "gossip_enqueue_message g t m to len sp = Some (r, g') \<Longrightarrow> fixed g' = fixed g"
  by (auto simp: gossip_enqueue_message_def Let_def split: Option.bind_splits if_splits dest!: frame)

lemma fixed_send_member_lists [frame]:
  "send_member_lists g n slots to len res = Some (r, g') \<Longrightarrow> fixed g' = fixed g"
proof (induction g n slots to len res rule: send_member_lists.induct)
  case (1 g n slots to len res)
  show ?case
  proof (cases "slots = [] \<or> n = 0")
    case False
    then obtain ms r1 g1 where s: "those (take n slots) = Some ms" "gossip_enqueue_message g MESSAGE_MEMBER_LIST_TYPE
        (Member_List \<lparr>member_list_header = message_header_init MESSAGE_MEMBER_LIST_TYPE 0,
           members_n = of_nat (length ms), list_members = ms\<rparr>) to len GOSSIP_DIRECT = Some (r1, g1)"
      "g' = g1 \<or> \<not> r1 < 0 \<and> send_member_lists g1 n (drop n slots) to len r1 = Some (r, g')"
      using 1(2) by (subst (asm) send_member_lists.simps) (auto split: Option.bind_splits if_splits)
    then show ?thesis using 1(1) [OF False s(1,2) refl] fixed_enqueue_message [OF s(2)] by auto
  qed (use 1(2) in \<open>simp add: send_member_lists.simps\<close>)
qed

lemma fixed_send_data_log [frame]:
  "send_data_log g c to len is res = Some (r, g') \<Longrightarrow> fixed g' = fixed g"
  by (induction g c to len "is" res rule: send_data_log.induct)
    (auto split: Option.bind_splits if_splits dest: fixed_enqueue_message)

lemma fixed_enqueue [frame]:
  "gossip_enqueue_ack g n to len = Some (r, g') \<Longrightarrow> fixed g' = fixed g"
  "gossip_enqueue_welcome g n to len = Some (r, g') \<Longrightarrow> fixed g' = fixed g"
  "gossip_enqueue_hello g to len = Some (r, g') \<Longrightarrow> fixed g' = fixed g"
  "gossip_enqueue_data_log g c to len = Some (r, g') \<Longrightarrow> fixed g' = fixed g"
  by (auto simp: gossip_enqueue_ack_def gossip_enqueue_welcome_def gossip_enqueue_hello_def
      gossip_enqueue_data_log_def dest: frame)

lemma fixed_enqueue_binds [frame]:
  "gossip_enqueue_status g to len = Some (r, g') \<Longrightarrow> fixed g' = fixed g"
  "gossip_enqueue_member_list g to len = Some (r, g') \<Longrightarrow> fixed g' = fixed g"
  by (auto simp: gossip_enqueue_status_def gossip_enqueue_member_list_def Let_def
      split: Option.bind_splits prod.splits if_splits dest!: fixed_enqueue_message fixed_send_member_lists)

lemma fixed_enqueue_data:
  "gossip_enqueue_data g bs k = Some (r, g') \<Longrightarrow> fixed g' = fixed (g\<lparr>data_counter := data_counter g + 1\<rparr>)"
  by (auto simp: gossip_enqueue_data_def Let_def split: Option.bind_splits dest!: fixed_enqueue_message)

lemma fixed_handle [frame]:
  "gossip_handle_ack g x = Some (r, g') \<Longrightarrow> fixed g' = fixed g"
  "gossip_handle_welcome g x = Some (r, g') \<Longrightarrow> fixed g' = fixed g"
  "gossip_handle_member_list g x = Some (r, g') \<Longrightarrow> fixed g' = fixed g"
  by (auto simp: gossip_handle_ack_def gossip_handle_welcome_def gossip_handle_member_list_def Let_def
      split: Option.bind_splits sum.splits if_splits dest!: fixed_enqueue(1))

lemma fixed_handle_hello [frame]:
  "gossip_handle_hello g x = Some (r, g') \<Longrightarrow> fixed g' = fixed g"
  by (auto simp: gossip_handle_hello_def Let_def split: Option.bind_splits sum.splits if_splits
      dest!: fixed_enqueue(2) fixed_enqueue_message fixed_enqueue_binds(2))

lemma fixed_handle_status [frame]:
  "gossip_handle_status g x = Some (r, g') \<Longrightarrow> fixed g' = fixed g"
  by (auto simp: gossip_handle_status_def Let_def split: Option.bind_splits sum.splits if_splits vector_clock_comp_res.splits
      dest!: fixed_enqueue(1,4) fixed_enqueue_binds(1))

lemma fixed_handle_data:
  assumes "\<And>g p n g'. f g p n = Some g' \<Longrightarrow> fixed g' = fixed g"
    and "gossip_handle_data (Some f) g x = Some (r, g')"
  shows "fixed g' = fixed g"
  using assms(2)
  by (auto simp: gossip_handle_data_def Let_def split: Option.bind_splits sum.splits if_splits option.splits
      dest!: fixed_enqueue(1) fixed_enqueue_message assms(1))

lemma fixed_process_receive:
  assumes f: "\<And>g p n g'. f g p n = Some g' \<Longrightarrow> fixed g' = fixed g"
    and "pittacus_gossip_process_receive (Some f) g = Some (r, g')"
  shows "fixed g' = fixed g"
  using assms(2) fixed_handle_data [OF f]
  by (auto simp: pittacus_gossip_process_receive_def gossip_handle_new_message_def Let_def
      split: Option.bind_splits if_splits dest!: fixed_handle fixed_handle_hello fixed_handle_status)

lemma fixed_process_send_loop:
  "process_send_loop g n kept xs = Some (r, g') \<Longrightarrow> fixed g' = fixed g"
proof (induction xs arbitrary: g n kept rule: measure_induct_rule [of length])
  case (less xs)
  show ?case
  proof (cases xs)
    case (Cons c ys)
    have IH: "process_send_loop g1 n1 k1 zs = Some (r, g') \<Longrightarrow> length zs \<le> length ys \<Longrightarrow> fixed g' = fixed g1" for g1 n1 k1 zs
      using less.IH [of zs g1 n1 k1] Cons by simp
    from less.prems show ?thesis
      by (auto simp: Cons process_send_loop.simps Let_def bind_eq_Some_conv case_prod_unfold split: if_splits
          dest!: IH dest: drop_same_recipient_length)
  qed (use less.prems in \<open>auto simp: process_send_loop.simps\<close>)
qed

lemma fixed_calls [frame]:
  "pittacus_gossip_process_send g = Some (r, g') \<Longrightarrow> fixed g' = fixed g"
  "pittacus_gossip_tick g = Some (r, g') \<Longrightarrow> fixed g' = fixed g"
  by (auto simp: pittacus_gossip_process_send_def pittacus_gossip_tick_def Let_def
      split: Option.bind_splits if_splits prod.splits dest!: fixed_process_send_loop fixed_enqueue_binds(1))

lemma fixed_send_data:
  "pittacus_gossip_send_data g bs k = Some (r, g') \<Longrightarrow>
     fixed g' = (if state g = STATE_CONNECTED then fixed (g\<lparr>data_counter := data_counter g + 1\<rparr>) else fixed g)"
  by (auto simp: pittacus_gossip_send_data_def split: if_splits dest!: fixed_enqueue_data)

lemma fixed_join_seeds: "join_seeds g nodes = Some (r, g') \<Longrightarrow> fixed g' = fixed g"
  by (induction g nodes rule: join_seeds.induct) (auto split: Option.bind_splits if_splits dest!: fixed_enqueue(3))

lemma fixed_join [frame]: "pittacus_gossip_join g seeds n = Some (r, g') \<Longrightarrow> fixed g' = fixed g"
  by (auto simp: pittacus_gossip_join_def split: option.splits if_splits dest: fixed_join_seeds)

lemma fixed_eqD:
  assumes "fixed g' = fixed g"
  shows "socket g' = socket g" "self_address g' = self_address g" "data_counter g' = data_counter g" "self_id g' = self_id g"
  using assms by (auto simp: fixed_def self_id_def)

lemma socket_calls:
  "pittacus_gossip_process_send g = Some (r, g') \<Longrightarrow> socket g' = socket g"
  "pittacus_gossip_tick g = Some (r, g') \<Longrightarrow> socket g' = socket g"
  "pittacus_gossip_send_data g bs k = Some (r, g') \<Longrightarrow> socket g' = socket g"
  "pittacus_gossip_join g seeds n = Some (r, g') \<Longrightarrow> socket g' = socket g"
  by (auto dest: fixed_calls fixed_join fixed_send_data simp: fixed_def split: if_splits)

end
