(* ===== verification/Pt_Text.thy ===== *)
theory Pt_Text
  imports Pt_Vector_Clock
begin

text \<open>
  Text: the conversions of \<^verbatim>\<open>sprintf\<close> that the code uses, and \<^verbatim>\<open>vector_clock_to_string\<close>, the printed
  form of a clock.
\<close>

section \<open>Conversions\<close>

text \<open>\<^verbatim>\<open>%u\<close>, \<^verbatim>\<open>%ld\<close> and \<^verbatim>\<open>%llx\<close>, for the digits of a number in base \<open>b\<close>.\<close>

definition digit :: "nat \<Rightarrow> char" where
  "digit n = char_of (if n < 10 then 48 + n else 87 + n)"

function digits :: "nat \<Rightarrow> nat \<Rightarrow> string" where
  "digits b n = (if n < b \<or> b < 2 then [digit n] else digits b (n div b) @ [digit (n mod b)])"
  by pat_completeness auto
termination
  by (relation "measure snd") auto

declare digits.simps [simp del]

definition format_ld :: "int \<Rightarrow> string" where
  "format_ld t = (if t < 0 then CHR ''-'' # digits 10 (nat (- t)) else digits 10 (nat t))"

definition bytes_of :: "string \<Rightarrow> u8 list" where
  "bytes_of s = map (\<lambda>c. of_nat (of_char c)) s"

lemma length_bytes_of [simp]: "length (bytes_of s) = length s"
  by (simp add: bytes_of_def)

lemma length_digits: "2 \<le> b \<Longrightarrow> n < b ^ Suc k \<Longrightarrow> length (digits b n) \<le> Suc k"
proof (induction k arbitrary: n)
  case 0
  then show ?case by (simp add: digits.simps)
next
  case (Suc k)
  then have "n div b < b ^ Suc k" by (simp add: less_mult_imp_div_less mult.commute)
  from Suc.IH [OF Suc.prems(1) this] show ?case by (simp add: digits.simps [of b n])
qed

lemma length_format_ld:
  assumes "- (2 ^ 63) \<le> t" "t < 2 ^ 63"
  shows "length (format_ld t) \<le> 20"
proof -
  have "nat t < 10 ^ Suc 18" "nat (- t) < 10 ^ Suc 18" using assms by auto
  from this [THEN length_digits [rotated]] show ?thesis by (auto simp: format_ld_def)
qed

lemma digits_not_zero: "b \<le> 16 \<Longrightarrow> n < 16 \<or> 2 \<le> b \<Longrightarrow> \<forall>c \<in> set (digits b n). (of_char c :: nat) \<noteq> 0"
proof (induction b n rule: digits.induct)
  case (1 b n)
  have d: "k < 16 \<Longrightarrow> (of_char (digit k) :: nat) \<noteq> 0" for k by (simp add: digit_def)
  show ?case
  proof (cases "n < b \<or> b < 2")
    case True
    then have "n < 16" using "1.prems" by auto
    then show ?thesis using True d by (simp add: digits.simps [of b n])
  next
    case False
    then have "n mod b < 16" using "1.prems"(1) mod_less_divisor [of b n] by linarith
    then show ?thesis using False d "1.IH" [OF False] "1.prems" by (simp add: digits.simps [of b n])
  qed
qed

lemma format_ld_not_zero: "\<forall>c \<in> set (format_ld t). (of_char c :: nat) \<noteq> 0"
  using digits_not_zero [of 10] by (auto simp: format_ld_def)

lemma byte_of_char_zero [simp]: "(of_nat (of_char c) :: u8) = 0 \<longleftrightarrow> (of_char c :: nat) = 0"
proof -
  have "(of_char c :: nat) < 256" by simp
  then show ?thesis by (simp add: word_of_nat_eq_0_iff dvd_eq_mod_eq_0)
qed

lemma takeWhile_bytes:
  "\<forall>c \<in> set s. (of_char c :: nat) \<noteq> 0 \<Longrightarrow> takeWhile (\<lambda>b. b \<noteq> 0) (bytes_of s @ 0 # bs) = bytes_of s"
  by (induction s) (auto simp: bytes_of_def)

section \<open>Printing a clock\<close>

definition record_text :: "vector_record \<Rightarrow> string" where
  "record_text r = ''('' @ digits 16 (unat (member_id r)) @ '':'' @ digits 10 (unat (sequence_number r)) @ '')  ''"

text \<open>
  \<^verbatim>\<open>sprintf\<close> writes the text of a record and a zero at the cursor, which moves behind the text.
\<close>

definition vector_clock_to_string :: "vector_clock \<Rightarrow> u8 list \<Rightarrow> u8 list option" where
  "vector_clock_to_string clock result = do {
     (cursor, result) \<leftarrow> for_loop 0 (vc_size clock) (\<lambda>i (cursor, result). do {
         r \<leftarrow> arr_get (records clock) i;
         let text = record_text r;
         result \<leftarrow> mem_write result cursor (bytes_of text @ [0]);
         Some (cursor + length text, result)
       }) (0, result);
     Some result
   }"

lemma length_record_text: "length (record_text r) \<le> 31"
proof -
  have "unat (member_id r) < 2 ^ LENGTH(64)" "unat (sequence_number r) < 2 ^ LENGTH(32)" by (rule unsigned_less)+
  then have "unat (member_id r) < 16 ^ Suc 15" "unat (sequence_number r) < 10 ^ Suc 9" by simp_all
  from length_digits [OF _ this(1)] length_digits [OF _ this(2)] show ?thesis by (simp add: record_text_def)
qed

lemma length_concat_texts: "length (concat (map record_text rs)) \<le> 31 * length rs"
  using length_record_text by (induction rs) (auto intro: add_mono)

lemma write_text:
  assumes "mem_write buf 0 (pre @ end) = Some out" "length pre + length new \<le> length buf"
    "length end \<le> length new"
  shows "mem_write out (length pre) new = mem_write buf 0 (pre @ new)"
  using assms by (auto simp: mem_write_def add.commute)

text \<open>
  The text of the records in their order and one zero: 621 bytes are enough for every clock. An empty
  clock leaves the result as it was, without even a zero.
\<close>

lemma vector_clock_to_string_ok:
  assumes inv: "vc_inv c" and room: "31 * vc_size c < length result"
  shows "vector_clock_to_string c result =
     (if vc_size c = 0 then Some result
      else mem_write result 0 (bytes_of (concat (map record_text (take (vc_size c) (records c)))) @ [0]))"
proof -
  let ?text = "\<lambda>k. bytes_of (concat (map record_text (take k (records c))))"
  let ?I = "\<lambda>k (cursor, buf). cursor = length (?text k) \<and>
      (if k = 0 then buf = result else mem_write result 0 (?text k @ [0]) = Some buf)"
  have size: "vc_size c \<le> length (records c)" using inv by (auto simp: vc_inv_def vc_wf_def)
  have "\<exists>s. for_loop 0 (vc_size c) (\<lambda>i (cursor, result). do {
         r \<leftarrow> arr_get (records c) i;
         let text = record_text r;
         result \<leftarrow> mem_write result cursor (bytes_of text @ [0]);
         Some (cursor + length text, result)
       }) (0, result) = Some s \<and> ?I (vc_size c) s"
  proof (rule for_loop_total)
    fix k s
    assume k: "k < vc_size c" and I: "?I k s"
    obtain cursor buf where s: "s = (cursor, buf)" by (cases s)
    let ?r = "records c ! k"
    have r: "arr_get (records c) k = Some ?r" using k size by (simp add: arr_get_def)
    have t: "?text (Suc k) = ?text k @ bytes_of (record_text ?r)"
      using k size by (simp add: take_Suc_conv_app_nth bytes_of_def)
    have "length (?text (Suc k)) \<le> 31 * vc_size c"
      using length_concat_texts [of "take (Suc k) (records c)"] k size by (auto simp: min_def split: if_splits)
    then have fits: "length (?text k) + length (bytes_of (record_text ?r) @ [0]) \<le> length result"
      using room by (simp add: t)
    have "mem_write buf (length (?text k)) (bytes_of (record_text ?r) @ [0]) = mem_write result 0 (?text (Suc k) @ [0])"
    proof (cases "k = 0")
      case False
      then show ?thesis using I s fits write_text [of result "?text k" "[0]" buf "bytes_of (record_text ?r) @ [0]"] t by simp
    qed (use I s t in \<open>simp add: bytes_of_def\<close>)
    moreover obtain out where out: "mem_write result 0 (?text (Suc k) @ [0]) = Some out"
      using fits by (simp add: t mem_write_def)
    ultimately show "\<exists>t'. (case s of (cursor, result) \<Rightarrow> do {
         r \<leftarrow> arr_get (records c) k;
         let text = record_text r;
         result \<leftarrow> mem_write result cursor (bytes_of text @ [0]);
         Some (cursor + length text, result)
       }) = Some t' \<and> ?I (Suc k) t'"
      using I by (simp add: s r t)
  qed (auto simp: bytes_of_def)
  then show ?thesis by (auto simp: vector_clock_to_string_def split: if_splits)
qed

end
