(* ===== verification/Pt_Demo.thy ===== *)
theory Pt_Demo
  imports Pt_Frame Pt_Text
begin

text \<open>
  The two demo programs (\<^verbatim>\<open>src/demos\<close>): a node that joins a seed node and publishes a line of text
  every five seconds, and the seed node. Both are a loop around \<^verbatim>\<open>poll\<close> and the public functions.
\<close>

section \<open>Text\<close>

text \<open>
  \<^verbatim>\<open>sprintf\<close> into one of the arrays of 256 characters: the text and its terminating zero have to fit.
\<close>

definition sprintf_256 :: "string \<Rightarrow> string option" where
  "sprintf_256 s = (if length s < 256 then Some s else None)"

definition demo_message :: "string \<Rightarrow> string option" where
  "demo_message node_id = sprintf_256 (''['' @ node_id @ '']: '' @ ''Hello World'')"

definition demo_payload :: "string \<Rightarrow> int \<Rightarrow> u8 list option" where
  "demo_payload message current_time = do {
     message_with_ts \<leftarrow> sprintf_256 (message @ '' (ts = '' @ format_ld current_time @ '')'');
     Some (bytes_of message_with_ts @ [0])
   }"

text \<open>
  The callback prints the bytes up to the first zero, of which it does not know whether it lies
  within the payload. There is nothing to read behind NULL and behind the input buffer.
\<close>

definition demo_data_receiver :: data_receiver where
  "demo_data_receiver gossip p n = (case p of
       None \<Rightarrow> None
     | Some bs \<Rightarrow>
         if 0 \<in> set bs
         then Some (gossip\<lparr>genv := (genv gossip)\<lparr>env_app := env_app (genv gossip) @
                [bytes_of ''Data arrived: '' @ takeWhile (\<lambda>b. b \<noteq> 0) bs @ [10]]\<rparr>\<rparr>)
         else None)"

section \<open>The programs\<close>

text \<open>
  The variables of \<^verbatim>\<open>main\<close>, and the answers of \<^verbatim>\<open>poll\<close> (its result and \<^verbatim>\<open>revents\<close>) and
  \<^verbatim>\<open>time\<close>.
\<close>

record demo =
  demo_gossip :: pittacus_gossip
  demo_os :: os
  poll_interval :: int
  previous_data_msg_ts :: int
  demo_polls :: "(int \<times> u16) stream"
  demo_times :: "int stream"

abbreviation (input) POLLIN :: u16 where "POLLIN \<equiv> 1"
abbreviation (input) POLLERR :: u16 where "POLLERR \<equiv> 8"

text \<open>What \<^verbatim>\<open>main\<close> reports before it returns -1.\<close>

datatype failure =
    Init_Failed
  | Join_Failed int
  | Hello_Failed
  | Socket_Failure
  | Receive_Failed int
  | Poll_Failed
  | Tick_Failed int
  | Send_Failed int

text \<open>
  A part of \<^verbatim>\<open>main\<close> either makes it return, with the sockets still open then, or goes on.
\<close>

type_synonym progress_of_main = "(failure \<times> os + demo) option"

definition give_up :: "failure \<Rightarrow> demo \<Rightarrow> progress_of_main" where
  "give_up why d = do {
     (_, os) \<leftarrow> pittacus_gossip_destroy (demo_gossip d) (demo_os d);
     Some (Inl (why, os))
   }"

definition and_then :: "progress_of_main \<Rightarrow> (demo \<Rightarrow> progress_of_main) \<Rightarrow> progress_of_main" where
  "and_then r f = do {
     x \<leftarrow> r;
     case x of Inl stop \<Rightarrow> Some (Inl stop) | Inr d \<Rightarrow> f d
   }"

definition poll_socket :: "demo \<Rightarrow> progress_of_main" where
  "poll_socket d = (let (poll_result, revents) = shd (demo_polls d); d = d\<lparr>demo_polls := stl (demo_polls d)\<rparr>
     in if poll_result > 0
        then (if revents AND POLLERR \<noteq> 0 then give_up Socket_Failure d
              else if revents AND POLLIN \<noteq> 0 then do {
                (recv_result, g) \<leftarrow> pittacus_gossip_process_receive (Some demo_data_receiver) (demo_gossip d);
                let d = d\<lparr>demo_gossip := g\<rparr>;
                if recv_result < 0 then give_up (Receive_Failed recv_result) d else Some (Inr d)
              }
              else Some (Inr d))
        else if poll_result < 0 then give_up Poll_Failed d
        else Some (Inr d))"

text \<open>A failing tick ends \<^verbatim>\<open>main\<close> without destroying the descriptor.\<close>

definition tick_gossip :: "demo \<Rightarrow> progress_of_main" where
  "tick_gossip d = do {
     (interval, g) \<leftarrow> pittacus_gossip_tick (demo_gossip d);
     let d = d\<lparr>demo_gossip := g, poll_interval := interval\<rparr>;
     if interval < 0 then Some (Inl (Tick_Failed interval, demo_os d)) else Some (Inr d)
   }"

text \<open>An addition on \<^verbatim>\<open>time_t\<close>, a signed type of 64 bits, must not overflow.\<close>

definition time_add :: "int \<Rightarrow> int \<Rightarrow> int option" where
  "time_add t n = (if - (2 ^ 63) \<le> t + n \<and> t + n < 2 ^ 63 then Some (t + n) else None)"

definition send_periodically :: "string \<Rightarrow> demo \<Rightarrow> progress_of_main" where
  "send_periodically message d =
     (let current_time = shd (demo_times d); d = d\<lparr>demo_times := stl (demo_times d)\<rparr>
      in do {
        next_data_msg_ts \<leftarrow> time_add (previous_data_msg_ts d) 5;
        if next_data_msg_ts \<le> current_time
        then do {
          data \<leftarrow> demo_payload message current_time;
          (_, g) \<leftarrow> pittacus_gossip_send_data (demo_gossip d) (Some data) (of_nat (length data));
          Some (Inr (d\<lparr>demo_gossip := g, previous_data_msg_ts := current_time\<rparr>))
        }
        else Some (Inr d)
      })"

definition send_queued :: "demo \<Rightarrow> progress_of_main" where
  "send_queued d = do {
     (send_result, g) \<leftarrow> pittacus_gossip_process_send (demo_gossip d);
     let d = d\<lparr>demo_gossip := g\<rparr>;
     if send_result < 0 then give_up (Send_Failed send_result) d else Some (Inr d)
   }"

text \<open>One pass of the loop of each program, and \<open>n\<close> passes of it.\<close>

definition node_pass :: "string \<Rightarrow> demo \<Rightarrow> progress_of_main" where
  "node_pass message d =
     and_then (and_then (and_then (poll_socket d) tick_gossip) (send_periodically message)) send_queued"

definition seed_pass :: "demo \<Rightarrow> progress_of_main" where
  "seed_pass d = and_then (and_then (poll_socket d) tick_gossip) send_queued"

fun passes :: "(demo \<Rightarrow> progress_of_main) \<Rightarrow> nat \<Rightarrow> demo \<Rightarrow> progress_of_main" where
  "passes pass 0 d = Some (Inr d)"
| "passes pass (Suc n) d = and_then (pass d) (passes pass n)"

text \<open>
  An address of the host itself: family, port, \<^verbatim>\<open>127.0.0.1\<close> and the padding the programs do not
  initialise.
\<close>

definition sockaddr_in :: "u16 \<Rightarrow> u8 list \<Rightarrow> u8 list" where
  "sockaddr_in port pad = mem_of_word AF_INET @ mem_of_word (PT_HTONS port) @ [127, 0, 0, 1] @ pad"

text \<open>Both programs up to their loops and with the first \<open>n\<close> passes of them.\<close>

definition node_start :: "demo \<Rightarrow> pittacus_gossip \<Rightarrow> u8 list \<Rightarrow> u8 list \<Rightarrow> progress_of_main" where
  "node_start d raw self_pad seed_pad = do {
     (created, os) \<leftarrow> pittacus_gossip_create raw (demo_os d) (sockaddr_in 0 self_pad) 16;
     let d = d\<lparr>demo_os := os\<rparr>;
     case created of
       None \<Rightarrow> Some (Inl (Init_Failed, os))
     | Some g \<Rightarrow> do {
         (join_result, g) \<leftarrow> pittacus_gossip_join g (Some [(Some (sockaddr_in 65000 seed_pad), 16)]) 1;
         let d = d\<lparr>demo_gossip := g\<rparr>;
         if join_result < 0 then give_up (Join_Failed join_result) d
         else do {
           (send_result, g) \<leftarrow> pittacus_gossip_process_send (demo_gossip d);
           let d = d\<lparr>demo_gossip := g\<rparr>;
           if send_result < 0 then give_up Hello_Failed d
           else Some (Inr (d\<lparr>poll_interval := 1000, previous_data_msg_ts := shd (demo_times d),
                             demo_times := stl (demo_times d)\<rparr>))
         }
       }
   }"

definition node_main :: "string \<Rightarrow> demo \<Rightarrow> pittacus_gossip \<Rightarrow> u8 list \<Rightarrow> u8 list \<Rightarrow> nat \<Rightarrow> progress_of_main" where
  "node_main node_id d raw self_pad seed_pad n = do {
     message \<leftarrow> demo_message node_id;
     and_then (node_start d raw self_pad seed_pad) (passes (node_pass message) n)
   }"

definition seed_start :: "demo \<Rightarrow> pittacus_gossip \<Rightarrow> u8 list \<Rightarrow> progress_of_main" where
  "seed_start d raw self_pad = do {
     (created, os) \<leftarrow> pittacus_gossip_create raw (demo_os d) (sockaddr_in 65000 self_pad) 16;
     let d = d\<lparr>demo_os := os\<rparr>;
     case created of
       None \<Rightarrow> Some (Inl (Init_Failed, os))
     | Some g \<Rightarrow> do {
         (join_result, g) \<leftarrow> pittacus_gossip_join g None 0;
         let d = d\<lparr>demo_gossip := g\<rparr>;
         if join_result < 0 then give_up (Join_Failed join_result) d
         else Some (Inr (d\<lparr>poll_interval := 1000\<rparr>))
       }
   }"

definition seed_main :: "demo \<Rightarrow> pittacus_gossip \<Rightarrow> u8 list \<Rightarrow> nat \<Rightarrow> progress_of_main" where
  "seed_main d raw self_pad n = and_then (seed_start d raw self_pad) (passes seed_pass n)"

section \<open>Text that fits\<close>

lemma demo_message_Some: "length node_id \<le> 240 \<Longrightarrow> demo_message node_id = Some (''['' @ node_id @ '']: '' @ ''Hello World'')"
  by (simp add: demo_message_def sprintf_256_def)

lemma demo_payload_Some:
  assumes "length m \<le> 227" "- (2 ^ 63) \<le> t" "t < 2 ^ 63"
  shows "demo_payload m t = Some (bytes_of (m @ '' (ts = '' @ format_ld t @ '')'') @ [0])"
    "length (bytes_of (m @ '' (ts = '' @ format_ld t @ '')'') @ [0]) \<le> 256"
  using assms(1) length_format_ld [OF assms(2,3)] by (simp_all add: demo_payload_def sprintf_256_def bytes_of_def)

section \<open>The callback of the demos\<close>

text \<open>
  Data that can be printed: a payload with a zero in it or behind it. On such packets the callback
  behaves like one that prints what it can, and that one keeps the contract of the library.
\<close>

definition printable :: "u8 list \<Rightarrow> nat \<Rightarrow> bool" where
  "printable buf n \<longleftrightarrow> (case message_data_decode buf n of
       Some (Inr (_, m)) \<Rightarrow> (case data m of None \<Rightarrow> False | Some bs \<Rightarrow> 0 \<in> set bs)
     | _ \<Rightarrow> True)"

definition lenient_receiver :: data_receiver where
  "lenient_receiver g p n = (case demo_data_receiver g p n of None \<Rightarrow> Some g | Some g' \<Rightarrow> Some g')"

interpretation printing: receiver_contract L "Some lenient_receiver" for L
  by unfold_locales
    (auto simp: lenient_receiver_def demo_data_receiver_def gossip_inv_def allocs_ok_def split: option.splits)

lemma fixed_lenient: "lenient_receiver g p n = Some g' \<Longrightarrow> fixed g' = fixed g"
  by (auto simp: lenient_receiver_def demo_data_receiver_def split: option.splits if_splits)

lemma handle_data_lenient:
  assumes "printable (in_buffer x) (in_buffer_size x)"
  shows "gossip_handle_data (Some demo_data_receiver) g x = gossip_handle_data (Some lenient_receiver) g x"
proof -
  have eq: "demo_data_receiver h (data m) k = lenient_receiver h (data m) k"
    if "message_data_decode (in_buffer x) (in_buffer_size x) = Some (Inr (i, m))" for h k i m
    using assms that by (auto simp: printable_def lenient_receiver_def demo_data_receiver_def split: option.splits)
  show ?thesis
  proof (cases "\<exists>i m. message_data_decode (in_buffer x) (in_buffer_size x) = Some (Inr (i, m))")
    case True
    then obtain i m where dec: "message_data_decode (in_buffer x) (in_buffer_size x) = Some (Inr (i, m))" by blast
    show ?thesis unfolding gossip_handle_data_def dec bind.bind_lunit sum.case prod.case option.case eq [OF dec] ..
  next
    case False
    then show ?thesis by (auto simp: gossip_handle_data_def split: Option.bind_split sum.split)
  qed
qed

lemma handle_new_message_lenient:
  assumes "printable (in_buffer x) (in_buffer_size x)"
  shows "gossip_handle_new_message (Some demo_data_receiver) g x = gossip_handle_new_message (Some lenient_receiver) g x"
  unfolding gossip_handle_new_message_def handle_data_lenient [OF assms] ..

definition next_printable :: "pittacus_gossip \<Rightarrow> bool" where
  "next_printable g \<longleftrightarrow> (case shd (env_recvs (genv g)) of Recv_Error \<Rightarrow> True
     | Recv_Datagram bs from from_len \<Rightarrow> printable (arrived g bs) (min (length bs) INPUT_BUFFER_SIZE))"

lemma process_receive_lenient:
  assumes "next_printable g" "length (input_buffer g) = INPUT_BUFFER_SIZE"
  shows "pittacus_gossip_process_receive (Some demo_data_receiver) g =
     pittacus_gossip_process_receive (Some lenient_receiver) g"
proof (cases "state g = STATE_JOINING \<or> state g = STATE_CONNECTED")
  case True
  note receive = process_receive_cases [OF True assms(2)]
  show ?thesis
  proof (cases "shd (env_recvs (genv g))")
    case (Recv_Datagram bs src len)
    then show ?thesis
      using assms(1) by (simp add: receive(2) [OF Recv_Datagram] next_printable_def Let_def
          handle_new_message_lenient)
  qed (simp add: receive(1))
qed (simp add: pittacus_gossip_process_receive_def)

section \<open>The passes of the loops\<close>

definition demo_inv :: "nat \<Rightarrow> int list \<Rightarrow> demo \<Rightarrow> bool" where
  "demo_inv L opened d \<longleftrightarrow> gossip_inv L (demo_gossip d)
     \<and> (state (demo_gossip d) = STATE_JOINING \<or> state (demo_gossip d) = STATE_CONNECTED)
     \<and> os_open (demo_os d) = socket (demo_gossip d) # opened
     \<and> (\<forall>t \<in> sset (demo_times d). - (2 ^ 63) \<le> t \<and> t < 2 ^ 63)"

text \<open>
  How \<^verbatim>\<open>main\<close> may go on: it keeps the invariant, or it ends, having closed its socket unless the
  tick failed.
\<close>

definition goes_well :: "nat \<Rightarrow> int list \<Rightarrow> progress_of_main \<Rightarrow> bool" where
  "goes_well L opened res = (case res of
       None \<Rightarrow> False
     | Some (Inl (why, os)) \<Rightarrow> (\<exists>r < 0. why = Tick_Failed r) \<or> os_open os = opened
     | Some (Inr d) \<Rightarrow> demo_inv L opened d)"

lemma goes_well_simps [simp]:
  "\<not> goes_well L opened None"
  "goes_well L opened (Some (Inl (why, os))) \<longleftrightarrow> (\<exists>r < 0. why = Tick_Failed r) \<or> os_open os = opened"
  "goes_well L opened (Some (Inr d)) \<longleftrightarrow> demo_inv L opened d"
  by (simp_all add: goes_well_def)

lemma goes_well_and_then:
  assumes "goes_well L opened r" "\<And>d. r = Some (Inr d) \<Longrightarrow> demo_inv L opened d \<Longrightarrow> goes_well L opened (f d)"
  shows "goes_well L opened (and_then r f)"
  using assms by (auto simp: goes_well_def and_then_def split: option.splits sum.splits)

lemma set_destroy_ok: "members_inv s \<Longrightarrow> \<exists>s'. cluster_member_set_destroy s = Some s'"
proof -
  assume inv: "members_inv s"
  have "\<exists>slots. for_loop 0 (ms_size s) (\<lambda>i slots. do { p \<leftarrow> arr_get slots i; arr_set slots i None }) (ms_set s)
      = Some slots \<and> length slots = length (ms_set s)"
    using inv by (intro for_loop_total) (auto simp: arr_get_def arr_set_def members_inv_def)
  then show ?thesis by (auto simp: cluster_member_set_destroy_def)
qed

lemma give_up_closes:
  assumes "gossip_inv L (demo_gossip d)" "os_open (demo_os d) = socket (demo_gossip d) # opened"
  shows "goes_well L opened (give_up why d)"
proof -
  obtain s where "cluster_member_set_destroy (members (demo_gossip d)) = Some s"
    using set_destroy_ok [of "members (demo_gossip d)"] assms(1) by (auto simp: gossip_inv_def)
  then show ?thesis using assms(2) by (simp add: give_up_def pittacus_gossip_destroy_def Let_def pt_close_def)
qed

text \<open>What the network may hand over in the next pass, if \<^verbatim>\<open>poll\<close> announces something to read.\<close>

definition poll_ok :: "nat \<Rightarrow> demo \<Rightarrow> bool" where
  "poll_ok L d \<longleftrightarrow> (case shd (demo_polls d) of (poll_result, revents) \<Rightarrow>
     0 < poll_result \<and> revents AND POLLERR = 0 \<and> revents AND POLLIN \<noteq> 0 \<longrightarrow>
       recv_ok L (demo_gossip d) \<and> next_printable (demo_gossip d))"

lemma demo_inv_gossip:
  assumes "demo_inv L opened d" "gossip_inv L g" "socket g = socket (demo_gossip d)"
    "state g = STATE_JOINING \<or> state g = STATE_CONNECTED"
    "demo_gossip d' = g" "demo_os d' = demo_os d" "sset (demo_times d') \<subseteq> sset (demo_times d)"
  shows "demo_inv L opened d'"
  using assms unfolding demo_inv_def by auto

lemma receive_demo:
  assumes inv: "demo_inv L opened d" and net: "recv_ok L (demo_gossip d)" "next_printable (demo_gossip d)"
  shows "\<exists>r g. pittacus_gossip_process_receive (Some demo_data_receiver) (demo_gossip d) = Some (r, g)
           \<and> demo_inv L opened (d\<lparr>demo_gossip := g\<rparr>)"
proof -
  have g: "gossip_inv L (demo_gossip d)" using inv by (simp add: demo_inv_def)
  then have "length (input_buffer (demo_gossip d)) = INPUT_BUFFER_SIZE" by (simp add: gossip_inv_def)
  note eq = process_receive_lenient [OF net(2) this]
  from printing.process_receive_ok [OF g net(1)] obtain r g' where
    r: "pittacus_gossip_process_receive (Some lenient_receiver) (demo_gossip d) = Some (r, g')" "gossip_inv L g'"
    "state g' = state (demo_gossip d) \<or> (state g' = STATE_CONNECTED \<and> state (demo_gossip d) = STATE_JOINING)" by blast
  have "demo_inv L opened (d\<lparr>demo_gossip := g'\<rparr>)"
    using r(3) inv fixed_eqD(1) [OF fixed_process_receive [OF fixed_lenient r(1)]]
    by (intro demo_inv_gossip [OF inv r(2)]) (auto simp: demo_inv_def)
  then show ?thesis using r(1) eq by simp
qed

lemma give_up_goes_well: "demo_inv L opened d \<Longrightarrow> goes_well L opened (give_up why d)"
  by (rule give_up_closes) (auto simp: demo_inv_def)

lemma poll_socket_goes_well:
  assumes inv: "demo_inv L opened d" and net: "poll_ok L d"
  shows "goes_well L opened (poll_socket d)"
proof -
  let ?d = "d\<lparr>demo_polls := stl (demo_polls d)\<rparr>"
  have inv': "demo_inv L opened ?d" using inv by (simp add: demo_inv_def)
  obtain r revents where p: "shd (demo_polls d) = (r, revents)" by (cases "shd (demo_polls d)")
  show ?thesis
  proof (cases "0 < r \<and> revents AND POLLERR = 0 \<and> revents AND POLLIN \<noteq> 0")
    case True
    then have "recv_ok L (demo_gossip ?d)" "next_printable (demo_gossip ?d)" using net p by (auto simp: poll_ok_def)
    from receive_demo [OF inv' this] obtain q g where
      "pittacus_gossip_process_receive (Some demo_data_receiver) (demo_gossip ?d) = Some (q, g)"
      "demo_inv L opened (?d\<lparr>demo_gossip := g\<rparr>)" by blast
    then show ?thesis using p True give_up_goes_well by (simp add: poll_socket_def Let_def)
  next
    case False
    then show ?thesis using p inv' give_up_goes_well [OF inv'] by (auto simp: poll_socket_def Let_def)
  qed
qed

lemma tick_gossip_goes_well:
  assumes inv: "demo_inv L opened d"
  shows "goes_well L opened (tick_gossip d)"
proof -
  have "gossip_inv L (demo_gossip d)" using inv by (simp add: demo_inv_def)
  from pittacus_gossip_tick_ok [OF this] obtain r g where
    r: "pittacus_gossip_tick (demo_gossip d) = Some (r, g)" "gossip_inv L g" "state g = state (demo_gossip d)" by blast
  have "demo_inv L opened (d\<lparr>demo_gossip := g, poll_interval := r\<rparr>)"
    using r(3) inv socket_calls(2) [OF r(1)] by (intro demo_inv_gossip [OF inv r(2)]) (auto simp: demo_inv_def)
  then show ?thesis using r(1) by (auto simp: tick_gossip_def Let_def)
qed

lemma send_queued_goes_well:
  assumes inv: "demo_inv L opened d"
  shows "goes_well L opened (send_queued d)"
proof -
  have g: "gossip_inv L (demo_gossip d)" using inv by (simp add: demo_inv_def)
  from pittacus_gossip_process_send_ok [OF this] obtain r g' where
    r: "pittacus_gossip_process_send (demo_gossip d) = Some (r, g')" "gossip_inv L g'" "state g' = state (demo_gossip d)"
    using g by (auto simp: loop_result_def)
  have "demo_inv L opened (d\<lparr>demo_gossip := g'\<rparr>)"
    using r(3) inv socket_calls(1) [OF r(1)] by (intro demo_inv_gossip [OF inv r(2)]) (auto simp: demo_inv_def)
  then show ?thesis using r(1) give_up_goes_well by (auto simp: send_queued_def Let_def)
qed

lemma shd_in_sset: "shd s \<in> sset s"
  by (cases s) auto

lemma stl_subset_sset: "sset (stl s) \<subseteq> sset s"
  by (cases s) auto

text \<open>The clock is far enough from the end of \<^verbatim>\<open>time_t\<close> for the next interval.\<close>

definition clock_ok :: "demo \<Rightarrow> bool" where
  "clock_ok d \<longleftrightarrow> (\<forall>t \<in> insert (previous_data_msg_ts d) (sset (demo_times d)). - (2 ^ 63) \<le> t \<and> t + 5 < 2 ^ 63)"

lemma clock_ok_cong:
  "previous_data_msg_ts d' = previous_data_msg_ts d \<Longrightarrow> demo_times d' = demo_times d \<Longrightarrow> clock_ok d' = clock_ok d"
  by (simp add: clock_ok_def)

lemma clock_ok_poll: "poll_socket d = Some (Inr d') \<Longrightarrow> clock_ok d' = clock_ok d"
  by (intro clock_ok_cong)
    (auto simp: poll_socket_def give_up_def Let_def split: prod.splits if_splits Option.bind_splits)

lemma clock_ok_tick: "tick_gossip d = Some (Inr d') \<Longrightarrow> clock_ok d' = clock_ok d"
  by (intro clock_ok_cong) (auto simp: tick_gossip_def Let_def split: if_splits Option.bind_splits)

lemma clock_ok_queued: "send_queued d = Some (Inr d') \<Longrightarrow> clock_ok d' = clock_ok d"
  by (intro clock_ok_cong) (auto simp: send_queued_def give_up_def Let_def split: if_splits Option.bind_splits)

lemma clock_ok_periodically:
  assumes "send_periodically message d = Some (Inr d')" "clock_ok d"
  shows "clock_ok d'"
proof -
  have "previous_data_msg_ts d' \<in> insert (previous_data_msg_ts d) (sset (demo_times d))" "demo_times d' = stl (demo_times d)"
    using assms(1) shd_in_sset [of "demo_times d"]
    by (auto simp: send_periodically_def Let_def split: if_splits Option.bind_splits)
  then show ?thesis using assms(2) stl_subset_sset [of "demo_times d"] unfolding clock_ok_def by auto
qed

lemma and_then_Inr: "and_then r f = Some (Inr d') \<longleftrightarrow> (\<exists>d. r = Some (Inr d) \<and> f d = Some (Inr d'))"
  by (auto simp: and_then_def split: Option.bind_splits sum.splits)

lemma clock_ok_pass: "node_pass message d = Some (Inr d') \<Longrightarrow> clock_ok d \<Longrightarrow> clock_ok d'"
  by (auto simp: node_pass_def and_then_Inr clock_ok_poll clock_ok_tick clock_ok_queued clock_ok_periodically)

lemma send_periodically_goes_well:
  assumes inv: "demo_inv L opened d" and clock: "clock_ok d" and m: "length message \<le> 227"
  shows "goes_well L opened (send_periodically message d)"
proof -
  let ?t = "shd (demo_times d)" and ?d = "d\<lparr>demo_times := stl (demo_times d)\<rparr>"
  have t: "- (2 ^ 63) \<le> ?t" "?t < 2 ^ 63" using inv shd_in_sset [of "demo_times d"] by (auto simp: demo_inv_def)
  have inv': "demo_inv L opened ?d" using inv stl_subset_sset [of "demo_times d"] by (auto simp: demo_inv_def)
  obtain bs where bs: "demo_payload message ?t = Some bs" "length bs \<le> 256" using demo_payload_Some [OF m t] by simp
  have g: "gossip_inv L (demo_gossip d)" using inv by (simp add: demo_inv_def)
  have n: "unat (of_nat (length bs) :: u32) = length bs" using bs(2) by (simp add: unat_of_nat)
  then have "memcpy_src (Some bs) (unat (of_nat (length bs) :: u32)) = Some bs" by (simp add: memcpy_src_def mem_read_def)
  from pittacus_gossip_send_data_ok [OF g this] n bs(2) obtain r g' where
    r: "pittacus_gossip_send_data (demo_gossip d) (Some bs) (of_nat (length bs)) = Some (r, g')" "gossip_inv L g'"
    "state g' = state (demo_gossip d)" by auto
  have "demo_inv L opened (?d\<lparr>demo_gossip := g', previous_data_msg_ts := ?t\<rparr>)"
    using r(3) inv socket_calls(3) [OF r(1)] by (intro demo_inv_gossip [OF inv' r(2)]) (auto simp: demo_inv_def)
  moreover have "time_add (previous_data_msg_ts ?d) 5 = Some (previous_data_msg_ts d + 5)"
    using clock by (simp add: time_add_def clock_ok_def)
  ultimately show ?thesis using r(1) bs(1) inv' by (auto simp: send_periodically_def Let_def)
qed

text \<open>
  What both loops share: a pass that goes well whenever the network keeps to its bounds can be
  repeated any number of times.
\<close>

fun network_ok :: "nat \<Rightarrow> (demo \<Rightarrow> progress_of_main) \<Rightarrow> nat \<Rightarrow> demo \<Rightarrow> bool" where
  "network_ok L pass 0 d \<longleftrightarrow> True"
| "network_ok L pass (Suc n) d \<longleftrightarrow> poll_ok L d
     \<and> (case pass d of Some (Inr d') \<Rightarrow> network_ok L pass n d' | _ \<Rightarrow> True)"

locale event_loop =
  fixes L :: nat and opened :: "int list" and ready :: "demo \<Rightarrow> bool" and pass :: "demo \<Rightarrow> progress_of_main"
  assumes pass_goes_well: "demo_inv L opened d \<Longrightarrow> ready d \<Longrightarrow> poll_ok L d \<Longrightarrow> goes_well L opened (pass d)"
    and pass_ready: "pass d = Some (Inr d') \<Longrightarrow> ready d \<Longrightarrow> ready d'"
begin

lemma passes_go_well:
  "demo_inv L opened d \<Longrightarrow> ready d \<Longrightarrow> network_ok L pass n d \<Longrightarrow> goes_well L opened (passes pass n d)"
proof (induction n arbitrary: d)
  case (Suc n)
  then have "poll_ok L d" by simp
  from pass_goes_well [OF Suc.prems(1,2) this] show ?case
    using Suc pass_ready [OF _ Suc.prems(2)] by (auto intro!: goes_well_and_then)
qed simp

end

lemma seed_event_loop: "event_loop L opened (\<lambda>_. True) seed_pass"
  by unfold_locales
    (auto simp: seed_pass_def intro!: goes_well_and_then poll_socket_goes_well tick_gossip_goes_well send_queued_goes_well)

interpretation seed_loop: event_loop L opened "\<lambda>_. True" seed_pass for L opened
  by (rule seed_event_loop)

lemma node_pass_goes_well:
  assumes "demo_inv L opened d" "clock_ok d" "poll_ok L d" "length message \<le> 227"
  shows "goes_well L opened (node_pass message d)"
  unfolding node_pass_def
  using poll_socket_goes_well [OF assms(1,3)] assms(2,4)
  by (intro goes_well_and_then)
    (auto simp: and_then_Inr clock_ok_poll clock_ok_tick intro: tick_gossip_goes_well send_periodically_goes_well send_queued_goes_well)

interpretation node_loop: event_loop L opened clock_ok "node_pass (take 227 message)" for L opened message
  by unfold_locales (auto intro: node_pass_goes_well clock_ok_pass)

section \<open>From the start\<close>

lemma length_sockaddr_in [simp]: "length pad = 8 \<Longrightarrow> length (sockaddr_in port pad) = 16"
  by (simp add: sockaddr_in_def)

text \<open>What the descriptor's memory and the operating system are when the programs start.\<close>

definition start_ok :: "demo \<Rightarrow> pittacus_gossip \<Rightarrow> bool" where
  "start_ok d raw \<longleftrightarrow> raw_ok raw \<and> allocs_ok (genv raw) \<and> os_name_len (demo_os d) = 16
     \<and> 16 \<le> length (os_name (demo_os d)) \<and> (\<forall>t \<in> sset (demo_times d). - (2 ^ 63) \<le> t \<and> t < 2 ^ 63)"

lemma create_demo:
  assumes "start_ok d raw" "length pad = 8"
  shows "\<exists>r os. pittacus_gossip_create raw (demo_os d) (sockaddr_in port pad) 16 = Some (r, os)
     \<and> (r = None \<longrightarrow> os_open os = os_open (demo_os d))
     \<and> (\<forall>g. r = Some g \<longrightarrow> gossip_inv 16 g \<and> state g = STATE_INITIALIZED
          \<and> os_open os = socket g # os_open (demo_os d))"
  using pittacus_gossip_create_ok [of raw "sockaddr_in port pad" 16 "demo_os d"] assms
  by (auto simp: start_ok_def)

lemma join_demo:
  assumes "gossip_inv 16 g" "state g = STATE_INITIALIZED" "length pad = 8"
    "seeds = None \<and> n = 0 \<or> seeds = Some [(Some (sockaddr_in port pad), 16)] \<and> n = 1"
  shows "\<exists>g'. pittacus_gossip_join g seeds n = Some (0, g') \<and> gossip_inv 16 g' \<and> socket g' = socket g
           \<and> (state g' = STATE_JOINING \<or> state g' = STATE_CONNECTED)"
proof -
  have "\<forall>nodes. seeds = Some nodes \<longrightarrow> unat n \<le> length nodes \<and> (\<forall>(a, l) \<in> set nodes. dest_ok 16 a l)"
    using assms(3,4) by (auto simp: dest_ok_def)
  from pittacus_gossip_join_ok [OF assms(1,2) this] show ?thesis
    using socket_calls(4) by (fastforce split: if_splits)
qed

lemma node_start_goes_well:
  assumes start: "start_ok d raw" and pads: "length self_pad = 8" "length seed_pad = 8"
  shows "goes_well 16 (os_open (demo_os d)) (node_start d raw self_pad seed_pad)"
proof -
  obtain created os where c: "pittacus_gossip_create raw (demo_os d) (sockaddr_in 0 self_pad) 16 = Some (created, os)"
    "created = None \<longrightarrow> os_open os = os_open (demo_os d)"
    "\<And>g. created = Some g \<Longrightarrow> gossip_inv 16 g \<and> state g = STATE_INITIALIZED \<and> os_open os = socket g # os_open (demo_os d)"
    using create_demo [OF start pads(1)] by blast
  show ?thesis
  proof (cases created)
    case None
    then show ?thesis using c by (simp add: node_start_def Let_def)
  next
    case (Some g)
    note g = c(3) [OF Some]
    obtain g1 where g1: "pittacus_gossip_join g (Some [(Some (sockaddr_in 65000 seed_pad), 16)]) 1 = Some (0, g1)"
      "gossip_inv 16 g1" "socket g1 = socket g" "state g1 = STATE_JOINING \<or> state g1 = STATE_CONNECTED"
      using join_demo [of g seed_pad "Some [(Some (sockaddr_in 65000 seed_pad), 16)]" 1 65000] g pads(2) by auto
    let ?d = "d\<lparr>demo_os := os, demo_gossip := g1\<rparr>"
    have inv: "demo_inv 16 (os_open (demo_os d)) ?d" using g1 g start by (auto simp: demo_inv_def start_ok_def)
    obtain r g2 where r: "pittacus_gossip_process_send g1 = Some (r, g2)" "gossip_inv 16 g2" "state g2 = state g1"
      using pittacus_gossip_process_send_ok [OF g1(2)] g1(2) by (auto simp: loop_result_def)
    have inv2: "demo_inv 16 (os_open (demo_os d)) (?d\<lparr>demo_gossip := g2\<rparr>)"
      using r(3) g1(4) socket_calls(1) [OF r(1)] by (intro demo_inv_gossip [OF inv r(2)]) auto
    then have "demo_inv 16 (os_open (demo_os d)) (?d\<lparr>demo_gossip := g2, poll_interval := 1000,
        previous_data_msg_ts := shd (demo_times d), demo_times := stl (demo_times d)\<rparr>)"
      using stl_subset_sset [of "demo_times d"] by (auto simp: demo_inv_def)
    then show ?thesis
      using c(1) Some g1(1) r(1) give_up_goes_well [OF inv2] by (auto simp: node_start_def Let_def)
  qed
qed

lemma seed_start_goes_well:
  assumes start: "start_ok d raw" and pad: "length self_pad = 8"
  shows "goes_well 16 (os_open (demo_os d)) (seed_start d raw self_pad)"
proof -
  obtain created os where c: "pittacus_gossip_create raw (demo_os d) (sockaddr_in 65000 self_pad) 16 = Some (created, os)"
    "created = None \<longrightarrow> os_open os = os_open (demo_os d)"
    "\<And>g. created = Some g \<Longrightarrow> gossip_inv 16 g \<and> state g = STATE_INITIALIZED \<and> os_open os = socket g # os_open (demo_os d)"
    using create_demo [OF start pad] by blast
  show ?thesis
  proof (cases created)
    case None
    then show ?thesis using c by (simp add: seed_start_def Let_def)
  next
    case (Some g)
    note g = c(3) [OF Some]
    obtain g1 where "pittacus_gossip_join g None 0 = Some (0, g1)" "gossip_inv 16 g1" "socket g1 = socket g"
      "state g1 = STATE_JOINING \<or> state g1 = STATE_CONNECTED"
      using join_demo [of g self_pad None 0] g pad by auto
    then show ?thesis using c(1) Some g start by (auto simp: seed_start_def Let_def demo_inv_def start_ok_def)
  qed
qed

section \<open>Foreign datagrams\<close>

lemma foreign_rejected:
  assumes "received (in_buffer x) (in_buffer_size x)" "in_buffer_size x < 12 \<or> take 5 (in_buffer x) \<noteq> PROTOCOL_ID"
  shows "\<exists>r < 0. gossip_handle_new_message receiver g x = Some (r, g)"
proof (cases "in_buffer_size x < 12")
  case True
  then show ?thesis by (simp add: gossip_handle_new_message_def message_type_decode_def)
next
  case False
  then have invalid: "message_is_payload_valid (in_buffer x) (in_buffer_size x) t = Some False" for t
    using assms valid_received [OF assms(1)] by simp
  have "message_type_decode (in_buffer x) (in_buffer_size x) = Some (Inr (in_buffer x ! 5))"
    using False assms(1) by (simp add: message_type_decode_def arr_get_def received_def)
  then show ?thesis
    by (simp add: gossip_handle_new_message_def gossip_handle_hello_def gossip_handle_welcome_def
        gossip_handle_member_list_def gossip_handle_data_def gossip_handle_ack_def gossip_handle_status_def
        message_hello_decode_def message_welcome_decode_def message_member_list_decode_def message_data_decode_def
        message_ack_decode_def message_status_decode_def invalid)
qed

lemma receive_foreign:
  assumes inv: "gossip_inv L g" and st: "state g = STATE_JOINING \<or> state g = STATE_CONNECTED"
    and bs: "shd (env_recvs (genv g)) = Recv_Datagram bs src len" "take 5 bs \<noteq> PROTOCOL_ID"
  shows "\<exists>r e. r < 0 \<and> pittacus_gossip_process_receive receiver g = Some (r, g\<lparr>input_buffer := arrived g bs, genv := e\<rparr>)"
proof -
  have len: "length (input_buffer g) = INPUT_BUFFER_SIZE" using inv by (simp add: gossip_inv_def)
  let ?e = "(genv g)\<lparr>env_recvs := stl (env_recvs (genv g))\<rparr>"
  let ?x = "\<lparr>sender = src, sender_len = len, in_buffer = arrived g bs, in_buffer_size = min (length bs) INPUT_BUFFER_SIZE\<rparr>"
  have "received (in_buffer ?x) (in_buffer_size ?x)" using len by (auto simp: received_def arrived_def)
  moreover have "in_buffer_size ?x < 12 \<or> take 5 (in_buffer ?x) \<noteq> PROTOCOL_ID"
    using bs(2) by (auto simp: arrived_def min_def)
  ultimately obtain r where r: "r < 0"
    "gossip_handle_new_message receiver (g\<lparr>input_buffer := arrived g bs, genv := ?e\<rparr>) ?x
       = Some (r, g\<lparr>input_buffer := arrived g bs, genv := ?e\<rparr>)"
    using foreign_rejected [of ?x receiver "g\<lparr>input_buffer := arrived g bs, genv := ?e\<rparr>"] by blast
  then show ?thesis
    using process_receive_cases(2) [OF st len bs(1), of receiver] by (cases "bs = []") (auto simp: Let_def)
qed

lemma poll_socket_foreign:
  assumes inv: "demo_inv L opened d" and "shd (demo_polls d) = (1, POLLIN)"
    "shd (env_recvs (genv (demo_gossip d))) = Recv_Datagram bs src len" "take 5 bs \<noteq> PROTOCOL_ID"
  shows "\<exists>r os. r < 0 \<and> poll_socket d = Some (Inl (Receive_Failed r, os)) \<and> os_open os = opened"
proof -
  have g: "gossip_inv L (demo_gossip d)" "state (demo_gossip d) = STATE_JOINING \<or> state (demo_gossip d) = STATE_CONNECTED"
    using inv by (auto simp: demo_inv_def)
  obtain r e where r: "r < 0" "pittacus_gossip_process_receive (Some demo_data_receiver) (demo_gossip d) =
      Some (r, (demo_gossip d)\<lparr>input_buffer := arrived (demo_gossip d) bs, genv := e\<rparr>)"
    using receive_foreign [OF g assms(3,4)] by blast
  obtain s where "cluster_member_set_destroy (members (demo_gossip d)) = Some s"
    using set_destroy_ok [of "members (demo_gossip d)"] g(1) by (auto simp: gossip_inv_def)
  then show ?thesis
    using assms(2) inv r
    by (simp add: poll_socket_def Let_def give_up_def pittacus_gossip_destroy_def pt_close_def demo_inv_def)
qed

section \<open>Properties\<close>

definition ex_demo :: demo where
  "ex_demo = \<lparr>demo_gossip = ex_node, demo_os = ex_os, poll_interval = 0, previous_data_msg_ts = 0,
     demo_polls = sconst (0, 0), demo_times = sconst 1500000000\<rparr>"

lemma ex_demo_start [simp]: "start_ok ex_demo ex_node"
  using ex_node_inv
  by (simp add: start_ok_def ex_demo_def ex_os_def raw_ok_def gossip_inv_def log_inv_def)

lemma start_polls:
  "node_start d raw self_pad seed_pad = Some (Inr d') \<Longrightarrow> demo_polls d' = demo_polls d"
  "seed_start d raw self_pad = Some (Inr d') \<Longrightarrow> demo_polls d' = demo_polls d"
  by (auto simp: node_start_def seed_start_def give_up_def Let_def split: Option.bind_splits option.splits if_splits)

lemma ex_demo_quiet: "demo_polls d = demo_polls ex_demo \<Longrightarrow> network_ok L pass 1 d"
  by (simp add: poll_ok_def ex_demo_def split: option.split sum.split)

lemma node_start_clock:
  assumes "node_start d raw self_pad seed_pad = Some (Inr d')"
  shows "previous_data_msg_ts d' = shd (demo_times d)" "demo_times d' = stl (demo_times d)"
  using assms by (auto simp: node_start_def give_up_def Let_def split: Option.bind_splits option.splits if_splits)

text \<open>C25. The demo node, with a node id of at most 212 characters, runs as long as it likes. Given: no allocation
  fails, the name of a bound socket is an IPv4 address of 16 bytes, and the clock is more than five seconds away
  from the ends of a 64-bit \<^verbatim>\<open>time_t\<close> (\<open>start_ok\<close> and the third assumption); and each datagram that \<^verbatim>\<open>poll\<close>
  announces is within \<open>packet_ok\<close>, comes from an IPv4 address and its payload can be printed, with a member set far
  from its 32-bit limit (\<open>network_ok\<close>). Then, whatever \<^verbatim>\<open>poll\<close>, the clock, the random source and the
  socket calls answer otherwise, failing ones included, any number of passes of its loop touches no memory out of bounds,
  overflows no time and keeps a valid node that is joining or connected; when it ends instead, its socket is closed,
  except when the tick failed.\<close>

theorem demo_node_runs:
  assumes "length node_id \<le> 212" "start_ok d raw" "\<forall>t \<in> sset (demo_times d). t + 5 < 2 ^ 63"
    "length self_pad = 8" "length seed_pad = 8"
    "\<forall>message d'. demo_message node_id = Some message \<and> node_start d raw self_pad seed_pad = Some (Inr d') \<longrightarrow>
       network_ok 16 (node_pass message) n d'"
  shows "goes_well 16 (os_open (demo_os d)) (node_main node_id d raw self_pad seed_pad n)"
proof -
  obtain m where m: "demo_message node_id = Some m" "take 227 m = m"
    using assms(1) demo_message_Some [of node_id] by auto
  have "goes_well 16 (os_open (demo_os d)) (passes (node_pass m) n d')"
    if d': "node_start d raw self_pad seed_pad = Some (Inr d')" "demo_inv 16 (os_open (demo_os d)) d'" for d'
  proof -
    have "insert (shd (demo_times d)) (sset (stl (demo_times d))) \<subseteq> sset (demo_times d)"
      using shd_in_sset [of "demo_times d"] stl_subset_sset [of "demo_times d"] by blast
    then have "clock_ok d'"
      using assms(2,3) unfolding clock_ok_def node_start_clock [OF d'(1)] start_ok_def by blast
    then show ?thesis
      using node_loop.passes_go_well [OF d'(2), where message = m and n = n] assms(6) m d'(1) by auto
  qed
  then show ?thesis
    using m(1) node_start_goes_well [OF assms(2,4,5)] by (auto simp: node_main_def intro: goes_well_and_then)
qed

theorem demo_node_runs_witness:
  "goes_well 16 (os_open (demo_os ex_demo)) (node_main ''7'' ex_demo ex_node (replicate 8 0) (replicate 8 0) 1)"
  by (rule demo_node_runs) (simp, simp, simp add: ex_demo_def, simp, simp, use ex_demo_quiet start_polls(1) in blast)

text \<open>The demo's seed node runs as long as it likes in the same sense.\<close>

lemma demo_seed_runs:
  assumes "start_ok d raw" "length self_pad = 8"
    "\<forall>d'. seed_start d raw self_pad = Some (Inr d') \<longrightarrow> network_ok 16 seed_pass n d'"
  shows "goes_well 16 (os_open (demo_os d)) (seed_main d raw self_pad n)"
  using seed_start_goes_well [OF assms(1,2)] assms(3) seed_loop.passes_go_well
  by (auto simp: seed_main_def intro: goes_well_and_then)


text \<open>C26. One foreign datagram ends either demo: if \<^verbatim>\<open>poll\<close> announces it and it does not start with the
  protocol id, the pass that reads it makes \<^verbatim>\<open>main\<close> return, with the socket closed.\<close>

theorem demo_ends_on_foreign_datagram:
  assumes "demo_inv L opened d" "shd (demo_polls d) = (1, POLLIN)"
    "shd (env_recvs (genv (demo_gossip d))) = Recv_Datagram bs src len" "take 5 bs \<noteq> PROTOCOL_ID"
  shows "\<exists>r os. r < 0 \<and> os_open os = opened \<and> node_pass message d = Some (Inl (Receive_Failed r, os))
           \<and> seed_pass d = Some (Inl (Receive_Failed r, os))"
  using poll_socket_foreign [OF assms] by (auto simp: node_pass_def seed_pass_def and_then_def)

definition ex_attacked :: demo where
  "ex_attacked = ex_demo\<lparr>demo_polls := (1, POLLIN) ## sconst (0, 0), demo_os := ex_os\<lparr>os_open := [3, 0, 1]\<rparr>,
     demo_gossip := ex_node\<lparr>genv := ex_env\<lparr>env_recvs := Recv_Datagram [1, 2, 3] ex_addr 16 ## sconst Recv_Error\<rparr>\<rparr>\<rparr>"

lemma ex_attacked_inv: "demo_inv 16 [0, 1] ex_attacked"
proof -
  have "gossip_inv 16 (ex_node\<lparr>genv := ex_env\<lparr>env_recvs := rs\<rparr>\<rparr>)" for rs
    using gossip_inv_genv [OF ex_node_inv, of "ex_env\<lparr>env_recvs := rs\<rparr>"] by (simp add: allocs_ok_def ex_env_def)
  then show ?thesis by (simp add: demo_inv_def ex_attacked_def ex_demo_def) (simp add: ex_node_def)
qed

theorem demo_ends_on_foreign_datagram_witness:
  "\<exists>r os. r < 0 \<and> os_open os = [0, 1] \<and> node_pass ''x'' ex_attacked = Some (Inl (Receive_Failed r, os))
     \<and> seed_pass ex_attacked = Some (Inl (Receive_Failed r, os))"
  using demo_ends_on_foreign_datagram [OF ex_attacked_inv, of "[1, 2, 3]" ex_addr 16 "''x''"]
  by (simp add: ex_attacked_def PROTOCOL_ID_def)

text \<open>C31. What one demo publishes the other one prints: with a node id of at most 212 characters the
  line and its terminating zero fit into the arrays and into a message, and the callback prints
  exactly the line, whatever follows it in the input buffer.\<close>

theorem demo_prints_what_was_sent:
  assumes "length node_id \<le> 212" "\<forall>c \<in> set node_id. (of_char c :: nat) \<noteq> 0" "- (2 ^ 63) \<le> t" "t < 2 ^ 63"
  shows "\<exists>m p. demo_message node_id = Some m \<and> demo_payload m t = Some p \<and> 26 + length p \<le> MESSAGE_MAX_SIZE
     \<and> demo_data_receiver g (Some (p @ rest)) (length p) = Some (g\<lparr>genv := (genv g)\<lparr>env_app := env_app (genv g) @
          [bytes_of (''Data arrived: '' @ m @ '' (ts = '' @ format_ld t @ '')'') @ [10]]\<rparr>\<rparr>)"
proof -
  let ?m = "''['' @ node_id @ '']: '' @ ''Hello World''"
  let ?line = "?m @ '' (ts = '' @ format_ld t @ '')''"
  have m: "length ?m \<le> 227" using assms(1) by simp
  have "\<forall>c \<in> set ?line. (of_char c :: nat) \<noteq> 0" using assms(2) format_ld_not_zero [of t] by auto
  from takeWhile_bytes [OF this, of rest] show ?thesis
    using demo_message_Some [of node_id] assms(1) demo_payload_Some [OF m assms(3,4)]
    by (intro exI [of _ ?m] exI [of _ "bytes_of ?line @ [0]"]) (simp add: demo_data_receiver_def bytes_of_def)
qed

theorem demo_prints_what_was_sent_witness:
  "\<exists>m p. demo_message ''7'' = Some m \<and> demo_payload m 1500000000 = Some p \<and> 26 + length p \<le> MESSAGE_MAX_SIZE
     \<and> demo_data_receiver ex_node (Some (p @ [])) (length p) = Some (ex_node\<lparr>genv := (genv ex_node)\<lparr>env_app :=
          env_app (genv ex_node) @ [bytes_of (''Data arrived: '' @ m @ '' (ts = '' @ format_ld 1500000000 @ '')'') @ [10]]\<rparr>\<rparr>)"
  by (rule demo_prints_what_was_sent) simp_all

text \<open>A longer node id overflows the array the message is built in.\<close>

lemma demo_id_overflows:
  "240 < length node_id \<Longrightarrow> node_main node_id d raw self_pad seed_pad n = None"
  by (simp add: node_main_def demo_message_def sprintf_256_def)

end
