(* ===== verification/Pt_Cluster.thy ===== *)
theory Pt_Cluster
  imports Pt_Frame Pt_Sync
begin

text \<open>
  Several nodes and the network between them: whatever the network loses, repeats, delays or sends to
  the wrong node, what a node delivers, logs and claims to know was published by the node it names.
\<close>

section \<open>Messages on the wire\<close>

text \<open>The message with another number in its header, as it is sent for one of its envelopes.\<close>

fun with_seq :: "u32 \<Rightarrow> message \<Rightarrow> message" where
  "with_seq s (Hello m) = Hello (m\<lparr>hello_header := (hello_header m)\<lparr>header_sequence_num := s\<rparr>\<rparr>)"
| "with_seq s (Welcome m) = Welcome (m\<lparr>welcome_header := (welcome_header m)\<lparr>header_sequence_num := s\<rparr>\<rparr>)"
| "with_seq s (Member_List m) = Member_List (m\<lparr>member_list_header := (member_list_header m)\<lparr>header_sequence_num := s\<rparr>\<rparr>)"
| "with_seq s (Ack m) = Ack (m\<lparr>ack_header := (ack_header m)\<lparr>header_sequence_num := s\<rparr>\<rparr>)"
| "with_seq s (Data m) = Data (m\<lparr>data_header := (data_header m)\<lparr>header_sequence_num := s\<rparr>\<rparr>)"
| "with_seq s (Status m) = Status (m\<lparr>status_header := (status_header m)\<lparr>header_sequence_num := s\<rparr>\<rparr>)"

definition patch :: "u32 \<Rightarrow> u8 list \<Rightarrow> u8 list" where
  "patch s bs = take 8 bs @ be32 s @ drop 12 bs"

lemma header_ok_seq [simp]: "header_ok t (h\<lparr>header_sequence_num := s\<rparr>) = header_ok t h"
  by (simp add: header_ok_def)

lemma patch_header: "header_ok t h \<Longrightarrow> patch s (header_bytes h @ bs) = header_bytes (h\<lparr>header_sequence_num := s\<rparr>) @ bs"
  by (simp add: patch_def header_bytes_def header_ok_def)

lemma message_ok_with_seq [simp]: "message_ok L t (with_seq s m) = message_ok L t m"
  by (cases m) (auto simp: hello_valid_def welcome_valid_def list_valid_def ack_valid_def data_valid_def status_valid_def)

lemma message_bytes_with_seq:
  assumes "message_ok L t m"
  shows "message_bytes (with_seq s m) = patch s (message_bytes m)"
  using assms
  by (cases m)
    (auto simp: hello_valid_def welcome_valid_def list_valid_def ack_valid_def data_valid_def status_valid_def
      hello_bytes_def welcome_bytes_def list_msg_bytes_def ack_bytes_def data_msg_bytes_def status_bytes_def
      patch_header payload_def)

text \<open>Originator, number and payload of a data message, and how the message shows them.\<close>

type_synonym item = "member_id_t \<times> u32 \<times> u8 list"

definition item_of :: "message_data \<Rightarrow> item" where
  "item_of m = (member_id (data_record m), sequence_number (data_record m), payload m)"

lemma item_of_with_seq: "with_seq s m = Data d \<Longrightarrow> \<exists>d'. m = Data d' \<and> item_of d = item_of d'"
  by (cases m) (auto simp: item_of_def payload_def)

text \<open>
  A datagram is genuine when it starts like a message of a node, or is the start of one, and the
  message, if it is data, is among those in \<open>P\<close>. Longer and shorter datagrams arise when an envelope
  outlives the message it was queued for.
\<close>

definition genuine :: "nat \<Rightarrow> item set \<Rightarrow> u8 list \<Rightarrow> bool" where
  "genuine L P bs \<longleftrightarrow> (\<exists>t m. message_ok L t m \<and> (\<forall>d. m = Data d \<longrightarrow> item_of d \<in> P)
     \<and> (prefix bs (message_bytes m) \<or> prefix (message_bytes m) bs))"

lemma genuine_mono: "genuine L P bs \<Longrightarrow> P \<subseteq> Q \<Longrightarrow> genuine L Q bs"
  unfolding genuine_def by blast

text \<open>The bytes of a region, with a zero for the number that sending writes.\<close>

definition region_bytes :: "u8 list \<Rightarrow> nat \<Rightarrow> u8 list" where
  "region_bytes out off = patch 0 (region out off)"

lemma patch_patch [simp]: "8 \<le> length bs \<Longrightarrow> patch s (patch s' bs) = patch s bs"
  by (simp add: patch_def min_def)

lemma length_patch: "12 \<le> length bs \<Longrightarrow> length (patch s bs) = length bs"
  by (simp add: patch_def)

lemma patch_append: "12 \<le> length a \<Longrightarrow> patch s (a @ b) = patch s a @ b"
  by (simp add: patch_def)

lemma region_length:
  assumes "region_ok off" "length out = OUTPUT_BUFFER_SIZE"
  shows "length (region out off) = MESSAGE_MAX_SIZE"
  using region_div [OF assms(1)] assms by (auto simp: region_def)

lemma on_wire_region:
  assumes "envelope_ok L x"
  shows "on_wire out x = take (env_buffer_size x) (patch (sequence_num x) (region out (env_buffer x)))"
  using assms
  by (auto simp: envelope_ok_def on_wire_def patch_def region_def min_def drop_take add.commute take_Cons')

lemma message_bytes_ge:
  assumes "message_ok L t m"
  shows "12 \<le> length (message_bytes m)"
  using assms
  by (cases m)
    (auto simp: hello_bytes_def hello_valid_def welcome_bytes_def welcome_valid_def list_msg_bytes_def list_valid_def
      ack_bytes_def ack_valid_def data_msg_bytes_def data_valid_def status_bytes_def status_valid_def)

lemma genuine_with_seq:
  assumes "message_ok L t m" "\<forall>d. m = Data d \<longrightarrow> item_of d \<in> P"
    "prefix bs (patch s (message_bytes m)) \<or> prefix (patch s (message_bytes m)) bs"
  shows "genuine L P bs"
  unfolding genuine_def
  using assms message_bytes_with_seq [OF assms(1), of s] item_of_with_seq [of s m]
  by (intro exI [of _ t] exI [of _ "with_seq s m"]) auto

lemma prefix_patch:
  assumes "prefix a b" "12 \<le> length a"
  shows "prefix (patch s a) (patch s b)"
  using assms by (auto simp: prefix_def patch_append)

lemma genuine_sent:
  assumes x: "envelope_ok L x" and out: "length out = OUTPUT_BUFFER_SIZE" and g: "genuine L P (region_bytes out (env_buffer x))"
  shows "genuine L P (on_wire out x)"
proof -
  let ?R = "region out (env_buffer x)" and ?s = "sequence_num x"
  have R: "length ?R = 512" using region_length [OF _ out] x by (simp add: envelope_ok_def)
  obtain t m where m: "message_ok L t m" "\<forall>d. m = Data d \<longrightarrow> item_of d \<in> P"
    "prefix (patch 0 ?R) (message_bytes m) \<or> prefix (message_bytes m) (patch 0 ?R)"
    using g by (auto simp: genuine_def region_bytes_def)
  have "prefix (patch ?s ?R) (patch ?s (message_bytes m)) \<or> prefix (patch ?s (message_bytes m)) (patch ?s ?R)"
    using m(3) prefix_patch [of "patch 0 ?R" "message_bytes m" ?s] prefix_patch [of "message_bytes m" "patch 0 ?R" ?s]
      message_bytes_ge [OF m(1)] R by (auto simp: length_patch)
  moreover have "prefix (on_wire out x) (patch ?s ?R)" unfolding on_wire_region [OF x] by (rule take_is_prefix)
  ultimately show ?thesis
    by (intro genuine_with_seq [OF m(1,2), of _ ?s]) (meson prefix_order.trans prefix_same_cases)
qed

lemma genuine_written:
  assumes "message_ok L t m" "\<forall>d. m = Data d \<longrightarrow> item_of d \<in> P"
    "take (length (message_bytes m)) (region out off) = message_bytes m"
  shows "genuine L P (region_bytes out off)"
proof -
  have "prefix (message_bytes m) (region out off)" by (metis assms(3) take_is_prefix)
  from prefix_patch [OF this message_bytes_ge [OF assms(1)], of 0] show ?thesis
    unfolding region_bytes_def by (intro genuine_with_seq [OF assms(1,2), of _ 0]) blast
qed

text \<open>Writing the number of an envelope before it is sent does not count.\<close>

lemma region_bytes_patched:
  assumes "\<forall>y. envelope_ok L y \<longrightarrow> on_wire out' y = on_wire out y" "region_ok off" "L \<le> 128"
    "length out = OUTPUT_BUFFER_SIZE" "length out' = OUTPUT_BUFFER_SIZE"
  shows "region_bytes out' off = region_bytes out off"
proof -
  define y where "y = \<lparr>recipient = replicate L 0, recipient_len = of_nat L, env_buffer = off, env_buffer_size = 512,
     sequence_num = 0, attempt_ts = 0, attempt_num = 0, max_attempts = 1\<rparr>"
  have y: "envelope_ok L y" using assms(2,3) by (simp add: y_def envelope_ok_def unat_of_nat)
  have len: "length (region o' off) = 512" if "length o' = OUTPUT_BUFFER_SIZE" for o'
    using region_length [OF assms(2) that] by simp
  have "on_wire o' y = region_bytes o' off" if "length o' = OUTPUT_BUFFER_SIZE" for o'
    unfolding on_wire_region [OF y] using len [OF that] by (simp add: y_def region_bytes_def length_patch)
  then show ?thesis using assms(1,4,5) y by metis
qed

section \<open>A node that only repeats what was published\<close>

definition honest :: "nat \<Rightarrow> item set \<Rightarrow> pittacus_gossip \<Rightarrow> bool" where
  "honest L P g \<longleftrightarrow>
     (\<forall>x \<in> set (outbound_messages g). genuine L P (region_bytes (output_buffer g) (env_buffer x)))
     \<and> (\<forall>d \<in> set (env_wire (genv g)). genuine L P (snd d))
     \<and> (\<forall>i s p. log_map (gossip_log g) i = Some (s, p) \<longrightarrow> (i, s, p) \<in> P)
     \<and> (\<forall>i s. vc_map (data_version g) i = Some s \<longrightarrow> (\<exists>p. (i, s, p) \<in> P))
     \<and> (\<forall>p \<in> set (env_app (genv g)). \<exists>i s. (i, s, p) \<in> P)"

lemma honestD:
  assumes "honest L P g"
  shows "x \<in> set (outbound_messages g) \<Longrightarrow> genuine L P (region_bytes (output_buffer g) (env_buffer x))"
    "d \<in> set (env_wire (genv g)) \<Longrightarrow> genuine L P (snd d)"
    "log_map (gossip_log g) i = Some (s, p) \<Longrightarrow> (i, s, p) \<in> P"
    "vc_map (data_version g) i = Some s \<Longrightarrow> \<exists>p. (i, s, p) \<in> P"
    "p \<in> set (env_app (genv g)) \<Longrightarrow> \<exists>i s. (i, s, p) \<in> P"
  using assms by (auto simp: honest_def)

lemma honest_mono:
  assumes "honest L P g" "P \<subseteq> Q"
  shows "honest L Q g"
  using assms genuine_mono [OF _ assms(2)] unfolding honest_def by (meson subsetD)

lemma honest_same_data: "honest L P g \<Longrightarrow> same_data g g' \<Longrightarrow> honest L P g'"
  by (auto simp: honest_def same_data_def)

lemma honest_enqueued:
  assumes h: "honest L P g" and q: "enqueued L g m as g'" and m: "message_ok L t m" "\<forall>d. m = Data d \<longrightarrow> item_of d \<in> P"
  shows "honest L P g'"
proof -
  obtain off where off: "\<forall>k. region_ok k \<and> k \<noteq> off \<longrightarrow> region (output_buffer g') k = region (output_buffer g) k"
    "\<forall>x \<in> set (outbound_messages g'). x \<in> set (outbound_messages g) \<or> env_buffer x = off"
    "output_buffer g' = output_buffer g \<and> set (outbound_messages g') \<subseteq> set (outbound_messages g)
     \<or> take (length (message_bytes m)) (region (output_buffer g') off) = message_bytes m"
    using q by (auto simp: enqueued_def one_region_def)
  have "genuine L P (region_bytes (output_buffer g') (env_buffer x))" if x: "x \<in> set (outbound_messages g')" for x
  proof (cases "env_buffer x = off")
    case True
    then show ?thesis using off(3) genuine_written [OF m] honestD(1) [OF h] x by auto
  next
    case False
    have "region_ok (env_buffer x)" using q x by (auto simp: enqueued_def gossip_inv_def envelope_ok_def)
    then show ?thesis using False off(1,2) honestD(1) [OF h] x by (auto simp: region_bytes_def)
  qed
  moreover have "same_node g g'" using enqueued_inv [OF q] by simp
  ultimately show ?thesis using h unfolding honest_def same_node_def by auto
qed

lemma honest_evolves:
  assumes "evolves L g g'" "honest L P g"
  shows "honest L P g'"
  using assms
proof (induction rule: evolves.induct)
  case (queue g1 t m as g2)
  have "\<forall>d. m = Data d \<longrightarrow> item_of d \<in> P"
    using queue.hyps(3) honestD(3) [OF queue.IH [OF queue.prems]] by (auto simp: logged_def item_of_def)
  then show ?case using honest_enqueued queue by blast
qed (auto intro: honest_same_data)

text \<open>Sending: what goes out are the bytes of queued regions.\<close>

lemma honest_update [simp]:
  "honest L P (g\<lparr>members := s\<rparr>) = honest L P g" "honest L P (g\<lparr>state := st\<rparr>) = honest L P g"
  "honest L P (g\<lparr>last_gossip_ts := t\<rparr>) = honest L P g" "honest L P (g\<lparr>data_counter := k\<rparr>) = honest L P g"
  by (simp_all add: honest_def)

lemma honest_sending:
  assumes h: "honest L P (g\<lparr>outbound_messages := q\<rparr>)" and inv: "gossip_inv L (g\<lparr>outbound_messages := q\<rparr>)"
    and q': "\<And>y. y \<in> set q' \<Longrightarrow> \<exists>x \<in> set q. env_buffer y = env_buffer x"
    and out: "length out = OUTPUT_BUFFER_SIZE" "\<forall>y. envelope_ok L y \<longrightarrow> on_wire out y = on_wire (output_buffer g) y"
    and e: "env_wire e = env_wire (genv g) @ ds" "env_app e = env_app (genv g)"
      "\<And>d. d \<in> set ds \<Longrightarrow> \<exists>x \<in> set q. datagram_of (output_buffer g) x d"
  shows "honest L P (g\<lparr>output_buffer := out, genv := e, outbound_messages := q'\<rparr>)"
proof -
  have q: "\<forall>x \<in> set q. envelope_ok L x" and L: "L \<le> 128" and len: "length (output_buffer g) = OUTPUT_BUFFER_SIZE"
    using inv by (auto simp: gossip_inv_def)
  have old: "genuine L P (region_bytes (output_buffer g) (env_buffer x))" if "x \<in> set q" for x
    using honestD(1) [OF h] that by simp
  have "region_bytes out (env_buffer x) = region_bytes (output_buffer g) (env_buffer x)" if "x \<in> set q" for x
    using region_bytes_patched [OF out(2) _ L len out(1)] q that by (auto simp: envelope_ok_def)
  then have "\<forall>y \<in> set q'. genuine L P (region_bytes out (env_buffer y))" using q' old by metis
  moreover have "genuine L P (snd d)" if "d \<in> set ds" for d
    using e(3) [OF that] genuine_sent [OF _ len old] q by (auto simp: datagram_of_def)
  ultimately show ?thesis using h e(1,2) by (auto simp: honest_def)
qed

lemma honest_process_send_loop:
  assumes "honest L P (g\<lparr>outbound_messages := kept @ rest\<rparr>)" "gossip_inv L (g\<lparr>outbound_messages := kept @ rest\<rparr>)"
    "process_send_loop g n kept rest = Some (r, g')"
  shows "honest L P g'"
  using assms
proof (induction "length rest" arbitrary: g n kept rest rule: less_induct)
  case less
  show ?case
  proof (cases rest)
    case Nil
    then show ?thesis using less.prems by (auto simp: process_send_loop.simps)
  next
    case (Cons c rest')
    note h = less.prems(1) [unfolded Cons] and inv = less.prems(2) [unfolded Cons] and run = less.prems(3) [unfolded Cons]
    have len: "length (output_buffer g) = OUTPUT_BUFFER_SIZE" using inv by (simp add: gossip_inv_def)
    have IH: "honest L P (g1\<lparr>outbound_messages := k @ q\<rparr>) \<Longrightarrow> gossip_inv L (g1\<lparr>outbound_messages := k @ q\<rparr>) \<Longrightarrow>
        process_send_loop g1 n1 k q = Some (r, g') \<Longrightarrow> length q \<le> length rest' \<Longrightarrow> honest L P g'" for g1 n1 k q
      using less.hyps [of q k g1 n1] Cons by simp
    have same: "honest L P (g\<lparr>output_buffer := output_buffer g, genv := e, outbound_messages := q'\<rparr>)"
      if "set q' \<subseteq> set (kept @ c # rest')" "env_wire e = env_wire (genv g)" "env_app e = env_app (genv g)" for q' e
      using that by (intro honest_sending [OF h inv, where ds = "[]"] len) auto
    show ?thesis
    proof (cases rule: process_send_cases [OF inv, of n])
      case (1 s)
      let ?q = "dropWhile (\<lambda>x. recipient x = recipient c) rest'"
      have "honest L P (g\<lparr>outbound_messages := kept @ ?q\<rparr>)"
        using same [of "kept @ ?q" "genv g"] by (auto dest: set_dropWhileD)
      then have "honest L P (g\<lparr>members := s, outbound_messages := kept @ ?q\<rparr>)" by (simp add: honest_def)
      then show ?thesis using IH 1(3,4) run length_dropWhile_le by metis
    next
      case 2
      then show ?thesis using IH run same [of "kept @ rest'" "genv g"] by auto
    next
      case 3
      show ?thesis
        by (rule IH [OF _ 3(5)]) (use same [of "(kept @ [c]) @ rest'"] run 3(4) in auto)
    next
      case (4 out)
      have "length out = OUTPUT_BUFFER_SIZE" using 4(4) by (simp add: gossip_inv_def)
      then show ?thesis using 4(3,5) run by (auto intro!: honest_sending [OF h inv, where ds = "[]"])
    next
      case (5 out bs)
      have "length out = OUTPUT_BUFFER_SIZE" using 5(5) by (simp add: gossip_inv_def)
      then show ?thesis
        using run 5(3,7) unfolding 5(4)
        by (intro IH [OF _ 5(5)] honest_sending [OF h inv, where ds = "[(recipient c, bs)]"]) (auto split: if_splits)
    qed
  qed
qed

lemma honest_process_send:
  assumes "honest L P g" "gossip_inv L g" "pittacus_gossip_process_send g = Some (r, g')"
  shows "honest L P g'"
  using honest_process_send_loop [of L P "[]" "outbound_messages g" g 0 r g'] assms
  by (auto simp: pittacus_gossip_process_send_def split: if_splits)

section \<open>What arrives\<close>

lemma message_type_byte:
  assumes "message_ok L t m"
  shows "message_bytes m ! 5 = t"
proof -
  have "(header_bytes h @ bs) ! 5 = t'" if "header_ok t' h" for h t' bs
    using that by (simp add: header_ok_def header_bytes_def nth_append)
  then show ?thesis
    using assms
    by (cases m)
      (auto simp: hello_valid_def welcome_valid_def list_valid_def ack_valid_def data_valid_def status_valid_def
        hello_bytes_def welcome_bytes_def list_msg_bytes_def ack_bytes_def data_msg_bytes_def status_bytes_def)
qed

lemma data_fields:
  assumes "header_ok MESSAGE_DATA_TYPE h" "26 \<le> n"
    "message_data_decode (header_bytes h @ record_bytes r @ be16 sz @ rest) n = Some (Inr (k, m))"
  shows "data_record m = r" "data_size m = sz"
  using assms by (auto simp: message_data_decode_def codec_simps mem_simps Let_def split: if_splits)

text \<open>A genuine datagram that is taken for data is the whole of a data message.\<close>

lemma prefix_cases_take: "prefix a b \<or> prefix b a \<Longrightarrow> k \<le> length a \<Longrightarrow> k \<le> length b \<Longrightarrow> take k a = take k b"
  by (auto simp: prefix_def)

lemma genuine_decode:
  assumes rec: "received buf n" and g: "genuine L P (take n buf)" and dec: "message_data_decode buf n = Some (Inr (k, m))"
  shows "item_of m \<in> P"
proof -
  note m = message_data_decode_Inr [OF rec dec]
  have len: "length (take n buf) = n" using rec by (simp add: received_def)
  have type: "buf ! 5 = MESSAGE_DATA_TYPE"
    using dec valid_received [OF rec, of MESSAGE_DATA_TYPE] by (auto simp: message_data_decode_def split: if_splits)
  obtain t M where M: "message_ok L t M" "\<forall>d. M = Data d \<longrightarrow> item_of d \<in> P"
    "prefix (take n buf) (message_bytes M) \<or> prefix (message_bytes M) (take n buf)"
    using g by (auto simp: genuine_def)
  have "take 12 (take n buf) ! 5 = take 12 (message_bytes M) ! 5"
    using prefix_cases_take [OF M(3), of 12] message_bytes_ge [OF M(1)] m(2) len by simp
  then have "t = MESSAGE_DATA_TYPE" using message_type_byte [OF M(1)] type m(2) by simp
  then obtain d where d: "M = Data d" "data_valid d" using M(1) by (cases M) auto
  have h: "header_ok MESSAGE_DATA_TYPE (data_header d)" using d(2) by (simp add: data_valid_def)
  have lenM: "length (message_bytes M) = 26 + unat (data_size d)"
    using d(1) h payload_Some(2) [OF d(2)] by (simp add: data_msg_bytes_def)
  have "take 26 buf = take 26 (message_bytes M)"
    using prefix_cases_take [OF M(3), of 26] lenM m(2) len by simp
  also have "\<dots> = header_bytes (data_header d) @ record_bytes (data_record d) @ be16 (data_size d)"
    using d(1) h by (simp add: data_msg_bytes_def)
  finally have buf: "buf = header_bytes (data_header d) @ record_bytes (data_record d) @ be16 (data_size d) @ drop 26 buf"
    by (metis append.assoc append_take_drop_id)
  have "message_data_decode (header_bytes (data_header d) @ record_bytes (data_record d) @ be16 (data_size d) @ drop 26 buf) n =
      Some (Inr (k, m))" using dec by (simp flip: buf)
  note f = data_fields [OF h _ this]
  have n: "26 \<le> n" using m(2) by simp
  have whole: "take n buf = message_bytes M"
    using M(3) len lenM m(2) f(2) [OF n] by (metis prefix_cases_take order_refl take_all)
  have "payload m = take (unat (data_size m)) (drop 26 buf)"
    using payload_Some(1) [OF m(1)] m(4) by (auto simp: memcpy_src_def mem_read_def word_gt_0 split: if_splits)
  also have "\<dots> = drop 26 (take n buf)" using m(2) by (simp add: drop_take flip: m(2))
  also have "\<dots> = payload d" unfolding whole using d(1) h by (simp add: data_msg_bytes_def)
  finally show ?thesis using M(2) d(1) f n by (simp add: item_of_def)
qed

text \<open>Learning an item: it enters the version and the log.\<close>

lemma honest_learn:
  assumes "honest L P g" "item_of m \<in> P" "member_id (data_record m) = i" "sequence_number (data_record m) = s"
    "vc_map c = (vc_evict v (vc_map (data_version g)))(i \<mapsto> s)"
    "log_map l = (evict w (log_map (gossip_log g)))(i \<mapsto> (s, payload m))"
  shows "honest L P (g\<lparr>data_version := c, gossip_log := l\<rparr>)"
  using assms by (fastforce simp: honest_def item_of_def vc_evict_def evict_def split: option.splits if_splits)

lemma honest_handle_data:
  assumes h: "honest L P g" and inv: "gossip_inv L g" and x: "envelope_in_ok L g x"
    and P: "\<forall>k m. message_data_decode (in_buffer x) (in_buffer_size x) = Some (Inr (k, m)) \<longrightarrow> item_of m \<in> P"
    and run: "gossip_handle_data (Some recording_receiver) g x = Some (r, g')"
  shows "honest L P g'"
proof -
  note rec = envelope_in_received [OF inv x]
  show ?thesis
  proof (cases "state g = STATE_CONNECTED \<and> (\<exists>k m. message_data_decode (in_buffer x) (in_buffer_size x) = Some (Inr (k, m)))")
    case False
    then have "g' = g"
      using run message_data_decode_received [OF rec] by (auto simp: gossip_handle_data_def split: sum.splits if_splits)
    then show ?thesis using h by simp
  next
    case True
    then obtain k m where conn: "state g = STATE_CONNECTED" and dec: "message_data_decode (in_buffer x) (in_buffer_size x) = Some (Inr (k, m))"
      by blast
    note m = message_data_decode_Inr [OF rec dec]
    have item: "item_of m \<in> P" using P dec by blast
    have inv': "vc_inv (data_version g)" "log_inv (gossip_log g)" using inv by (auto simp: gossip_inv_def)
    from recording.handle_data_steps [OF inv x conn dec] obtain g1 v c where
      g1: "gossip_inv L g1" "same_node g g1" "evolves L g g1"
      and v: "vector_clock_compare_with_record (data_version g) (data_record m) True = Some (v, c)"
      and old: "v \<noteq> VC_BEFORE \<longrightarrow> gossip_handle_data (Some recording_receiver) g x = Some (0, g1\<lparr>data_version := c\<rparr>)"
      and new: "v = VC_BEFORE \<longrightarrow> (\<exists>l g4 m' as g5. gossip_data_log (gossip_log g) m = Some l
         \<and> recording_receiver (g1\<lparr>data_version := c, gossip_log := l\<rparr>) (data m) (unat (data_size m)) = Some g4
         \<and> m' = m\<lparr>data := map_option (\<lambda>_. drop 26 (input_buffer g4)) (data m)\<rparr> \<and> data_valid m'
         \<and> enqueued L g4 (Data m') as g5 \<and> gossip_handle_data (Some recording_receiver) g x = Some (0, g5))"
      unfolding option.case by blast
    have h1: "honest L P g1" by (rule honest_evolves [OF g1(3) h])
    have same: "data_version g1 = data_version g" "gossip_log g1 = gossip_log g" "input_buffer g1 = input_buffer g"
      using g1(2) by (auto simp: same_node_def)
    obtain w where c: "vc_map c = (if v = VC_BEFORE
        then (vc_evict w (vc_map (data_version g)))(member_id (data_record m) \<mapsto> sequence_number (data_record m))
        else vc_map (data_version g))"
      using vector_clock_compare_with_record_merge [OF inv'(1), of "data_record m"] v by auto
    show ?thesis
    proof (cases "v = VC_BEFORE")
      case False
      then show ?thesis using old run h1 c same by (auto simp: honest_def)
    next
      case before: True
      from new before obtain l g4 m' as g5 where
        l: "gossip_data_log (gossip_log g) m = Some l"
        and g4: "recording_receiver (g1\<lparr>data_version := c, gossip_log := l\<rparr>) (data m) (unat (data_size m)) = Some g4"
        and m': "m' = m\<lparr>data := map_option (\<lambda>_. drop 26 (input_buffer g4)) (data m)\<rparr>" "data_valid m'"
        and g5: "enqueued L g4 (Data m') as g5" "gossip_handle_data (Some recording_receiver) g x = Some (0, g5)"
        by blast
      have small: "unat (data_size m) \<le> MESSAGE_MAX_SIZE" using m(2) rec by (simp add: received_def)
      have h2: "honest L P (g1\<lparr>data_version := c, gossip_log := l\<rparr>)"
        using honest_learn [OF h1 item refl refl] c before gossip_data_log_ok [OF inv'(2) m(1) small] l same by auto
      have g4': "g4 = g1\<lparr>data_version := c, gossip_log := l,
          genv := (genv g1)\<lparr>env_app := env_app (genv g1) @ [payload m]\<rparr>\<rparr>"
        using g4 payload_Some(1) [OF m(1)] by (simp add: recording_receiver_def)
      have h4: "honest L P g4" using h2 item unfolding g4' by (auto simp: honest_def item_of_def)
      have "in_buffer x = input_buffer g" using x by (simp add: envelope_in_ok_def)
      then have "m' = m" using m(4) g4' same(3) by (auto simp: m'(1))
      then have "honest L P g5" using honest_enqueued [OF h4 g5(1), of MESSAGE_DATA_TYPE] m'(2) item by simp
      then show ?thesis using g5(2) run by simp
    qed
  qed
qed

lemma honest_handle_new_message:
  assumes h: "honest L P g" and inv: "gossip_inv L g" and x: "envelope_in_ok L g x"
    and P: "\<forall>k m. message_data_decode (in_buffer x) (in_buffer_size x) = Some (Inr (k, m)) \<longrightarrow> item_of m \<in> P"
    and run: "gossip_handle_new_message (Some recording_receiver) g x = Some (r, g')"
  shows "honest L P g'"
proof -
  note ok = gossip_handle_hello_ok [OF inv x] gossip_handle_welcome_ok [OF inv x] gossip_handle_member_list_ok [OF inv x]
    gossip_handle_ack_ok [OF inv x] gossip_handle_status_ok [OF inv x]
  have "evolves L g g' \<or> gossip_handle_data (Some recording_receiver) g x = Some (r, g')"
    using run ok by (auto simp: gossip_handle_new_message_def bind_eq_Some_conv split: if_splits)
  then show ?thesis using honest_evolves [OF _ h] honest_handle_data [OF h inv x P] by blast
qed

text \<open>A datagram is authentic when the data it may be taken for is in \<open>P\<close>.\<close>

definition authentic :: "item set \<Rightarrow> u8 list \<Rightarrow> bool" where
  "authentic P bs \<longleftrightarrow> (\<forall>buf n k m. received buf n \<and> take n buf = take INPUT_BUFFER_SIZE bs
     \<and> message_data_decode buf n = Some (Inr (k, m)) \<longrightarrow> item_of m \<in> P)"

lemma genuine_take: "genuine L P bs \<Longrightarrow> genuine L P (take k bs)"
  unfolding genuine_def by (meson take_is_prefix prefix_order.trans prefix_same_cases)

lemma genuine_authentic: "genuine L P bs \<Longrightarrow> authentic P bs"
  unfolding authentic_def using genuine_decode genuine_take by metis

lemma other_type_authentic:
  assumes "6 \<le> length bs" "bs ! 5 \<noteq> MESSAGE_DATA_TYPE"
  shows "authentic P bs"
proof -
  have "\<nexists>k m. message_data_decode buf n = Some (Inr (k, m))" if "received buf n" "take n buf = take INPUT_BUFFER_SIZE bs" for buf n
  proof -
    have "length (take n buf) = n" using that(1) by (simp add: received_def)
    then have "5 < n" using that(2) assms(1) by simp
    then have "buf ! 5 = bs ! 5" using arg_cong [OF that(2), of "\<lambda>l. l ! 5"] by simp
    then show ?thesis
      using assms(2) valid_received [OF that(1), of MESSAGE_DATA_TYPE] by (auto simp: message_data_decode_def split: if_splits)
  qed
  then show ?thesis unfolding authentic_def by blast
qed

lemma honest_process_receive:
  assumes h: "honest L P g" and inv: "gossip_inv L g" and r: "recv_ok L g"
    and P: "\<And>bs a l. shd (env_recvs (genv g)) = Recv_Datagram bs a l \<Longrightarrow> authentic P bs"
    and run: "pittacus_gossip_process_receive (Some recording_receiver) g = Some (res, g')"
  shows "honest L P g'"
proof (cases "state g = STATE_JOINING \<or> state g = STATE_CONNECTED")
  case False
  then show ?thesis using run h by (simp add: pittacus_gossip_process_receive_def)
next
  case True
  let ?e = "(genv g)\<lparr>env_recvs := stl (env_recvs (genv g))\<rparr>"
  have len: "length (input_buffer g) = INPUT_BUFFER_SIZE" using inv by (simp add: gossip_inv_def)
  note receive = process_receive_cases [OF True len, where receiver = "Some recording_receiver"]
  have al: "allocs_ok ?e" using inv allocs_ok_cong [of ?e "genv g"] by (simp add: gossip_inv_def)
  have h1: "honest L P (g\<lparr>input_buffer := i, genv := ?e\<rparr>)" for i using h by (simp add: honest_def)
  show ?thesis
  proof (cases "shd (env_recvs (genv g))")
    case Recv_Error
    then show ?thesis using receive(1) run h by (auto simp: honest_def)
  next
    case (Recv_Datagram bs src src_len)
    let ?g = "g\<lparr>input_buffer := arrived g bs, genv := ?e\<rparr>"
    let ?x = "\<lparr>sender = src, sender_len = src_len, in_buffer = arrived g bs, in_buffer_size = min (length bs) INPUT_BUFFER_SIZE\<rparr>"
    have l: "length (arrived g bs) = 512" using len by (auto simp: arrived_def)
    have inv1: "gossip_inv L ?g" and x: "envelope_in_ok L ?g ?x"
      using inv al r Recv_Datagram l by (simp_all add: gossip_inv_def recv_ok_def envelope_in_ok_def)
    have "received (arrived g bs) (min (length bs) INPUT_BUFFER_SIZE)" using l by (simp add: received_def)
    moreover have "take (min (length bs) INPUT_BUFFER_SIZE) (arrived g bs) = take INPUT_BUFFER_SIZE bs"
      by (simp add: arrived_def min_def)
    ultimately have "\<forall>k m. message_data_decode (in_buffer ?x) (in_buffer_size ?x) = Some (Inr (k, m)) \<longrightarrow> item_of m \<in> P"
      using P [OF Recv_Datagram] by (auto simp: authentic_def)
    note handled = honest_handle_new_message [OF h1 inv1 x this, of res g']
    show ?thesis
    proof (cases "bs = []")
      case True
      then show ?thesis using receive(2) [OF Recv_Datagram] run h1 [of "arrived g bs"] by (simp add: Let_def)
    next
      case False
      then show ?thesis using receive(2) [OF Recv_Datagram] run handled by (simp add: Let_def)
    qed
  qed
qed

section \<open>The other calls\<close>

lemma join_seeds_evolves:
  assumes "gossip_inv L g" "\<forall>(a, l) \<in> set nodes. dest_ok L a l" "join_seeds g nodes = Some (r, g')"
  shows "evolves L g g'"
  using assms
proof (induction nodes arbitrary: g)
  case Nil
  then show ?case by (auto simp: same_data_def gossip_inv_def intro!: evolves_other)
next
  case (Cons n nodes)
  obtain a l where n: "n = (a, l)" by (cases n)
  obtain g1 where g1: "gossip_enqueue_hello g a l = Some (0, g1)" "evolves L g g1" "gossip_inv L g1"
    using enqueue_evolves(3) [OF Cons.prems(1), of a l] Cons.prems(2) n by auto
  have "evolves L g1 g'" using Cons.IH [OF g1(3)] Cons.prems(2,3) g1(1) n by simp
  then show ?case using evolves_trans g1(2) by blast
qed

lemma honest_join:
  assumes "honest L P g" "gossip_inv L g" "call_ok L (Join seeds n) g" "pittacus_gossip_join g seeds n = Some (r, g')"
  shows "honest L P g'"
proof (cases seeds)
  case None
  then show ?thesis using assms(1,4) by (auto simp: pittacus_gossip_join_def split: if_splits)
next
  case (Some nodes)
  then have "\<forall>(a, l) \<in> set (take (unat n) nodes). dest_ok L a l" using assms(3) by (auto dest: in_set_takeD)
  from join_seeds_evolves [OF assms(2) this] honest_evolves [OF _ assms(1)] show ?thesis
    using assms(1,4) Some by (auto simp: pittacus_gossip_join_def split: if_splits)
qed

lemma honest_tick:
  assumes h: "honest L P g" and inv: "gossip_inv L g" and run: "pittacus_gossip_tick g = Some (r, g')"
  shows "honest L P g'"
proof -
  obtain now e where t: "pt_time (genv g) = (now, e)" by (cases "pt_time (genv g)")
  have h1: "honest L P (g\<lparr>genv := e\<rparr>)" using h pt_time_frame [OF t] by (simp add: honest_def)
  obtain m as g1 where g1: "gossip_enqueue_status (g\<lparr>genv := e\<rparr>) None 0 = Some (0, g1)"
    "enqueued L (g\<lparr>genv := e\<rparr>) (Status m) as g1" "status_valid m"
    using gossip_enqueue_status_ok [OF gossip_inv_time [OF inv t], of None 0] by blast
  have "honest L P g1" using honest_enqueued [OF h1 g1(2), of MESSAGE_STATUS_TYPE] g1(3) by simp
  then show ?thesis
    using run t g1(1) h h1 by (auto simp: pittacus_gossip_tick_def Let_def split: if_splits)
qed

lemma honest_send_data:
  assumes h: "honest L P g" and inv: "gossip_inv L g" and p: "memcpy_src bytes (unat n) = Some p" "unat n \<le> MESSAGE_MAX_SIZE"
    and run: "pittacus_gossip_send_data g bytes n = Some (r, g')" and conn: "state g = STATE_CONNECTED"
    and new: "(self_id g, data_counter g + 1, p) \<in> P"
  shows "honest L P g'"
proof -
  have n: "unat (ucast n :: u16) = unat n" using p(2) by (simp add: unsigned_ucast_eq unsigned_take_bit_eq take_bit_eq_mod)
  from gossip_enqueue_data_ok [OF inv, of bytes "ucast n" p] p n obtain g1 m as r1 g2 where
    g2: "gossip_enqueue_data g bytes (ucast n) = Some (r1, g2)" "enqueued L g1 (Data m) as g2"
    and m: "data_record m = \<lparr>sequence_number = data_counter g + 1, member_id = self_id g\<rparr>" "payload m = p" "data_valid m"
    and g1: "g1 = g\<lparr>data_counter := data_counter g + 1, data_version := data_version g2, gossip_log := gossip_log g2\<rparr>"
    and maps: "vc_map (data_version g2) = (vc_evict (vc_victim (data_version g) (self_id g)) (vc_map (data_version g)))
            (self_id g \<mapsto> data_counter g + 1)"
      "log_map (gossip_log g2) = (evict (log_victim (gossip_log g) (self_id g)) (log_map (gossip_log g)))
            (self_id g \<mapsto> (data_counter g + 1, p))" by metis
  have item: "item_of m \<in> P" using new m by (simp add: item_of_def)
  have "honest L P (g\<lparr>data_version := data_version g2, gossip_log := gossip_log g2\<rparr>)"
    using honest_learn [OF h item] m maps by auto
  then have "honest L P g1" unfolding g1 by (simp add: honest_def)
  then have "honest L P g2" using honest_enqueued [OF _ g2(2), of P MESSAGE_DATA_TYPE] m(3) item by simp
  then show ?thesis using run g2(1) conn by (simp add: pittacus_gossip_send_data_def)
qed

text \<open>What a call publishes.\<close>

fun publishes :: "api_call \<Rightarrow> pittacus_gossip \<Rightarrow> item set" where
  "publishes (Send_Data bytes n) g =
     (if state g = STATE_CONNECTED then {(self_id g, data_counter g + 1, the (memcpy_src bytes (unat n)))} else {})"
| "publishes _ g = {}"

lemma honest_api:
  assumes h: "honest L P g" and inv: "gossip_inv L g" and ok: "call_ok L c g"
    and P: "\<And>bs a l. c = Process_Receive \<Longrightarrow> shd (env_recvs (genv g)) = Recv_Datagram bs a l \<Longrightarrow> authentic P bs"
    and run: "api (Some recording_receiver) c g = Some (r, g')"
  shows "honest L (P \<union> publishes c g) g'"
proof (cases c)
  case (Send_Data bytes n)
  show ?thesis
  proof (cases "state g = STATE_CONNECTED")
    case True
    have h': "honest L (P \<union> publishes c g) g" by (rule honest_mono [OF h]) simp
    obtain p where p: "memcpy_src bytes (unat n) = Some p" "unat n \<le> MESSAGE_MAX_SIZE" using ok Send_Data by auto
    then show ?thesis using honest_send_data [OF h' inv p _ True] run Send_Data True by simp
  qed (use run h Send_Data in \<open>auto simp: pittacus_gossip_send_data_def\<close>)
next
  case Process_Receive
  then show ?thesis using honest_process_receive [OF h inv _ P] run ok by simp
qed (use run h ok honest_join [OF h inv] honest_process_send [OF h inv] honest_tick [OF h inv] in \<open>simp_all\<close>)

lemma fixed_api:
  assumes "api (Some recording_receiver) c g = Some (r, g')"
  shows "self_id g' = self_id g" "data_counter g' = (if publishes c g = {} then data_counter g else data_counter g + 1)"
proof -
  have rec: "recording_receiver g p n = Some g' \<Longrightarrow> fixed g' = fixed g" for g p n g'
    by (auto simp: recording_receiver_def split: Option.bind_splits)
  have "fixed g' = (if publishes c g = {} then fixed g else fixed (g\<lparr>data_counter := data_counter g + 1\<rparr>))"
    using assms fixed_process_receive [of recording_receiver g r g'] rec
    by (cases c) (auto dest: fixed_calls fixed_join fixed_send_data split: if_splits)
  then show "self_id g' = self_id g" "data_counter g' = (if publishes c g = {} then data_counter g else data_counter g + 1)"
    by (auto simp: fixed_def self_id_def split: if_splits)
qed

section \<open>Every queued message can be received\<close>

text \<open>How a receiver reads a message: with the decoder of its type, to the end, as the message that was sent.\<close>

fun reads_as :: "env \<Rightarrow> u8 list \<Rightarrow> nat \<Rightarrow> message \<Rightarrow> bool" where
  "reads_as e buf n (Hello m) \<longleftrightarrow> (\<exists>m' e'. message_hello_decode e buf n = Some (Inr (n, m'), e') \<and> hello_agrees m m')"
| "reads_as e buf n (Welcome m) \<longleftrightarrow> (\<exists>m' e'. message_welcome_decode e buf n = Some (Inr (n, m'), e') \<and> welcome_agrees m m')"
| "reads_as e buf n (Member_List m) \<longleftrightarrow>
     (\<exists>m' e'. message_member_list_decode e buf n = Some (Inr (n, m'), e') \<and> list_agrees m m')"
| "reads_as e buf n (Ack m) \<longleftrightarrow> message_ack_decode buf n = Some (Inr (n, m))"
| "reads_as e buf n (Data m) \<longleftrightarrow> (\<exists>m'. message_data_decode buf n = Some (Inr (n, m')) \<and> data_agrees m m')"
| "reads_as e buf n (Status m) \<longleftrightarrow>
     (\<exists>m'. message_status_decode buf n vector_clock_zero = Some (Inr (n, m')) \<and> status_agrees m m')"

lemma message_reads_as:
  assumes "message_ok L t m" "allocs_ok e" "length (message_bytes m) \<le> MESSAGE_MAX_SIZE"
  shows "reads_as e (message_bytes m @ rest) (length (message_bytes m)) m"
proof -
  have "length (message_bytes m) < 2 ^ 64" using assms(3) by simp
  then show ?thesis
    using assms(1,2) hello_codec.decode_bytes [of _ e rest] welcome_codec.decode_bytes [of _ e rest]
      member_list_codec.decode_bytes [of _ e rest] ack_codec.decode_bytes [of _ e rest] data_codec.decode_bytes [of _ e rest]
      status_codec.decode_bytes [of _ e rest]
    by (cases m) (fastforce simp: no_alloc_def)+
qed

lemma message_packet_ok:
  assumes m: "message_ok L t m" and small: "length (message_bytes m) \<le> MESSAGE_MAX_SIZE"
    and buf: "length (message_bytes m @ rest) = INPUT_BUFFER_SIZE"
  shows "packet_ok L (message_bytes m @ rest) (length (message_bytes m))"
proof -
  let ?b = "message_bytes m @ rest" and ?n = "length (message_bytes m)"
  have type: "?b ! 5 = t" using message_type_byte [OF m] message_bytes_ge [OF m] by (simp add: nth_append)
  show ?thesis
  proof (cases m)
    case (Hello h)
    then have h: "header_ok MESSAGE_HELLO_TYPE (hello_header h)" "member_ok (hello_this_member h)"
      "unat (address_len (hello_this_member h)) = L" using m by (auto simp: hello_valid_def)
    have "uint32_decode ?b 18 = Some (address_len (hello_this_member h))"
      using Hello h(1) by (simp add: hello_bytes_def member_bytes_def codec_simps)
    moreover have "22 + L \<le> length ?b" using Hello h by (simp add: hello_bytes_def length_member_bytes)
    ultimately show ?thesis using type m Hello h(3) at_decode(2) [of ?b 18] by (auto simp: packet_ok_def)
  next
    case (Welcome w)
    then have h: "header_ok MESSAGE_WELCOME_TYPE (welcome_header w)" "member_ok (welcome_this_member w)"
      "unat (address_len (welcome_this_member w)) = L" using m by (auto simp: welcome_valid_def)
    have "uint32_decode ?b 22 = Some (address_len (welcome_this_member w))"
      using Welcome h(1) by (simp add: welcome_bytes_def member_bytes_def codec_simps)
    moreover have "26 + L \<le> length ?b" using Welcome h by (simp add: welcome_bytes_def length_member_bytes)
    ultimately show ?thesis using type m Welcome h(3) at_decode(2) [of ?b 22] by (auto simp: packet_ok_def)
  next
    case (Status v)
    have "uint16_decode ?b 12 = Some (of_nat (vc_size (status_version v)))" "vc_size (status_version v) \<le> MAX_VECTOR_SIZE"
      using m Status by (auto simp: status_bytes_def status_valid_def clock_bytes_def vc_wf_def codec_simps)
    then show ?thesis using type m Status at_decode(1) [of ?b 12] by (auto simp: packet_ok_def unat_of_nat)
  next
    case (Member_List l)
    let ?ms = "list_members l"
    have l: "header_ok MESSAGE_MEMBER_LIST_TYPE (member_list_header l)" "unat (members_n l) = length ?ms"
      "\<forall>x \<in> set ?ms. member_ok x" "\<forall>x \<in> set ?ms. unat (address_len x) = L"
      using m Member_List by (auto simp: list_valid_def)
    obtain ms' where ms': "decode_members ?b ?n (length ?ms) 14 [] = Some (Inr (?n, ms'))" "list_all2 same_member ?ms ms'"
      using decode_members_bytes [of ?ms "header_bytes (member_list_header l) @ be16 (members_n l)"
          "length (list_msg_bytes l)" rest "[]"] l small Member_List
      by (auto simp: list_msg_bytes_def)
    have fam: "\<forall>x \<in> set ms'. unat (address_len x) = L"
      using ms'(2) l(4) by (induction rule: list_all2_induct) (auto simp: same_member_def member_key_def)
    have "uint16_decode ?b 12 = Some (members_n l)"
      using Member_List l(1) by (simp add: list_msg_bytes_def codec_simps)
    then have n: "u16_at ?b 12 = length ?ms" using at_decode(1) l(2) by fastforce
    have "members_within ?b ?n (length ?ms) 14 \<and> (\<forall>k \<in> set (announced_lengths ?b (length ?ms) 14). k = L)"
    proof -
      have "if members_within ?b ?n (length ?ms) 14
        then if list_cut ?b ?n (length ?ms) 14 then decode_members ?b ?n (length ?ms) 14 [] = Some (Inl PITTACUS_ERR_BUFFER_NOT_ENOUGH)
          else \<exists>c ms. decode_members ?b ?n (length ?ms) 14 [] = Some (Inr (c, [] @ ms)) \<and> (\<forall>m \<in> set ms. member_ok m)
            \<and> map (\<lambda>m. unat (address_len m)) ms = announced_lengths ?b (length ?ms) 14
        else decode_members ?b ?n (length ?ms) 14 [] = None"
        by (rule decode_members_at [OF buf small]) simp
      then have "members_within ?b ?n (length ?ms) 14" "announced_lengths ?b (length ?ms) 14 = map (\<lambda>m. unat (address_len m)) ms'"
        using ms'(1) by (auto split: if_splits)
      then show ?thesis using fam by auto
    qed
    then show ?thesis using type m Member_List n by (auto simp: packet_ok_def)
  qed (use type m in \<open>auto simp: packet_ok_def\<close>)
qed

lemma carried_bytes:
  assumes "carries out m x" "message_ok L t m" "envelope_ok L x"
  shows "on_wire out x = message_bytes (with_seq (sequence_num x) m)"
proof -
  let ?R = "region out (env_buffer x)" and ?n = "length (message_bytes m)"
  have n: "env_buffer_size x = ?n" "12 \<le> ?n" "?n \<le> 512"
    using assms message_bytes_ge [OF assms(2)] by (auto simp: carries_def envelope_ok_def)
  have R: "take ?n ?R = message_bytes m" using assms(1) n by (simp add: carries_def region_def min_def)
  then have "?R = message_bytes m @ drop ?n ?R" by (metis append_take_drop_id)
  then have "patch s ?R = patch s (message_bytes m) @ drop ?n ?R" for s using patch_append [OF n(2)] by metis
  then show ?thesis
    using on_wire_region [OF assms(3)] n by (simp add: message_bytes_with_seq [OF assms(2)] length_patch)
qed

section \<open>The cluster\<close>

text \<open>
  The nodes, each with its own view of the operating system, and a record of what was published: the
  payloads the applications handed to connected nodes, with the publishing node's id and the number it
  gave them.
\<close>

record cluster =
  nodes :: "pittacus_gossip list"
  published :: "item set"

text \<open>
  What the network may hand to a node: an error, any datagram that some node ever sent, or a datagram
  from outside the cluster that is not of the data type.
\<close>

fun offered :: "cluster \<Rightarrow> recv_answer \<Rightarrow> bool" where
  "offered C Recv_Error \<longleftrightarrow> True"
| "offered C (Recv_Datagram bs from len) \<longleftrightarrow> (\<exists>g \<in> set (nodes C). \<exists>a. (a, bs) \<in> set (env_wire (genv g)))
     \<or> 6 \<le> length bs \<and> bs ! 5 \<noteq> MESSAGE_DATA_TYPE"

definition with_offer :: "recv_answer \<Rightarrow> pittacus_gossip \<Rightarrow> pittacus_gossip" where
  "with_offer ev g = g\<lparr>genv := (genv g)\<lparr>env_recvs := ev ## env_recvs (genv g)\<rparr>\<rparr>"

text \<open>
  One step: an application calls its node, or a node receives. The counter of published data is 32
  bits wide; a step that would wrap it is not taken.
\<close>

inductive cluster_step :: "nat \<Rightarrow> cluster \<Rightarrow> cluster \<Rightarrow> bool" for L where
  call: "i < length (nodes C) \<Longrightarrow> g = nodes C ! i \<Longrightarrow> c \<noteq> Process_Receive \<Longrightarrow> call_ok L c g \<Longrightarrow> data_counter g + 1 \<noteq> 0 \<Longrightarrow>
     api (Some recording_receiver) c g = Some (r, g') \<Longrightarrow>
     cluster_step L C \<lparr>nodes = (nodes C)[i := g'], published = published C \<union> publishes c g\<rparr>"
| receive: "i < length (nodes C) \<Longrightarrow> g = with_offer ev (nodes C ! i) \<Longrightarrow> offered C ev \<Longrightarrow> recv_ok L g \<Longrightarrow>
     pittacus_gossip_process_receive (Some recording_receiver) g = Some (r, g') \<Longrightarrow>
     cluster_step L C (C\<lparr>nodes := (nodes C)[i := g']\<rparr>)"

text \<open>The beginning: nodes as they are created, with different ids.\<close>

definition fresh_node :: "nat \<Rightarrow> pittacus_gossip \<Rightarrow> bool" where
  "fresh_node L g \<longleftrightarrow> gossip_inv L g \<and> state g = STATE_INITIALIZED \<and> outbound_messages g = []
     \<and> vc_map (data_version g) = Map.empty \<and> log_map (gossip_log g) = Map.empty
     \<and> env_wire (genv g) = [] \<and> env_app (genv g) = []"

definition cluster_start :: "nat \<Rightarrow> cluster \<Rightarrow> bool" where
  "cluster_start L C \<longleftrightarrow> (\<forall>g \<in> set (nodes C). fresh_node L g) \<and> distinct (map self_id (nodes C)) \<and> published C = {}"

definition cluster_inv :: "nat \<Rightarrow> cluster \<Rightarrow> bool" where
  "cluster_inv L C \<longleftrightarrow> (\<forall>g \<in> set (nodes C). gossip_inv L g \<and> honest L (published C) g)
     \<and> distinct (map self_id (nodes C))
     \<and> (\<forall>k s p. (k, s, p) \<in> published C \<longrightarrow> (\<exists>g \<in> set (nodes C). k = self_id g \<and> s \<le> data_counter g))
     \<and> (\<forall>k s p p'. (k, s, p) \<in> published C \<and> (k, s, p') \<in> published C \<longrightarrow> p = p')"

lemma cluster_start_inv: "cluster_start L C \<Longrightarrow> cluster_inv L C"
  by (auto simp: cluster_start_def cluster_inv_def fresh_node_def honest_def)

text \<open>A step of node \<open>i\<close> that publishes \<open>Q\<close>, nothing or one item with the next number.\<close>

lemma cluster_inv_step:
  assumes C: "cluster_inv L C" and i: "i < length (nodes C)" "g = nodes C ! i"
    and g': "gossip_inv L g'" "honest L (published C \<union> Q) g'" "self_id g' = self_id g"
    and Q: "Q = {} \<and> data_counter g' = data_counter g \<or>
      (\<exists>p. Q = {(self_id g, data_counter g + 1, p)}) \<and> data_counter g' = data_counter g + 1 \<and> data_counter g + 1 \<noteq> 0"
  shows "cluster_inv L \<lparr>nodes = (nodes C)[i := g'], published = published C \<union> Q\<rparr>"
proof -
  let ?ns = "(nodes C)[i := g']"
  have g: "g \<in> set (nodes C)" and g'_in: "g' \<in> set ?ns" using i by (auto intro: set_update_memI)
  have "map self_id ?ns = map self_id (nodes C)" using g'(3) i by (metis list_update_id map_update)
  moreover have distinct: "distinct (map self_id (nodes C))" using C by (simp add: cluster_inv_def)
  ultimately have ids: "distinct (map self_id ?ns)" by simp
  have unique: "x = g" if "x \<in> set (nodes C)" "self_id x = self_id g" for x
    using distinct that g by (simp add: distinct_map inj_on_def)
  have stay: "x = g \<or> x \<in> set ?ns" if "x \<in> set (nodes C)" for x
    using that i by (auto simp: in_set_conv_nth nth_list_update)
  have pub: "\<exists>x \<in> set (nodes C). k = self_id x \<and> s \<le> data_counter x" if "(k, s, p) \<in> published C" for k s p
    using C that unfolding cluster_inv_def by blast
  have next_num: "s < data_counter g'" if "s \<le> data_counter g" "Q \<noteq> {}" for s
    using that Q unatSuc [of "data_counter g"] by (auto simp: word_le_nat_alt word_less_nat_alt add.commute)
  have new: "(self_id g, data_counter g', p) \<notin> published C" if "Q \<noteq> {}" for p
    using pub [of "self_id g" "data_counter g'" p] unique next_num [of "data_counter g'"] that by auto
  have "\<exists>x \<in> set ?ns. k = self_id x \<and> s \<le> data_counter x" if "(k, s, p) \<in> published C \<union> Q" for k s p
  proof (cases "(k, s, p) \<in> published C")
    case True
    then obtain x where x: "x \<in> set (nodes C)" "k = self_id x" "s \<le> data_counter x" using pub by blast
    have "s \<le> data_counter g \<Longrightarrow> s \<le> data_counter g'" using next_num [of s] Q by auto
    then show ?thesis using stay [OF x(1)] x g'(3) g'_in by metis
  next
    case False
    then show ?thesis using that Q g'(3) g'_in by (intro bexI [of _ g']) auto
  qed
  moreover have "p = p'" if "(k, s, p) \<in> published C \<union> Q" "(k, s, p') \<in> published C \<union> Q" for k s p p'
    using that Q C new by (auto simp: cluster_inv_def)
  moreover have "gossip_inv L x \<and> honest L (published C \<union> Q) x" if "x \<in> set ?ns" for x
    using that C g'(1,2) honest_mono [of L "published C" x] set_update_subset_insert [of "nodes C" i g']
    by (auto simp: cluster_inv_def)
  ultimately show ?thesis using ids unfolding cluster_inv_def cluster.select_convs by blast
qed

lemma with_offer_ok:
  assumes "gossip_inv L g"
  shows "gossip_inv L (with_offer ev g)" "honest L P (with_offer ev g) = honest L P g"
    "self_id (with_offer ev g) = self_id g" "data_counter (with_offer ev g) = data_counter g"
    "shd (env_recvs (genv (with_offer ev g))) = ev"
  using assms allocs_ok_cong [of "(genv g)\<lparr>env_recvs := ev ## env_recvs (genv g)\<rparr>" "genv g"]
  by (simp_all add: with_offer_def gossip_inv_def honest_def self_id_def)

lemma offered_authentic:
  assumes "cluster_inv L C" "offered C (Recv_Datagram bs a l)"
  shows "authentic (published C) bs"
proof (cases "\<exists>g \<in> set (nodes C). \<exists>a. (a, bs) \<in> set (env_wire (genv g))")
  case True
  then obtain g a where "g \<in> set (nodes C)" "(a, bs) \<in> set (env_wire (genv g))" by blast
  moreover from this have "honest L (published C) g" using assms(1) by (simp add: cluster_inv_def)
  ultimately show ?thesis using honestD(2) genuine_authentic by fastforce
next
  case False
  then show ?thesis using assms(2) other_type_authentic by auto
qed

lemma cluster_step_inv:
  assumes "cluster_step L C C'" "cluster_inv L C"
  shows "cluster_inv L C'"
  using assms
proof (induction rule: cluster_step.induct)
  case (call i C g c r g')
  have g: "gossip_inv L g" "honest L (published C) g" using call by (simp_all add: cluster_inv_def)
  have "gossip_inv L g'" using recording.api_ok [OF g(1) call.hyps(4)] call.hyps(6) by auto
  moreover have "honest L (published C \<union> publishes c g) g'"
    using honest_api [OF g(2,1) call.hyps(4) _ call.hyps(6)] call.hyps(3) by simp
  moreover have "publishes c g = {} \<or> (\<exists>p. publishes c g = {(self_id g, data_counter g + 1, p)})"
    by (cases c) auto
  ultimately show ?case
    using fixed_api [OF call.hyps(6)] call.hyps(5) by (intro cluster_inv_step [OF call.prems call.hyps(1,2)]) auto
next
  case (receive i C g ev r g')
  have g0: "gossip_inv L (nodes C ! i)" "honest L (published C) (nodes C ! i)" using receive by (simp_all add: cluster_inv_def)
  note g = with_offer_ok [OF g0(1), where ev = ev, folded receive.hyps(2)]
  have run: "api (Some recording_receiver) Process_Receive g = Some (r, g')" using receive.hyps(5) by simp
  have inv': "gossip_inv L g'" using recording.process_receive_ok [OF g(1) receive.hyps(4)] receive.hyps(5) by auto
  have "authentic (published C) bs" if "shd (env_recvs (genv g)) = Recv_Datagram bs a l" for bs a l
    using offered_authentic [OF receive.prems, of bs a l] receive.hyps(3) that g(5) by metis
  then have h': "honest L (published C) g'"
    using honest_process_receive [OF _ g(1) receive.hyps(4) _ receive.hyps(5), of "published C"] g0(2) g(2) by blast
  have "cluster_inv L \<lparr>nodes = (nodes C)[i := g'], published = published C \<union> {}\<rparr>"
    using fixed_api [OF run] g h' by (intro cluster_inv_step [OF receive.prems receive.hyps(1) refl inv']) auto
  then show ?case by (cases C) simp
qed

lemma cluster_reachable_inv:
  assumes "(cluster_step L)\<^sup>*\<^sup>* C0 C" "cluster_start L C0"
  shows "cluster_inv L C"
  using assms(1) by (induction rule: rtranclp_induct) (auto intro: cluster_start_inv [OF assms(2)] cluster_step_inv)

section \<open>Properties\<close>

text \<open>Two new nodes with different ports.\<close>

definition ex_fresh :: "u8 \<Rightarrow> pittacus_gossip" where
  "ex_fresh port = ex_node\<lparr>state := STATE_INITIALIZED, data_version := ex_clock [],
     self_address := ex_member\<lparr>address := Some (ex_addr[3 := port])\<rparr>\<rparr>"

definition ex_cluster :: cluster where
  "ex_cluster = \<lparr>nodes = [ex_fresh 1, ex_fresh 2], published = {}\<rparr>"

lemma ex_fresh_node: "fresh_node 16 (ex_fresh port)"
proof -
  have "member_fam 16 (ex_member\<lparr>address := Some (ex_addr[3 := port])\<rparr>)"
    by (simp add: member_fam_def member_ok_def)
  then have "gossip_inv 16 (ex_fresh port)" using ex_node_inv by (simp add: ex_fresh_def gossip_inv_def)
  then show ?thesis
    by (simp add: fresh_node_def) (simp add: ex_fresh_def ex_node_def ex_env_def ex_log_def log_map_def table_map_def fun_eq_iff)
qed

lemma ex_fresh_ids: "self_id (ex_fresh 1) \<noteq> self_id (ex_fresh 2)"
proof -
  have "vector_clock_create_member_id (ex_member\<lparr>address := Some (ex_addr[3 := 1])\<rparr>) \<noteq>
      vector_clock_create_member_id (ex_member\<lparr>address := Some (ex_addr[3 := 2])\<rparr>)" by code_simp
  moreover have "vector_clock_create_member_id (self_address (ex_fresh p)) = Some (self_id (ex_fresh p))" for p
    using ex_fresh_node [of p] by (intro self_id_defined [of 16]) (simp add: fresh_node_def)
  ultimately show ?thesis by (auto simp: ex_fresh_def)
qed

lemma ex_cluster_start: "cluster_start 16 ex_cluster"
  using ex_fresh_ids by (simp add: cluster_start_def ex_cluster_def ex_fresh_node)

text \<open>The first node joins alone and publishes three bytes.\<close>

lemma ex_fresh_facts: "data_counter (ex_fresh p) = 0" "state (ex_fresh p) = STATE_INITIALIZED" "gossip_inv 16 (ex_fresh p)"
  by (simp add: ex_fresh_def ex_node_def) (use ex_fresh_node [of p] in \<open>simp_all add: fresh_node_def\<close>)

definition ex_connected :: pittacus_gossip where
  "ex_connected = (ex_fresh 1)\<lparr>state := STATE_CONNECTED\<rparr>"

lemma ex_connected_facts:
  "data_counter ex_connected = 0" "state ex_connected = STATE_CONNECTED" "self_id ex_connected = self_id (ex_fresh 1)"
  "gossip_inv 16 ex_connected"
  using ex_fresh_facts [of 1] by (simp_all add: ex_connected_def gossip_inv_def self_id_def)

lemma ex_joins: "cluster_step 16 ex_cluster \<lparr>nodes = [ex_connected, ex_fresh 2], published = {}\<rparr>"
proof -
  have "cluster_step 16 ex_cluster \<lparr>nodes = (nodes ex_cluster)[0 := ex_connected],
      published = published ex_cluster \<union> publishes (Join None 0) (ex_fresh 1)\<rparr>"
    by (rule cluster_step.call [where r = 0])
      (simp_all add: ex_cluster_def ex_fresh_facts pittacus_gossip_join_def ex_connected_def)
  then show ?thesis by (simp add: ex_cluster_def)
qed

lemma ex_publishes:
  obtains g where "cluster_step 16 \<lparr>nodes = [ex_connected, ex_fresh 2], published = {}\<rparr>
    \<lparr>nodes = [g, ex_fresh 2], published = {(self_id (ex_fresh 1), 1, [1, 2, 3])}\<rparr>"
proof -
  let ?c = "Send_Data (Some [1, 2, 3]) 3" and ?C = "\<lparr>nodes = [ex_connected, ex_fresh 2], published = {}\<rparr> :: cluster"
  have ok: "call_ok 16 ?c ex_connected" by (simp add: memcpy_src_def mem_read_def)
  obtain r g where "api (Some recording_receiver) ?c ex_connected = Some (r, g)"
    using recording.api_ok [OF ex_connected_facts(4) ok] by blast
  then have "cluster_step 16 ?C \<lparr>nodes = (nodes ?C)[0 := g], published = published ?C \<union> publishes ?c ex_connected\<rparr>"
    using ok by (intro cluster_step.call) (simp_all add: ex_connected_facts)
  with that show thesis by (simp add: ex_connected_facts memcpy_src_def mem_read_def)
qed

lemma ex_cluster_run:
  obtains C where "(cluster_step 16)\<^sup>*\<^sup>* ex_cluster C" "published C = {(self_id (ex_fresh 1), 1, [1, 2, 3])}"
    "nodes C \<noteq> []"
proof (rule ex_publishes)
  fix g assume "cluster_step 16 \<lparr>nodes = [ex_connected, ex_fresh 2], published = {}\<rparr>
    \<lparr>nodes = [g, ex_fresh 2], published = {(self_id (ex_fresh 1), 1, [1, 2, 3])}\<rparr>"
  with r_into_rtranclp [of "cluster_step 16", OF ex_joins]
  have "(cluster_step 16)\<^sup>*\<^sup>* ex_cluster \<lparr>nodes = [g, ex_fresh 2], published = {(self_id (ex_fresh 1), 1, [1, 2, 3])}\<rparr>"
    by (rule rtranclp.rtrancl_into_rtrancl)
  then show thesis by (rule that) simp_all
qed

text \<open>C2. A cluster of new nodes with different ids and addresses of one length, in any interleaving of their
  applications' calls and of received datagrams: any datagram a node wrote, however often, late, out of order or to the
  wrong node it arrives, and any other one of at least 6 bytes whose type is not data. The steps keep
  to what the code does not check (\<open>cluster_step\<close>): a payload is readable and has at most 512 bytes, seeds
  are readable and of the family's length, the 32-bit counter of a node that makes a call is not at its
  maximum, no allocation fails, and every datagram that arrives, from wherever, satisfies \<open>packet_ok\<close>, has a sender's
  address of the family's length and finds a member set far from its 32-bit limit. After any such run every node is valid,
  every payload given to an application was published by a node of the cluster, every log entry is an item
  published under that originator and number, and no version names a number its originator has not reached.\<close>

theorem cluster_delivers_published:
  assumes "cluster_start L C0" "(cluster_step L)\<^sup>*\<^sup>* C0 C" "g \<in> set (nodes C)"
  shows "gossip_inv L g
     \<and> (\<forall>p \<in> set (env_app (genv g)). \<exists>x \<in> set (nodes C). \<exists>s. (self_id x, s, p) \<in> published C \<and> s \<le> data_counter x)
     \<and> (\<forall>k s p. log_map (gossip_log g) k = Some (s, p) \<longrightarrow> (k, s, p) \<in> published C)
     \<and> (\<forall>x \<in> set (nodes C). \<forall>s. vc_map (data_version g) (self_id x) = Some s \<longrightarrow> s \<le> data_counter x)"
proof -
  have C: "cluster_inv L C" by (rule cluster_reachable_inv [OF assms(2,1)])
  then have g: "gossip_inv L g" "honest L (published C) g" using assms(3) by (auto simp: cluster_inv_def)
  have pub: "\<exists>x \<in> set (nodes C). k = self_id x \<and> s \<le> data_counter x" if "(k, s, p) \<in> published C" for k s p
    using C that unfolding cluster_inv_def by blast
  have unique: "x = y" if "x \<in> set (nodes C)" "y \<in> set (nodes C)" "self_id x = self_id y" for x y
    using C that by (simp add: cluster_inv_def distinct_map inj_on_def)
  have "\<exists>x \<in> set (nodes C). \<exists>s. (self_id x, s, p) \<in> published C \<and> s \<le> data_counter x" if "p \<in> set (env_app (genv g))" for p
    using honestD(5) [OF g(2) that] pub by blast
  moreover have "s \<le> data_counter x" if "x \<in> set (nodes C)" "vc_map (data_version g) (self_id x) = Some s" for x s
    using honestD(4) [OF g(2) that(2)] pub unique [OF that(1)] by blast
  ultimately show ?thesis using g(1) honestD(3) [OF g(2)] by blast
qed

theorem cluster_delivers_published_witness:
  "\<exists>(C :: cluster) g. g \<in> set (nodes C) \<and> published C \<noteq> {} \<and> gossip_inv 16 g
     \<and> (\<forall>p \<in> set (env_app (genv g)). \<exists>x \<in> set (nodes C). \<exists>s. (self_id x, s, p) \<in> published C \<and> s \<le> data_counter x)
     \<and> (\<forall>k s p. log_map (gossip_log g) k = Some (s, p) \<longrightarrow> (k, s, p) \<in> published C)
     \<and> (\<forall>x \<in> set (nodes C). \<forall>s. vc_map (data_version g) (self_id x) = Some s \<longrightarrow> s \<le> data_counter x)"
proof (rule ex_cluster_run)
  fix C assume C: "(cluster_step 16)\<^sup>*\<^sup>* ex_cluster C" "published C = {(self_id (ex_fresh 1), 1, [1, 2, 3])}" "nodes C \<noteq> []"
  have "hd (nodes C) \<in> set (nodes C)" "published C \<noteq> {}" using C by simp_all
  then show ?thesis using cluster_delivers_published [OF ex_cluster_start C(1), of "hd (nodes C)"]
    by (intro exI [of _ C] exI [of _ "hd (nodes C)"] conjI) simp_all
qed

text \<open>C7. In every run of a cluster as in \<open>cluster_delivers_published\<close>, under the same conditions on each step (no
  counter wraps, payloads of at most 512 bytes, no allocation fails, every datagram that arrives is within \<open>packet_ok\<close> and
  from an address of the family, a foreign one is not data), two nodes whose logs hold an entry of the
  same originator with the same number hold the same payload.\<close>

theorem cluster_logs_agree:
  assumes "cluster_start L C0" "(cluster_step L)\<^sup>*\<^sup>* C0 C"
  shows "\<forall>g \<in> set (nodes C). \<forall>h \<in> set (nodes C). \<forall>k s p p'.
     log_map (gossip_log g) k = Some (s, p) \<and> log_map (gossip_log h) k = Some (s, p') \<longrightarrow> p = p'"
proof -
  have C: "cluster_inv L C" by (rule cluster_reachable_inv [OF assms(2,1)])
  have "(k, s, p) \<in> published C" if "g \<in> set (nodes C)" "log_map (gossip_log g) k = Some (s, p)" for g k s p
    using C that honestD(3) [of L "published C" g k s p] by (simp add: cluster_inv_def)
  moreover have "p = p'" if "(k, s, p) \<in> published C" "(k, s, p') \<in> published C" for k s p p'
    using C that unfolding cluster_inv_def by blast
  ultimately show ?thesis by blast
qed

theorem cluster_logs_agree_witness:
  "\<exists>C :: cluster. published C \<noteq> {} \<and> (\<forall>g \<in> set (nodes C). \<forall>h \<in> set (nodes C). \<forall>k s p p'.
     log_map (gossip_log g) k = Some (s, p) \<and> log_map (gossip_log h) k = Some (s, p') \<longrightarrow> p = p')"
proof (rule ex_cluster_run)
  fix C assume C: "(cluster_step 16)\<^sup>*\<^sup>* ex_cluster C" "published C = {(self_id (ex_fresh 1), 1, [1, 2, 3])}"
  show ?thesis using cluster_logs_agree [OF ex_cluster_start C(1)] C(2) by (intro exI [of _ C] conjI) simp_all
qed

text \<open>C8. Whatever well-formed message a valid node queues, of any of the six types: every envelope queued
  for it, put on the wire and received into an input buffer of any earlier contents, is within what the
  receiver's decoders take for granted and is read by the decoder of its type, to its last byte, as the
  message that was queued, with the envelope's number in the header.\<close>

theorem queued_message_received:
  assumes "gossip_inv L g" "message_ok L t m" "message_fits m" "sp = GOSSIP_DIRECT \<longrightarrow> dest_ok L to len"
  shows "\<exists>g' q new as. gossip_enqueue_message g t m to len sp = Some (0, g') \<and> outbound_messages g' = q @ new
     \<and> map target new = as \<and> targets_ok g to len sp as
     \<and> (\<forall>x \<in> set new. \<forall>p e. arrives (output_buffer g') x p \<and> allocs_ok e \<longrightarrow>
          packet_ok L (in_buffer p) (in_buffer_size p)
          \<and> reads_as e (in_buffer p) (in_buffer_size p) (with_seq (sequence_num x) m))"
proof -
  obtain as g' where g': "gossip_enqueue_message g t m to len sp = Some (0, g')" "enqueued L g m as g'" "targets_ok g to len sp as"
    using gossip_enqueue_message_ok [OF assms(1,2), of sp to len] assms(3,4) by (auto simp: dest_ok_def)
  obtain q new where new: "outbound_messages g' = q @ new" "map target new = as" "\<forall>x \<in> set new. carries (output_buffer g') m x"
    and inv: "gossip_inv L g'"
    using g'(2) by (auto simp: enqueued_def target_def [abs_def])
  have "packet_ok L (in_buffer p) (in_buffer_size p) \<and> reads_as e (in_buffer p) (in_buffer_size p) (with_seq (sequence_num x) m)"
    if x: "x \<in> set new" and p: "arrives (output_buffer g') x p" and e: "allocs_ok e" for x p e
  proof -
    let ?m = "with_seq (sequence_num x) m"
    have x_ok: "envelope_ok L x" using inv new(1) x by (auto simp: gossip_inv_def)
    have ok: "message_ok L t ?m" using assms(2) by simp
    have wire: "on_wire (output_buffer g') x = message_bytes ?m" using carried_bytes [OF _ assms(2) x_ok] new(3) x by blast
    have n: "in_buffer_size p = length (message_bytes ?m)" "take (length (message_bytes ?m)) (in_buffer p) = message_bytes ?m"
      using p by (auto simp: arrives_def wire)
    then have buf: "in_buffer p = message_bytes ?m @ drop (length (message_bytes ?m)) (in_buffer p)"
      by (metis append_take_drop_id)
    have small: "length (message_bytes ?m) \<le> MESSAGE_MAX_SIZE"
      using p arg_cong [OF n(2), of length] by (simp add: arrives_def)
    have len: "length (message_bytes ?m @ drop (length (message_bytes ?m)) (in_buffer p)) = INPUT_BUFFER_SIZE"
      using p by (simp add: arrives_def flip: buf)
    show ?thesis
      by (subst (1 2) buf, unfold n(1)) (intro conjI message_packet_ok [OF ok small len] message_reads_as [OF ok e small])
  qed
  then show ?thesis using g'(1,3) new(1,2) by blast
qed

theorem queued_message_received_witness:
  "\<exists>g' q new as. gossip_enqueue_message ex_node MESSAGE_HELLO_TYPE (Hello ex_hello) (Some ex_addr) 16 GOSSIP_DIRECT = Some (0, g')
     \<and> outbound_messages g' = q @ new
     \<and> map target new = as \<and> targets_ok ex_node (Some ex_addr) 16 GOSSIP_DIRECT as
     \<and> (\<forall>x \<in> set new. \<forall>p e. arrives (output_buffer g') x p \<and> allocs_ok e \<longrightarrow>
          packet_ok 16 (in_buffer p) (in_buffer_size p)
          \<and> reads_as e (in_buffer p) (in_buffer_size p) (with_seq (sequence_num x) (Hello ex_hello)))"
  by (rule queued_message_received) simp_all

end
