(* ===== verification/Pt_Handshake.thy ===== *)
theory Pt_Handshake
  imports Pt_Cluster
begin

text \<open>
  Joining a cluster, end to end: hello and welcome between a new node and its seed node, through the
  queues, the wire and the handlers of both.
\<close>

section \<open>Sending fresh envelopes\<close>

text \<open>A round of sending puts every envelope that was not tried before on the wire, in the queue's order.\<close>

lemma send_fresh:
  assumes "gossip_inv L (g\<lparr>outbound_messages := kept @ rest\<rparr>)" "\<forall>x \<in> set rest. attempt_num x = 0"
    "\<forall>w \<in> sset (env_sends (genv g)). 0 \<le> w"
  shows "\<exists>g'. process_send_loop g n kept rest = Some (n + int (length rest), g') \<and> gossip_inv L g'
     \<and> state g' = state g \<and> members g' = members g
     \<and> env_wire (genv g') = env_wire (genv g) @ map (\<lambda>x. (recipient x, on_wire (output_buffer g) x)) rest
     \<and> map sequence_num (outbound_messages g') = map sequence_num (kept @ filter (\<lambda>x. max_attempts x > 1) rest)"
  using assms
proof (induction rest arbitrary: g n kept)
  case Nil
  then show ?case by (simp add: process_send_loop.simps)
next
  case (Cons c rest)
  have c: "attempt_num c = 0" "max_attempts c = 1 \<or> max_attempts c = MESSAGE_RETRY_ATTEMPTS"
    using Cons.prems(1,2) by (auto simp: gossip_inv_def envelope_ok_def)
  then have again: "\<not> attempt_num c \<ge> max_attempts c" by auto
  have w: "\<not> shd (env_sends (genv g)) < 0" using Cons.prems(3) shd_sset [of "env_sends (genv g)"] by force
  show ?case
  proof (cases rule: process_send_cases [OF Cons.prems(1), of n])
    case (5 out bs)
    let ?g = "g\<lparr>output_buffer := out, genv := (genv g)\<lparr>env_clock := stl (env_clock (genv g)), env_sends := stl (env_sends (genv g)),
          env_wire := env_wire (genv g) @ [(recipient c, bs)]\<rparr>\<rparr>"
    let ?c = "c\<lparr>attempt_ts := clock_ms (shd (env_clock (genv g))), attempt_num := attempt_num c + 1\<rparr>"
    let ?kept = "kept @ (if max_attempts c \<le> 1 then [] else [?c])"
    have sends: "\<forall>w \<in> sset (env_sends (genv ?g)). 0 \<le> w" using Cons.prems(3) by (auto dest: sset_stl)
    obtain g' where g': "process_send_loop ?g (n + 1) ?kept rest = Some (n + 1 + int (length rest), g')" "gossip_inv L g'"
      "state g' = state g" "members g' = members g"
      "env_wire (genv g') = (env_wire (genv g) @ [(recipient c, bs)]) @ map (\<lambda>x. (recipient x, on_wire out x)) rest"
      "map sequence_num (outbound_messages g') = map sequence_num (?kept @ filter (\<lambda>x. max_attempts x > 1) rest)"
      using Cons.IH [where g = ?g and kept = ?kept and n = "n + 1"] 5(5) Cons.prems(2) sends by auto
    have "bs = on_wire (output_buffer g) c" using 5(3) by (simp add: datagram_of_def)
    moreover have "map (\<lambda>x. (recipient x, on_wire out x)) rest = map (\<lambda>x. (recipient x, on_wire (output_buffer g) x)) rest"
      using 5(6) by simp
    ultimately show ?thesis
      using g' unfolding 5(4) by (intro exI [of _ g']) (auto simp: not_le)
  qed (use again c w in auto)
qed

lemma process_send_fresh:
  assumes "gossip_inv L g" "\<forall>x \<in> set (outbound_messages g). attempt_num x = 0" "\<forall>w \<in> sset (env_sends (genv g)). 0 \<le> w"
    "state g = STATE_JOINING \<or> state g = STATE_CONNECTED"
  shows "\<exists>g'. pittacus_gossip_process_send g = Some (int (length (outbound_messages g)), g') \<and> gossip_inv L g'
     \<and> state g' = state g \<and> members g' = members g
     \<and> env_wire (genv g') = env_wire (genv g) @ map (\<lambda>x. (recipient x, on_wire (output_buffer g) x)) (outbound_messages g)
     \<and> map sequence_num (outbound_messages g') = map sequence_num (filter (\<lambda>x. max_attempts x > 1) (outbound_messages g))"
  using send_fresh [where L = L and g = g and kept = "[]" and rest = "outbound_messages g" and n = 0] assms by (auto simp: pittacus_gossip_process_send_def)

section \<open>A datagram arrives\<close>

lemma receive_message:
  assumes inv: "gossip_inv L g" and st: "state g = STATE_JOINING \<or> state g = STATE_CONNECTED"
    and m: "message_ok L t m" "length (message_bytes m) \<le> MESSAGE_MAX_SIZE" and dest: "dest_ok L (Some src) len"
    and room: "ms_size (members g) + 2 ^ 16 < 3 * 2 ^ 29"
  defines "buf \<equiv> arrived g (message_bytes m)"
  defines "x \<equiv> \<lparr>sender = src, sender_len = len, in_buffer = buf, in_buffer_size = length (message_bytes m)\<rparr>"
  shows "pittacus_gossip_process_receive receiver (with_offer (Recv_Datagram (message_bytes m) src len) g) =
       gossip_handle_new_message receiver (g\<lparr>input_buffer := buf\<rparr>) x"
    "gossip_inv L (g\<lparr>input_buffer := buf\<rparr>)" "envelope_in_ok L (g\<lparr>input_buffer := buf\<rparr>) x"
    "reads_as (genv g) buf (length (message_bytes m)) m" "message_type_decode buf (length (message_bytes m)) = Some (Inr t)"
proof -
  let ?g = "with_offer (Recv_Datagram (message_bytes m) src len) g"
  have len: "length (input_buffer g) = 512" and al: "allocs_ok (genv g)" using inv by (auto simp: gossip_inv_def)
  note ge = message_bytes_ge [OF m(1)]
  have buf: "buf = message_bytes m @ drop (length (message_bytes m)) (input_buffer g)" using m(2) by (simp add: buf_def arrived_def)
  show "gossip_inv L (g\<lparr>input_buffer := buf\<rparr>)" using inv m(2) len by (simp add: gossip_inv_def buf)
  have "length (message_bytes m @ drop (length (message_bytes m)) (input_buffer g)) = INPUT_BUFFER_SIZE" using m(2) len by simp
  from message_packet_ok [OF m this] show "envelope_in_ok L (g\<lparr>input_buffer := buf\<rparr>) x"
    using m(2) dest room by (simp add: envelope_in_ok_def x_def buf)
  show "reads_as (genv g) buf (length (message_bytes m)) m" unfolding buf by (rule message_reads_as [OF m(1) al m(2)])
  show "message_type_decode buf (length (message_bytes m)) = Some (Inr t)"
    using message_type_byte [OF m(1)] ge by (simp add: message_type_decode_def arr_get_in buf nth_append)
  have g: "state ?g = state g" "input_buffer ?g = input_buffer g" "env_recvs (genv ?g) = Recv_Datagram (message_bytes m) src len ## env_recvs (genv g)"
    "(genv ?g)\<lparr>env_recvs := env_recvs (genv g)\<rparr> = genv g" "arrived ?g = arrived g"
    by (simp_all add: with_offer_def arrived_def fun_eq_iff)
  have upd: "?g\<lparr>input_buffer := b, genv := genv g\<rparr> = g\<lparr>input_buffer := b\<rparr>" for b by (simp add: with_offer_def)
  have "message_bytes m \<noteq> []" using ge by auto
  then show "pittacus_gossip_process_receive receiver ?g = gossip_handle_new_message receiver (g\<lparr>input_buffer := buf\<rparr>) x"
    using process_receive_cases(2) [of ?g "message_bytes m" src len receiver] st len g upd m(2)
    by (simp add: Let_def x_def buf_def min_def)
qed

section \<open>The seed node answers\<close>

lemma seed_list_sent:
  assumes "gossip_inv L g" "dest_ok L to len" "length (outbound_messages g) + ms_size (members g) \<le> MAX_OUTPUT_MESSAGES"
  shows "\<exists>g' k. (if ms_size (members g) > 0 then gossip_enqueue_member_list g to len else Some (err_code PITTACUS_ERR_NONE, g)) = Some (0, g')
     \<and> gossip_inv L g' \<and> same_node g g' \<and> k \<le> ms_size (members g) \<and> grows g g' k"
proof (cases "ms_size (members g) > 0")
  case True
  then show ?thesis using gossip_enqueue_member_list_ok [OF assms(1,2)] assms(1,3) evolves_inv by auto
qed (use assms(1) grows_refl in auto)

lemma hello_answered:
  assumes inv: "gossip_inv L g" and x: "envelope_in_ok L g x" and st: "state g = STATE_CONNECTED"
    and q: "outbound_messages g = []" and few: "ms_size (members g) < 99"
    and h: "reads_as (genv g) (in_buffer x) (in_buffer_size x) (Hello h)"
  defines "w \<equiv> Welcome \<lparr>welcome_header = message_header_init MESSAGE_WELCOME_TYPE 0,
     hello_sequence_num = header_sequence_num (hello_header h), welcome_this_member = self_address g\<rparr>"
  shows "\<exists>g' y ys. gossip_handle_hello g x = Some (0, g') \<and> gossip_inv L g' \<and> state g' = STATE_CONNECTED
     \<and> outbound_messages g' = y # ys \<and> (\<forall>z \<in> set (y # ys). attempt_num z = 0)
     \<and> target y = (sender_len x, take L (sender x))
     \<and> on_wire (output_buffer g') y = message_bytes (with_seq (sequence_num y) w) \<and> message_ok L MESSAGE_WELCOME_TYPE w
     \<and> member_key (hello_this_member h) \<in> set (ms_keys (members g')) \<and> env_wire (genv g') = env_wire (genv g)"
proof -
  note xp = envelope_in_parts [OF x]
  have w: "message_ok L MESSAGE_WELCOME_TYPE w"
    using inv by (auto simp: w_def welcome_valid_def gossip_inv_def member_fam_def)
  have al: "allocs_ok (genv g)" using inv by (simp add: gossip_inv_def)
  obtain m e where d: "message_hello_decode (genv g) (in_buffer x) (in_buffer_size x) = Some (Inr (in_buffer_size x, m), e)"
    "hello_agrees h m" using h by auto
  have e: "allocs_ok e" "env_wire e = env_wire (genv g)" and fam: "member_fam L (hello_this_member m)"
    using message_hello_decode_received [OF envelope_in_received [OF inv x] xp(1) al] d(1) by auto
  let ?g0 = "g\<lparr>genv := e\<rparr>"
  note inv0 = gossip_inv_genv [OF inv e(1)]
  have seq: "header_sequence_num (hello_header m) = header_sequence_num (hello_header h)"
    and key: "member_key (hello_this_member m) = member_key (hello_this_member h)" using d(2) by (auto simp: hello_agrees_def)
  obtain g1 where g1: "gossip_enqueue_welcome ?g0 (header_sequence_num (hello_header h)) (Some (sender x)) (sender_len x) = Some (0, g1)"
    "enqueued L ?g0 w [(sender_len x, take L (sender x))] g1"
    using gossip_enqueue_welcome_ok [OF inv0 xp(2), of "header_sequence_num (hello_header h)"] by (auto simp: w_def)
  have inv1: "gossip_inv L g1" "same_node ?g0 g1" using enqueued_inv [OF g1(2)] by auto
  obtain y where y: "outbound_messages g1 = [y]" "target y = (sender_len x, take L (sender x))" "carries (output_buffer g1) w y"
    using enqueued_room [OF g1(2)] q by auto
  have ms1: "ms_size (members g1) = ms_size (members g)" using inv1(2) by (simp add: same_node_def)
  obtain g2 k where g2: "(if ms_size (members g1) > 0 then gossip_enqueue_member_list g1 (Some (sender x)) (sender_len x)
      else Some (err_code PITTACUS_ERR_NONE, g1)) = Some (0, g2)" "gossip_inv L g2" "same_node g1 g2" "k \<le> ms_size (members g1)" "grows g1 g2 k"
    using seed_list_sent [OF inv1(1) xp(2)] y(1) ms1 few by auto
  let ?m = "\<lparr>member_list_header = message_header_init MESSAGE_MEMBER_LIST_TYPE 0, members_n = 1, list_members = [hello_this_member m]\<rparr>"
  have "L \<le> 128" using inv by (simp add: gossip_inv_def)
  then have "message_ok L MESSAGE_MEMBER_LIST_TYPE (Member_List ?m)" using fam by (simp add: list_valid_def member_fam_def)
  then obtain as g3 where g3: "gossip_enqueue_message g2 MESSAGE_MEMBER_LIST_TYPE (Member_List ?m) None 0 GOSSIP_BROADCAST = Some (0, g3)"
    "enqueued L g2 (Member_List ?m) as g3"
    using gossip_enqueue_message_ok [OF g2(2), of MESSAGE_MEMBER_LIST_TYPE "Member_List ?m" GOSSIP_BROADCAST None 0]
    by (auto simp del: targets_ok.simps)
  have inv3: "gossip_inv L g3" "same_node g2 g3" using enqueued_inv [OF g3(2)] by auto
  have "grows g1 g3 (k + length as)"
    using grows_trans [OF g2(5)] enqueued_grows [OF g3(2)] grows_length [OF g2(5)] g2(4) ms1 few y(1) by simp
  then obtain ys where ys: "outbound_messages g3 = y # ys" "\<forall>z \<in> set ys. attempt_num z = 0"
    "region (output_buffer g3) (env_buffer y) = region (output_buffer g1) (env_buffer y)"
    using y(1) by (auto simp: grows_def)
  have same: "members g3 = members g" "state g3 = STATE_CONNECTED" "env_wire (genv g3) = env_wire (genv g)"
    using inv1(2) g2(3) inv3(2) st e(2) by (auto simp: same_node_def)
  obtain s e3 where put: "cluster_member_set_put (genv g3) (members g3) [hello_this_member m] = Some (PITTACUS_ERR_NONE, s, e3)"
    "gossip_inv L (g3\<lparr>members := s, genv := e3\<rparr>)" "ms_keys s = add_new (ms_keys (members g3)) [member_key (hello_this_member m)]"
    using put_received [OF inv3(1), of "[hello_this_member m]"] fam few same(1) by auto
  have "gossip_handle_hello g x = Some (0, g3\<lparr>members := s, genv := e3\<rparr>)"
    using st d(1) g1(1) g2(1) g3(1) put(1) by (simp add: gossip_handle_hello_def seq)
  moreover have "on_wire (output_buffer g3) y = message_bytes (with_seq (sequence_num y) w)"
    using carried_bytes [OF carries_region [OF y(3) ys(3)] w] inv3(1) ys(1) by (auto simp: gossip_inv_def envelope_ok_def)
  moreover have "attempt_num y = 0" using y(3) by (simp add: carries_def)
  moreover have "env_wire e3 = env_wire (genv g)" using cluster_member_set_put_frame [OF put(1)] same(3) by simp
  moreover have "member_key (hello_this_member h) \<in> set (ms_keys s)" using put(3) key by simp
  ultimately show ?thesis
    using put(2) same ys y(2) w by (intro exI [of _ "g3\<lparr>members := s, genv := e3\<rparr>"] exI [of _ y] exI [of _ ys]) simp
qed

section \<open>The new node is connected\<close>

lemma welcome_received:
  assumes inv: "gossip_inv L g" and x: "envelope_in_ok L g x"
    and w: "reads_as (genv g) (in_buffer x) (in_buffer_size x) (Welcome w)"
    and q: "map sequence_num (outbound_messages g) = [hello_sequence_num w]"
  shows "\<exists>g'. gossip_handle_welcome g x = Some (0, g') \<and> gossip_inv L g' \<and> state g' = STATE_CONNECTED
     \<and> outbound_messages g' = [] \<and> member_key (welcome_this_member w) \<in> set (ms_keys (members g'))"
proof -
  obtain m e where d: "message_welcome_decode (genv g) (in_buffer x) (in_buffer_size x) = Some (Inr (in_buffer_size x, m), e)"
    "welcome_agrees w m" using w by auto
  obtain r g' where g': "gossip_handle_welcome g x = Some (r, g')" "gossip_inv L g'"
    "r < 0 \<or> (\<exists>k m e. message_welcome_decode (genv g) (in_buffer x) (in_buffer_size x) = Some (Inr (k, m), e)
       \<and> r = 0 \<and> state g' = STATE_CONNECTED
       \<and> ms_keys (members g') = add_new (ms_keys (members g)) [member_key (welcome_this_member m)]
       \<and> outbound_messages g' = remove_by_sequence_num (hello_sequence_num m) (outbound_messages g))"
    using gossip_handle_welcome_ok [OF inv x] by blast
  have "r = 0" using g'(1) d(1) by (auto simp: gossip_handle_welcome_def Let_def bind_eq_Some_conv)
  then have "state g' = STATE_CONNECTED" "ms_keys (members g') = add_new (ms_keys (members g)) [member_key (welcome_this_member m)]"
    "outbound_messages g' = remove_by_sequence_num (hello_sequence_num m) (outbound_messages g)"
    using g'(3) d(1) by auto
  moreover have "hello_sequence_num m = hello_sequence_num w" "member_key (welcome_this_member m) = member_key (welcome_this_member w)"
    using d(2) by (auto simp: welcome_agrees_def)
  ultimately show ?thesis using g'(1,2) q \<open>r = 0\<close> by (auto simp: remove_by_sequence_num_def Cons_eq_map_conv map_eq_Cons_conv)
qed

text \<open>The answers of the socket to the writes of one round.\<close>

definition with_sends :: "int stream \<Rightarrow> pittacus_gossip \<Rightarrow> pittacus_gossip" where
  "with_sends ws g = g\<lparr>genv := (genv g)\<lparr>env_sends := ws\<rparr>\<rparr>"

lemma gossip_inv_with_sends [simp]: "gossip_inv L (with_sends ws g) = gossip_inv L g"
  using allocs_ok_cong [of "(genv g)\<lparr>env_sends := ws\<rparr>" "genv g"] by (simp add: with_sends_def gossip_inv_def)

lemma with_sends_sel [simp]:
  "outbound_messages (with_sends ws g) = outbound_messages g" "state (with_sends ws g) = state g"
  "members (with_sends ws g) = members g" "output_buffer (with_sends ws g) = output_buffer g"
  "env_wire (genv (with_sends ws g)) = env_wire (genv g)" "env_sends (genv (with_sends ws g)) = ws"
  by (simp_all add: with_sends_def)

text \<open>The hello of a new node, as it goes out.\<close>

lemma hello_sent:
  assumes inv: "gossip_inv L a" and st: "state a = STATE_INITIALIZED" and q: "outbound_messages a = []"
    and dest: "dest_ok L (Some to) len" and ws: "\<forall>w \<in> sset ws. 0 \<le> w"
  shows "\<exists>a1 a2 h. pittacus_gossip_join a (Some [(Some to, len)]) 1 = Some (0, a1)
     \<and> pittacus_gossip_process_send (with_sends ws a1) = Some (1, a2) \<and> gossip_inv L a2 \<and> state a2 = STATE_JOINING
     \<and> members a2 = members a \<and> env_wire (genv a2) = env_wire (genv a) @ [(take L to, message_bytes (Hello h))]
     \<and> message_ok L MESSAGE_HELLO_TYPE (Hello h) \<and> length (message_bytes (Hello h)) \<le> MESSAGE_MAX_SIZE
     \<and> hello_this_member h = self_address a \<and> map sequence_num (outbound_messages a2) = [header_sequence_num (hello_header h)]"
proof -
  let ?h = "Hello \<lparr>hello_header = message_header_init MESSAGE_HELLO_TYPE 0, hello_this_member = self_address a\<rparr>"
  have h: "message_ok L MESSAGE_HELLO_TYPE ?h" and L: "L \<le> 128"
    using inv by (auto simp: hello_valid_def gossip_inv_def member_fam_def)
  obtain g1 where g1: "gossip_enqueue_hello a (Some to) len = Some (0, g1)" "enqueued L a ?h [(len, take L to)] g1"
    using gossip_enqueue_hello_ok [OF inv dest] by auto
  obtain x where x: "outbound_messages g1 = [x]" "target x = (len, take L to)" "carries (output_buffer g1) ?h x"
    using enqueued_room [OF g1(2)] q by auto
  let ?a1 = "g1\<lparr>state := STATE_JOINING\<rparr>"
  have inv1: "gossip_inv L g1" "same_node a g1" using enqueued_inv [OF g1(2)] by auto
  have inv_a1: "gossip_inv L ?a1" using inv1(1) by (simp add: gossip_inv_def)
  have join: "pittacus_gossip_join a (Some [(Some to, len)]) 1 = Some (0, ?a1)"
    using st g1(1) by (simp add: pittacus_gossip_join_def)
  have fresh: "attempt_num x = 0" "max_attempts x = MESSAGE_RETRY_ATTEMPTS" using x(3) by (auto simp: carries_def)
  obtain a2 where a2: "pittacus_gossip_process_send (with_sends ws ?a1) = Some (1, a2)" "gossip_inv L a2" "state a2 = STATE_JOINING"
    "members a2 = members a" "env_wire (genv a2) = env_wire (genv a) @ [(recipient x, on_wire (output_buffer g1) x)]"
    "map sequence_num (outbound_messages a2) = [sequence_num x]"
    using process_send_fresh [of L "with_sends ws ?a1"] inv_a1 inv1(2) x(1) fresh ws by (auto simp: same_node_def)
  have xo: "envelope_ok L x" using inv1(1) x(1) by (simp add: gossip_inv_def)
  note wire = carried_bytes [OF x(3) h xo]
  let ?m = "\<lparr>hello_header = (message_header_init MESSAGE_HELLO_TYPE 0)\<lparr>header_sequence_num := sequence_num x\<rparr>,
      hello_this_member = self_address a\<rparr>"
  have m: "with_seq (sequence_num x) ?h = Hello ?m" by simp
  have ok: "message_ok L MESSAGE_HELLO_TYPE (Hello ?m)" using h by (simp flip: m del: with_seq.simps)
  have "length (message_bytes (Hello ?m)) \<le> MESSAGE_MAX_SIZE" by (rule message_bytes_length(2) [OF ok _ L]) simp
  moreover have "recipient x = take L to" using x(2) by (simp add: target_def)
  ultimately show ?thesis using join a2 ok wire [unfolded m] by (intro exI [of _ ?a1] exI [of _ a2] exI [of _ ?m]) simp
qed

lemma welcome_sent:
  assumes inv: "gossip_inv L b" and st: "state b = STATE_CONNECTED" and q: "outbound_messages b = []" and few: "ms_size (members b) < 99"
    and h: "message_ok L MESSAGE_HELLO_TYPE (Hello h)" "length (message_bytes (Hello h)) \<le> MESSAGE_MAX_SIZE"
    and src: "dest_ok L (Some src) len" and ws: "\<forall>w \<in> sset ws. 0 \<le> w"
  shows "\<exists>b1 b2 r w. pittacus_gossip_process_receive receiver (with_offer (Recv_Datagram (message_bytes (Hello h)) src len) b) = Some (0, b1)
     \<and> member_key (hello_this_member h) \<in> set (ms_keys (members b1))
     \<and> pittacus_gossip_process_send (with_sends ws b1) = Some (r, b2)
     \<and> (take L src, message_bytes (Welcome w)) \<in> set (drop (length (env_wire (genv b))) (env_wire (genv b2)))
     \<and> message_ok L MESSAGE_WELCOME_TYPE (Welcome w) \<and> length (message_bytes (Welcome w)) \<le> MESSAGE_MAX_SIZE
     \<and> hello_sequence_num w = header_sequence_num (hello_header h) \<and> welcome_this_member w = self_address b"
proof -
  have L: "L \<le> 128" using inv by (simp add: gossip_inv_def)
  let ?buf = "arrived b (message_bytes (Hello h))"
  let ?b = "b\<lparr>input_buffer := ?buf\<rparr>"
  let ?x = "\<lparr>sender = src, sender_len = len, in_buffer = ?buf, in_buffer_size = length (message_bytes (Hello h))\<rparr>"
  let ?w = "\<lparr>welcome_header = message_header_init MESSAGE_WELCOME_TYPE 0,
     hello_sequence_num = header_sequence_num (hello_header h), welcome_this_member = self_address b\<rparr>"
  have "ms_size (members b) + 2 ^ 16 < 3 * 2 ^ 29" using few by simp
  note receive = receive_message [OF inv disjI2 [OF st] h src this]
  have "reads_as (genv ?b) (in_buffer ?x) (in_buffer_size ?x) (Hello h)" using receive(4) by simp
  from hello_answered [OF receive(2,3) _ _ _ this] st q few obtain b1 y ys where
    b1: "gossip_handle_hello ?b ?x = Some (0, b1)" "gossip_inv L b1" "state b1 = STATE_CONNECTED" "outbound_messages b1 = y # ys"
    "\<forall>z \<in> set (y # ys). attempt_num z = 0" "target y = (len, take L src)"
    "on_wire (output_buffer b1) y = message_bytes (with_seq (sequence_num y) (Welcome ?w))"
    "message_ok L MESSAGE_WELCOME_TYPE (Welcome ?w)"
    "member_key (hello_this_member h) \<in> set (ms_keys (members b1))" "env_wire (genv b1) = env_wire (genv b)"
    by auto
  have run: "pittacus_gossip_process_receive receiver (with_offer (Recv_Datagram (message_bytes (Hello h)) src len) b) = Some (0, b1)"
    unfolding receive(1) using receive(5) b1(1) by (simp add: gossip_handle_new_message_def)
  obtain b2 where b2: "pittacus_gossip_process_send (with_sends ws b1) = Some (int (length (y # ys)), b2)"
    "env_wire (genv b2) = env_wire (genv b) @ map (\<lambda>x. (recipient x, on_wire (output_buffer b1) x)) (y # ys)"
    using process_send_fresh [of L "with_sends ws b1"] b1 ws by auto
  let ?m = "?w\<lparr>welcome_header := (welcome_header ?w)\<lparr>header_sequence_num := sequence_num y\<rparr>\<rparr>"
  have m: "with_seq (sequence_num y) (Welcome ?w) = Welcome ?m" by simp
  have ok: "message_ok L MESSAGE_WELCOME_TYPE (Welcome ?m)" using b1(8) by (simp add: welcome_valid_def)
  have "length (message_bytes (Welcome ?m)) \<le> MESSAGE_MAX_SIZE" by (rule message_bytes_length(2) [OF ok _ L]) simp
  moreover have "(take L src, message_bytes (Welcome ?m)) \<in> set (drop (length (env_wire (genv b))) (env_wire (genv b2)))"
    using b2(2) b1(6,7) by (simp add: target_def)
  ultimately show ?thesis
    using run b1(9) b2(1) ok by (intro exI [of _ b1] exI [of _ b2] exI [of _ "int (length (y # ys))"] exI [of _ ?m]) simp
qed

section \<open>Properties\<close>

text \<open>C5. Joining works end to end: a new node joins with the address of a connected seed node that has
  nothing queued and fewer than 99 members. If the writes succeed and the two datagrams arrive, then the
  hello goes to the seed, the seed stores the new node and its next round of sending has a welcome for
  the hello's sender, and receiving it makes the new node CONNECTED, with the seed among its members and
  with the hello out of its queue.\<close>

theorem handshake_connects:
  assumes "gossip_inv L a" "state a = STATE_INITIALIZED" "outbound_messages a = []" "ms_size (members a) + 2 ^ 16 < 3 * 2 ^ 29"
    "gossip_inv L b" "state b = STATE_CONNECTED" "outbound_messages b = []" "ms_size (members b) < 99"
    "dest_ok L (Some addr_b) len_b" "dest_ok L (Some addr_a) len_a" "\<forall>w \<in> sset ws. 0 \<le> w"
  shows "\<exists>a1 a2 hello b1 b2 r welcome a3.
     pittacus_gossip_join a (Some [(Some addr_b, len_b)]) 1 = Some (0, a1)
     \<and> pittacus_gossip_process_send (with_sends ws a1) = Some (1, a2)
     \<and> env_wire (genv a2) = env_wire (genv a) @ [(take L addr_b, hello)]
     \<and> pittacus_gossip_process_receive receiver (with_offer (Recv_Datagram hello addr_a len_a) b) = Some (0, b1)
     \<and> member_key (self_address a) \<in> set (ms_keys (members b1))
     \<and> pittacus_gossip_process_send (with_sends ws b1) = Some (r, b2)
     \<and> (take L addr_a, welcome) \<in> set (drop (length (env_wire (genv b))) (env_wire (genv b2)))
     \<and> pittacus_gossip_process_receive receiver (with_offer (Recv_Datagram welcome addr_b len_b) a2) = Some (0, a3)
     \<and> state a3 = STATE_CONNECTED \<and> outbound_messages a3 = [] \<and> member_key (self_address b) \<in> set (ms_keys (members a3))"
proof -
  obtain a1 a2 h where a: "pittacus_gossip_join a (Some [(Some addr_b, len_b)]) 1 = Some (0, a1)"
    "pittacus_gossip_process_send (with_sends ws a1) = Some (1, a2)" "gossip_inv L a2" "state a2 = STATE_JOINING"
    "members a2 = members a" "env_wire (genv a2) = env_wire (genv a) @ [(take L addr_b, message_bytes (Hello h))]"
    "message_ok L MESSAGE_HELLO_TYPE (Hello h)" "length (message_bytes (Hello h)) \<le> MESSAGE_MAX_SIZE"
    "hello_this_member h = self_address a" "map sequence_num (outbound_messages a2) = [header_sequence_num (hello_header h)]"
    using hello_sent [OF assms(1-3,9,11)] by (elim exE conjE) (rule that)
  obtain b1 b2 r w where b: "pittacus_gossip_process_receive receiver (with_offer (Recv_Datagram (message_bytes (Hello h)) addr_a len_a) b) = Some (0, b1)"
    "member_key (hello_this_member h) \<in> set (ms_keys (members b1))"
    "pittacus_gossip_process_send (with_sends ws b1) = Some (r, b2)"
    "(take L addr_a, message_bytes (Welcome w)) \<in> set (drop (length (env_wire (genv b))) (env_wire (genv b2)))"
    "message_ok L MESSAGE_WELCOME_TYPE (Welcome w)" "length (message_bytes (Welcome w)) \<le> MESSAGE_MAX_SIZE"
    "hello_sequence_num w = header_sequence_num (hello_header h)" "welcome_this_member w = self_address b"
    using welcome_sent [OF assms(5-8) a(7,8) assms(10,11), of receiver] by (elim exE conjE) (rule that)
  have "ms_size (members a2) + 2 ^ 16 < 3 * 2 ^ 29" using assms(4) a(5) by simp
  note receive = receive_message [OF a(3) disjI1 [OF a(4)] b(5,6) assms(9) this]
  have "map sequence_num (outbound_messages (a2\<lparr>input_buffer := buf\<rparr>)) = [hello_sequence_num w]" for buf using a(10) b(7) by simp
  from welcome_received [OF receive(2,3) _ this] receive(4) obtain a3 where
    "gossip_handle_welcome (a2\<lparr>input_buffer := arrived a2 (message_bytes (Welcome w))\<rparr>)
       \<lparr>sender = addr_b, sender_len = len_b, in_buffer = arrived a2 (message_bytes (Welcome w)), in_buffer_size = length (message_bytes (Welcome w))\<rparr> = Some (0, a3)"
    "state a3 = STATE_CONNECTED" "outbound_messages a3 = []" "member_key (welcome_this_member w) \<in> set (ms_keys (members a3))"
    by auto
  moreover from this have "pittacus_gossip_process_receive receiver (with_offer (Recv_Datagram (message_bytes (Welcome w)) addr_b len_b) a2) = Some (0, a3)"
    unfolding receive(1) using receive(5) by (simp add: gossip_handle_new_message_def)
  ultimately show ?thesis using a(1,2,6,9) b(1-4,8) by metis
qed

theorem handshake_connects_witness:
  "\<exists>a1 a2 hello b1 b2 r welcome a3.
     pittacus_gossip_join (ex_fresh 1) (Some [(Some ex_addr, 16)]) 1 = Some (0, a1)
     \<and> pittacus_gossip_process_send (with_sends (sconst 1) a1) = Some (1, a2)
     \<and> env_wire (genv a2) = env_wire (genv (ex_fresh 1)) @ [(take 16 ex_addr, hello)]
     \<and> pittacus_gossip_process_receive None (with_offer (Recv_Datagram hello ex_addr 16) ex_node) = Some (0, b1)
     \<and> member_key (self_address (ex_fresh 1)) \<in> set (ms_keys (members b1))
     \<and> pittacus_gossip_process_send (with_sends (sconst 1) b1) = Some (r, b2)
     \<and> (take 16 ex_addr, welcome) \<in> set (drop (length (env_wire (genv ex_node))) (env_wire (genv b2)))
     \<and> pittacus_gossip_process_receive None (with_offer (Recv_Datagram welcome ex_addr 16) a2) = Some (0, a3)
     \<and> state a3 = STATE_CONNECTED \<and> outbound_messages a3 = [] \<and> member_key (self_address ex_node) \<in> set (ms_keys (members a3))"
proof (rule handshake_connects)
  show "gossip_inv 16 (ex_fresh 1)" "state (ex_fresh 1) = STATE_INITIALIZED" by (rule ex_fresh_facts)+
  show "outbound_messages (ex_fresh 1) = []" "ms_size (members (ex_fresh 1)) + 2 ^ 16 < 3 * 2 ^ 29"
    by (simp_all add: ex_fresh_def ex_node_def)
  show "state ex_node = STATE_CONNECTED" "outbound_messages ex_node = []" "ms_size (members ex_node) < 99"
    by (simp_all add: ex_node_def)
qed simp_all

end
