(* ===== verification/Pt_Release.thy ===== *)
theory Pt_Release
  imports Pt_Frame
begin

text \<open>
  Who owns the memory of a message. The decoders of hello, welcome and member lists allocate an array of
  members that the handler has to release with \<^verbatim>\<open>message_*_destroy\<close>, and
  \<^verbatim>\<open>gossip_enqueue_member_list\<close> allocates one for its own use. In \<open>Pt_Messages\<close> and \<open>Pt_Handlers\<close> the
  members of a message are values. Here they lie in a store of blocks, and the functions that
  allocate, read and release them are translated once more on the store.

  The lemmas show that the functions compute the same as those on values, follow no pointer that
  is not allocated, and leave the store as it was, with one exception: the handler of member lists
  leaves the array of a list that is cut short allocated (\<open>leaks\<close>).
\<close>

section \<open>The store\<close>

text \<open>A block is an array of members; \<open>None\<close> in it is a member that was not written yet.\<close>

type_synonym store = "ptr \<rightharpoonup> cluster_member option list"

text \<open>\<^verbatim>\<open>malloc(n * sizeof(cluster_member_t))\<close>; \<open>p\<close> is the address of the new block.\<close>

definition malloc_members :: "env \<Rightarrow> store \<Rightarrow> ptr \<Rightarrow> nat \<Rightarrow> ptr option \<times> store \<times> env" where
  "malloc_members e h p n =
     (let (ok, e) = malloc e
      in if ok then (Some p, h(p \<mapsto> replicate n None), e) else (None, h, e))"

text \<open>\<^verbatim>\<open>free(NULL)\<close> does nothing; to free what is not allocated is undefined.\<close>

definition free_members :: "store \<Rightarrow> ptr option \<Rightarrow> store option" where
  "free_members h p = (case p of
       None \<Rightarrow> Some h
     | Some a \<Rightarrow> (case h a of None \<Rightarrow> None | Some _ \<Rightarrow> Some (h(a := None))))"

definition write_member :: "store \<Rightarrow> ptr option \<Rightarrow> nat \<Rightarrow> cluster_member \<Rightarrow> store option" where
  "write_member h p i m = do {
     a \<leftarrow> p;
     block \<leftarrow> h a;
     block \<leftarrow> arr_set block i (Some m);
     Some (h(a \<mapsto> block))
   }"

text \<open>The first \<open>n\<close> members behind a pointer, all of which must have been written.\<close>

definition read_members :: "store \<Rightarrow> ptr option \<Rightarrow> nat \<Rightarrow> cluster_member list option" where
  "read_members h p n =
     (if n = 0 then Some []
      else do {
        a \<leftarrow> p;
        block \<leftarrow> h a;
        if length block < n then None else those (take n block)
      })"

section \<open>Messages with pointers\<close>

record message_hello_t =
  hello_t_header :: message_header
  hello_t_this_member :: "ptr option"

record message_welcome_t =
  welcome_t_header :: message_header
  welcome_t_sequence_num :: u32
  welcome_t_this_member :: "ptr option"

record message_member_list_t =
  member_list_t_header :: message_header
  member_list_t_members_n :: u16
  member_list_t_members :: "ptr option"

definition message_hello_decode_heap ::
  "env \<Rightarrow> store \<Rightarrow> ptr \<Rightarrow> u8 list \<Rightarrow> nat
     \<Rightarrow> ((pittacus_error + nat \<times> message_hello_t) \<times> store \<times> env) option" where
  "message_hello_decode_heap e h p buffer buffer_size = do {
     valid \<leftarrow> message_is_payload_valid buffer buffer_size MESSAGE_HELLO_TYPE;
     if \<not> valid then Some (Inl PITTACUS_ERR_INVALID_MESSAGE, h, e)
     else if buffer_size < sizeof_message_header + sizeof_cluster_member - sizeof_pointer
     then Some (Inl PITTACUS_ERR_BUFFER_NOT_ENOUGH, h, e)
     else do {
       decoded \<leftarrow> message_header_decode buffer buffer_size;
       case decoded of
         Inl _ \<Rightarrow> None
       | Inr (_, header) \<Rightarrow> do {
           let (this_member, h, e) = malloc_members e h p 1;
           if this_member = None then Some (Inl PITTACUS_ERR_ALLOCATION_FAILED, h, e)
           else do {
             result \<leftarrow> cluster_member_decode (drop sizeof_message_header buffer)
                         (buffer_size - sizeof_message_header);
             case result of
               Inl err \<Rightarrow> Some (Inl err, h, e)
             | Inr (decoded_bytes, member) \<Rightarrow> do {
                 h \<leftarrow> write_member h this_member 0 member;
                 Some (Inr (sizeof_message_header + decoded_bytes,
                   \<lparr>hello_t_header = header, hello_t_this_member = this_member\<rparr>), h, e)
               }
           }
         }
     }
   }"

definition message_hello_destroy :: "message_hello_t \<Rightarrow> store \<Rightarrow> store option" where
  "message_hello_destroy msg h = free_members h (hello_t_this_member msg)"

definition message_welcome_decode_heap ::
  "env \<Rightarrow> store \<Rightarrow> ptr \<Rightarrow> u8 list \<Rightarrow> nat
     \<Rightarrow> ((pittacus_error + nat \<times> message_welcome_t) \<times> store \<times> env) option" where
  "message_welcome_decode_heap e h p buffer buffer_size = do {
     valid \<leftarrow> message_is_payload_valid buffer buffer_size MESSAGE_WELCOME_TYPE;
     if \<not> valid then Some (Inl PITTACUS_ERR_INVALID_MESSAGE, h, e)
     else if buffer_size < sizeof_message_header + 4 + sizeof_cluster_member - sizeof_pointer
     then Some (Inl PITTACUS_ERR_BUFFER_NOT_ENOUGH, h, e)
     else do {
       decoded \<leftarrow> message_header_decode buffer buffer_size;
       case decoded of
         Inl _ \<Rightarrow> None
       | Inr (n, header) \<Rightarrow> do {
           seq \<leftarrow> uint32_decode buffer n;
           let cursor = n + 4;
           let (this_member, h, e) = malloc_members e h p 1;
           if this_member = None then Some (Inl PITTACUS_ERR_ALLOCATION_FAILED, h, e)
           else do {
             result \<leftarrow> cluster_member_decode (drop cursor buffer) (buffer_size - cursor);
             case result of
               Inl err \<Rightarrow> Some (Inl err, h, e)
             | Inr (decoded_bytes, member) \<Rightarrow> do {
                 h \<leftarrow> write_member h this_member 0 member;
                 Some (Inr (cursor + decoded_bytes,
                   \<lparr>welcome_t_header = header, welcome_t_sequence_num = seq,
                    welcome_t_this_member = this_member\<rparr>), h, e)
               }
           }
         }
     }
   }"

definition message_welcome_destroy :: "message_welcome_t \<Rightarrow> store \<Rightarrow> store option" where
  "message_welcome_destroy msg h = free_members h (welcome_t_this_member msg)"

text \<open>The loop of \<^verbatim>\<open>message_member_list_decode\<close> over the indices of the array.\<close>

fun decode_members_heap ::
  "u8 list \<Rightarrow> nat \<Rightarrow> nat list \<Rightarrow> nat \<Rightarrow> store \<Rightarrow> ptr option
     \<Rightarrow> ((pittacus_error + nat) \<times> store) option" where
  "decode_members_heap buffer buffer_size [] cursor h p = Some (Inr cursor, h)"
| "decode_members_heap buffer buffer_size (i # is) cursor h p = do {
     result \<leftarrow> cluster_member_decode (drop cursor buffer) (size_of_diff (int buffer_size - int cursor));
     case result of
       Inl err \<Rightarrow> Some (Inl err, h)
     | Inr (n, m) \<Rightarrow> do {
         h \<leftarrow> write_member h p i m;
         decode_members_heap buffer buffer_size is (cursor + n) h p
       }
   }"

definition message_member_list_decode_heap ::
  "env \<Rightarrow> store \<Rightarrow> ptr \<Rightarrow> u8 list \<Rightarrow> nat
     \<Rightarrow> ((pittacus_error + nat \<times> message_member_list_t) \<times> store \<times> env) option" where
  "message_member_list_decode_heap e h p buffer buffer_size = do {
     valid \<leftarrow> message_is_payload_valid buffer buffer_size MESSAGE_MEMBER_LIST_TYPE;
     if \<not> valid then Some (Inl PITTACUS_ERR_INVALID_MESSAGE, h, e)
     else if buffer_size < sizeof_message_header + 2 then Some (Inl PITTACUS_ERR_BUFFER_NOT_ENOUGH, h, e)
     else do {
       decoded \<leftarrow> message_header_decode buffer buffer_size;
       case decoded of
         Inl err \<Rightarrow> Some (Inl err, h, e)
       | Inr (n, header) \<Rightarrow> do {
           count \<leftarrow> uint16_decode buffer n;
           let cursor = n + 2;
           let (array, h, e) = malloc_members e h p (unat count);
           if array = None then Some (Inl PITTACUS_ERR_ALLOCATION_FAILED, h, e)
           else do {
             (result, h) \<leftarrow> decode_members_heap buffer buffer_size [0..<unat count] cursor h array;
             case result of
               Inl err \<Rightarrow> Some (Inl err, h, e)
             | Inr cursor \<Rightarrow> Some (Inr (cursor,
                 \<lparr>member_list_t_header = header, member_list_t_members_n = count,
                  member_list_t_members = array\<rparr>), h, e)
           }
         }
     }
   }"

definition message_member_list_destroy :: "message_member_list_t \<Rightarrow> store \<Rightarrow> store option" where
  "message_member_list_destroy msg h = free_members h (member_list_t_members msg)"

section \<open>Sending the member list\<close>

text \<open>The inner loop of \<^verbatim>\<open>gossip_enqueue_member_list\<close>, which fills the array.\<close>

function fill_to_send ::
  "cluster_member_set \<Rightarrow> nat \<Rightarrow> nat \<Rightarrow> nat \<Rightarrow> store \<Rightarrow> ptr option \<Rightarrow> (nat \<times> nat \<times> store) option" where
  "fill_to_send ms members_num to_send_idx member_idx h p =
     (if to_send_idx < members_num \<and> member_idx < ms_size ms then do {
        slot \<leftarrow> arr_get (ms_set ms) member_idx;
        m \<leftarrow> slot;
        h \<leftarrow> write_member h p to_send_idx m;
        fill_to_send ms members_num (to_send_idx + 1) (member_idx + 1) h p
      }
      else Some (to_send_idx, member_idx, h))"
  by pat_completeness auto
termination
  by (relation "measure (\<lambda>(ms, _, _, member_idx, _). ms_size ms - member_idx)") auto

declare fill_to_send.simps [simp del]

text \<open>The outer loop and the two exits, both of which release the array.\<close>

partial_function (option) send_lists_heap ::
  "pittacus_gossip \<Rightarrow> nat \<Rightarrow> nat \<Rightarrow> store \<Rightarrow> ptr option \<Rightarrow> u8 list option \<Rightarrow> u32 \<Rightarrow> int
     \<Rightarrow> (int \<times> pittacus_gossip \<times> store) option" where
  "send_lists_heap self members_num member_idx h p to to_len result =
     (if member_idx < ms_size (members self) then do {
        (to_send_idx, member_idx, h) \<leftarrow> fill_to_send (members self) members_num 0 member_idx h p;
        if to_send_idx > 0 then do {
          ms \<leftarrow> read_members h p to_send_idx;
          (result, self) \<leftarrow> gossip_enqueue_message self MESSAGE_MEMBER_LIST_TYPE
            (Member_List \<lparr>member_list_header = message_header_init MESSAGE_MEMBER_LIST_TYPE 0,
                          members_n = of_nat to_send_idx, list_members = ms\<rparr>)
            to to_len GOSSIP_DIRECT;
          if result < 0 then do {
            h \<leftarrow> free_members h p;
            Some (result, self, h)
          }
          else send_lists_heap self members_num member_idx h p to to_len result
        }
        else send_lists_heap self members_num member_idx h p to to_len result
      }
      else do {
        h \<leftarrow> free_members h p;
        Some (result, self, h)
      })"

definition gossip_enqueue_member_list_heap ::
  "pittacus_gossip \<Rightarrow> store \<Rightarrow> ptr \<Rightarrow> u8 list option \<Rightarrow> u32
     \<Rightarrow> (int \<times> pittacus_gossip \<times> store) option" where
  "gossip_enqueue_member_list_heap self h p to to_len = do {
     let n = ms_size (members self);
     let members_num = (if n > MEMBER_LIST_SYNC_SIZE then MEMBER_LIST_SYNC_SIZE else n);
     if members_num = 0 then Some (err_code PITTACUS_ERR_NONE, self, h)
     else do {
       let (members_to_send, h, e) = malloc_members (genv self) h p members_num;
       let self = self\<lparr>genv := e\<rparr>;
       if members_to_send = None then Some (err_code PITTACUS_ERR_ALLOCATION_FAILED, self, h)
       else send_lists_heap self members_num 0 h members_to_send to to_len (err_code PITTACUS_ERR_NONE)
     }
   }"

section \<open>Handlers\<close>

text \<open>
  \<open>p\<close> is the address of the block a decoder allocates, \<open>q\<close> the one of the array of
  \<^verbatim>\<open>gossip_enqueue_member_list\<close>.
\<close>

definition gossip_handle_hello_heap ::
  "pittacus_gossip \<Rightarrow> store \<Rightarrow> ptr \<Rightarrow> ptr \<Rightarrow> message_envelope_in
     \<Rightarrow> (int \<times> pittacus_gossip \<times> store) option" where
  "gossip_handle_hello_heap self h p q envelope_in =
     (if state self \<noteq> STATE_CONNECTED then Some (err_code PITTACUS_ERR_BAD_STATE, self, h)
      else do {
        (decode_result, h, e) \<leftarrow>
          message_hello_decode_heap (genv self) h p (in_buffer envelope_in) (in_buffer_size envelope_in);
        let self = self\<lparr>genv := e\<rparr>;
        case decode_result of
          Inl err \<Rightarrow> Some (err_code err, self, h)
        | Inr (_, msg) \<Rightarrow> do {
            (_, self) \<leftarrow> gossip_enqueue_welcome self (header_sequence_num (hello_t_header msg))
                           (Some (sender envelope_in)) (sender_len envelope_in);
            (_, self, h) \<leftarrow> (if ms_size (members self) > 0
               then gossip_enqueue_member_list_heap self h q (Some (sender envelope_in)) (sender_len envelope_in)
               else Some (err_code PITTACUS_ERR_NONE, self, h));
            ms \<leftarrow> read_members h (hello_t_this_member msg) 1;
            (_, self) \<leftarrow> gossip_enqueue_message self MESSAGE_MEMBER_LIST_TYPE
               (Member_List \<lparr>member_list_header = message_header_init MESSAGE_MEMBER_LIST_TYPE 0,
                             members_n = 1, list_members = ms\<rparr>)
               None 0 GOSSIP_BROADCAST;
            ms \<leftarrow> read_members h (hello_t_this_member msg) 1;
            (_, set, e) \<leftarrow> cluster_member_set_put (genv self) (members self) ms;
            h \<leftarrow> message_hello_destroy msg h;
            Some (err_code PITTACUS_ERR_NONE, self\<lparr>members := set, genv := e\<rparr>, h)
          }
      })"

definition gossip_handle_welcome_heap ::
  "pittacus_gossip \<Rightarrow> store \<Rightarrow> ptr \<Rightarrow> message_envelope_in \<Rightarrow> (int \<times> pittacus_gossip \<times> store) option" where
  "gossip_handle_welcome_heap self h p envelope_in = do {
     (decode_result, h, e) \<leftarrow>
       message_welcome_decode_heap (genv self) h p (in_buffer envelope_in) (in_buffer_size envelope_in);
     let self = self\<lparr>genv := e\<rparr>;
     case decode_result of
       Inl err \<Rightarrow> Some (err_code err, self, h)
     | Inr (_, msg) \<Rightarrow> do {
         let self = self\<lparr>state := STATE_CONNECTED\<rparr>;
         ms \<leftarrow> read_members h (welcome_t_this_member msg) 1;
         (_, set, e) \<leftarrow> cluster_member_set_put (genv self) (members self) ms;
         let self = self\<lparr>members := set, genv := e\<rparr>;
         let self = self\<lparr>outbound_messages :=
           remove_by_sequence_num (welcome_t_sequence_num msg) (outbound_messages self)\<rparr>;
         h \<leftarrow> message_welcome_destroy msg h;
         Some (err_code PITTACUS_ERR_NONE, self, h)
       }
   }"

definition gossip_handle_member_list_heap ::
  "pittacus_gossip \<Rightarrow> store \<Rightarrow> ptr \<Rightarrow> message_envelope_in \<Rightarrow> (int \<times> pittacus_gossip \<times> store) option" where
  "gossip_handle_member_list_heap self h p envelope_in =
     (if state self \<noteq> STATE_CONNECTED then Some (err_code PITTACUS_ERR_BAD_STATE, self, h)
      else do {
        (decode_result, h, e) \<leftarrow>
          message_member_list_decode_heap (genv self) h p (in_buffer envelope_in) (in_buffer_size envelope_in);
        let self = self\<lparr>genv := e\<rparr>;
        case decode_result of
          Inl err \<Rightarrow> Some (err_code err, self, h)
        | Inr (_, msg) \<Rightarrow> do {
            ms \<leftarrow> read_members h (member_list_t_members msg) (unat (member_list_t_members_n msg));
            (_, set, e) \<leftarrow> cluster_member_set_put (genv self) (members self) ms;
            let self = self\<lparr>members := set, genv := e\<rparr>;
            (_, self) \<leftarrow> gossip_enqueue_ack self (header_sequence_num (member_list_t_header msg))
                           (Some (sender envelope_in)) (sender_len envelope_in);
            h \<leftarrow> message_member_list_destroy msg h;
            Some (err_code PITTACUS_ERR_NONE, self, h)
          }
      })"

text \<open>The other handlers allocate no message; a function on values leaves the store alone.\<close>

definition with_store :: "store \<Rightarrow> (int \<times> pittacus_gossip) option \<Rightarrow> (int \<times> pittacus_gossip \<times> store) option" where
  "with_store h r = map_option (\<lambda>(result, self). (result, self, h)) r"

definition gossip_handle_new_message_heap ::
  "data_receiver option \<Rightarrow> pittacus_gossip \<Rightarrow> store \<Rightarrow> ptr \<Rightarrow> ptr \<Rightarrow> message_envelope_in
     \<Rightarrow> (int \<times> pittacus_gossip \<times> store) option" where
  "gossip_handle_new_message_heap receiver self h p q envelope_in = do {
     message_type \<leftarrow> message_type_decode (in_buffer envelope_in) (in_buffer_size envelope_in);
     if message_type = Inr MESSAGE_HELLO_TYPE then gossip_handle_hello_heap self h p q envelope_in
     else if message_type = Inr MESSAGE_WELCOME_TYPE then gossip_handle_welcome_heap self h p envelope_in
     else if message_type = Inr MESSAGE_MEMBER_LIST_TYPE then gossip_handle_member_list_heap self h p envelope_in
     else with_store h
       (if message_type = Inr MESSAGE_DATA_TYPE then gossip_handle_data receiver self envelope_in
        else if message_type = Inr MESSAGE_ACK_TYPE then gossip_handle_ack self envelope_in
        else if message_type = Inr MESSAGE_STATUS_TYPE then gossip_handle_status self envelope_in
        else Some (err_code PITTACUS_ERR_INVALID_MESSAGE, self))
   }"

section \<open>Laws of the store\<close>

named_theorems store_simps

lemma malloc_members_simps [store_simps]:
  "malloc e = (True, e') \<Longrightarrow> malloc_members e h p n = (Some p, h(p \<mapsto> replicate n None), e')"
  "malloc e = (False, e') \<Longrightarrow> malloc_members e h p n = (None, h, e')"
  by (simp_all add: malloc_members_def)

lemma free_members_simps [store_simps]:
  "free_members h None = Some h"
  "h a = Some b \<Longrightarrow> free_members h (Some a) = Some (h(a := None))"
  "h a = None \<Longrightarrow> free_members h (Some a) = None"
  by (simp_all add: free_members_def)

lemma write_member_in [store_simps]:
  "h a = Some b \<Longrightarrow> i < length b \<Longrightarrow> write_member h (Some a) i m = Some (h(a \<mapsto> b[i := Some m]))"
  by (simp add: write_member_def arr_set_in)

lemma those_eq_Some_iff: "those xs = Some ys \<longleftrightarrow> xs = map Some ys"
  by (induction xs arbitrary: ys) (auto split: option.splits)

lemma read_members_block [store_simps]:
  "h a = Some (map Some ms @ rest) \<Longrightarrow> n = length ms \<Longrightarrow> read_members h (Some a) n = Some ms"
  by (auto simp: read_members_def those_eq_Some_iff)

lemma read_members_full [store_simps]:
  "h a = Some (map Some ms) \<Longrightarrow> n = length ms \<Longrightarrow> read_members h (Some a) n = Some ms"
  using read_members_block [of h a ms "[]"] by simp

lemma same_block [store_simps]: "h(a \<mapsto> b) = h(a \<mapsto> c) \<longleftrightarrow> b = c"
  by (metis fun_upd_same option.inject)

text \<open>A block that was not there, written to and released: nothing is left of it.\<close>

lemma release_fresh [store_simps]:
  "h p = None \<Longrightarrow> free_members (h(p \<mapsto> b)) (Some p) = Some h"
  by (auto simp: free_members_def fun_upd_idem)

section \<open>Ownership of a decoded message\<close>

text \<open>
  What a handler relies on. The decoder on the store fails when the one on values fails. If it
  succeeds, \<open>view\<close> reads the message that the decoder on values returns, whatever else has
  been allocated since, and \<open>destroy\<close> takes back exactly what was allocated.
\<close>

locale owned_message =
  fixes decode :: "env \<Rightarrow> u8 list \<Rightarrow> nat \<Rightarrow> ((pittacus_error + nat \<times> 'm) \<times> env) option"
    and decode_heap :: "env \<Rightarrow> store \<Rightarrow> ptr \<Rightarrow> u8 list \<Rightarrow> nat
      \<Rightarrow> ((pittacus_error + nat \<times> 'q) \<times> store \<times> env) option"
    and view :: "store \<Rightarrow> 'q \<Rightarrow> 'm option"
    and destroy :: "'q \<Rightarrow> store \<Rightarrow> store option"
    and lost :: "u8 list \<Rightarrow> nat \<Rightarrow> bool"
  assumes decode_undefined: "decode e b n = None \<Longrightarrow> h p = None \<Longrightarrow> decode_heap e h p b n = None"
    and decode_fails: "decode e b n = Some (Inl err, e') \<Longrightarrow> h p = None \<Longrightarrow>
      \<exists>h'. decode_heap e h p b n = Some (Inl err, h', e')
         \<and> (if fst (malloc e) \<and> lost b n then \<exists>block. h' = h(p \<mapsto> block) else h' = h)"
    and decode_owns: "decode e b n = Some (Inr (k, m), e') \<Longrightarrow> h p = None \<Longrightarrow>
      \<exists>msg block. decode_heap e h p b n = Some (Inr (k, msg), h(p \<mapsto> block), e')
         \<and> (\<forall>h'. h' p = Some block \<longrightarrow> view h' msg = Some m)
         \<and> (\<forall>h'. h' p \<noteq> None \<longrightarrow> destroy msg h' = Some (h'(p := None)))"
begin

text \<open>Decoding, using and destroying a message leaves the store as it was.\<close>

lemma life_cycle:
  assumes "decode e b n = Some (Inr (k, m), e')" "h p = None"
  shows "\<exists>msg h'. decode_heap e h p b n = Some (Inr (k, msg), h', e') \<and> view h' msg = Some m
     \<and> destroy msg h' = Some h \<and> (\<forall>q. q \<noteq> p \<longrightarrow> h' q = h q)"
proof -
  obtain msg block where d: "decode_heap e h p b n = Some (Inr (k, msg), h(p \<mapsto> block), e')"
    and v: "\<And>h'. h' p = Some block \<Longrightarrow> view h' msg = Some m"
    and r: "\<And>h'. h' p \<noteq> None \<Longrightarrow> destroy msg h' = Some (h'(p := None))"
    using decode_owns [of e b n k m e' h p, OF assms] by blast
  have "h(p := None) = h" using assms(2) by (intro fun_upd_idem)
  then show ?thesis using d v [of "h(p \<mapsto> block)"] r [of "h(p \<mapsto> block)"] by simp
qed

end

text \<open>A member is refused only for lack of the ten bytes in front of its address.\<close>

lemma cluster_member_decode_Inl: "cluster_member_decode b n = Some (Inl err) \<Longrightarrow> n < 10"
  by (auto simp: cluster_member_decode_def Let_def split: if_splits Option.bind_splits)

definition hello_view :: "store \<Rightarrow> message_hello_t \<Rightarrow> message_hello option" where
  "hello_view h msg = do {
     ms \<leftarrow> read_members h (hello_t_this_member msg) 1;
     Some \<lparr>hello_header = hello_t_header msg, hello_this_member = hd ms\<rparr>
   }"

definition welcome_view :: "store \<Rightarrow> message_welcome_t \<Rightarrow> message_welcome option" where
  "welcome_view h msg = do {
     ms \<leftarrow> read_members h (welcome_t_this_member msg) 1;
     Some \<lparr>welcome_header = welcome_t_header msg, hello_sequence_num = welcome_t_sequence_num msg,
           welcome_this_member = hd ms\<rparr>
   }"

definition member_list_view :: "store \<Rightarrow> message_member_list_t \<Rightarrow> message_member_list option" where
  "member_list_view h msg = do {
     ms \<leftarrow> read_members h (member_list_t_members msg) (unat (member_list_t_members_n msg));
     Some \<lparr>member_list_header = member_list_t_header msg, members_n = member_list_t_members_n msg,
           list_members = ms\<rparr>
   }"

lemma read_one_hd: "read_members h p (Suc 0) = Some ms \<Longrightarrow> ms = [hd ms]"
  by (auto simp: read_members_def those_eq_Some_iff bind_eq_Some_conv neq_Nil_conv Cons_eq_map_conv split: if_splits)

lemma view_reads:
  "hello_view h hm = Some m \<Longrightarrow>
     hello_t_header hm = hello_header m \<and> read_members h (hello_t_this_member hm) (Suc 0) = Some [hello_this_member m]"
  "welcome_view h wm = Some w \<Longrightarrow>
     welcome_t_sequence_num wm = hello_sequence_num w \<and> read_members h (welcome_t_this_member wm) (Suc 0) = Some [welcome_this_member w]"
  "member_list_view h lm = Some l \<Longrightarrow>
     member_list_t_header lm = member_list_header l
     \<and> read_members h (member_list_t_members lm) (unat (member_list_t_members_n lm)) = Some (list_members l)"
  by (auto simp: hello_view_def welcome_view_def member_list_view_def bind_eq_Some_conv dest: read_one_hd)

text \<open>A member list that stops before the announced number of members.\<close>

definition cut_short :: "u8 list \<Rightarrow> nat \<Rightarrow> bool" where
  "cut_short b n \<longleftrightarrow> message_is_payload_valid b n MESSAGE_MEMBER_LIST_TYPE = Some True \<and> 14 \<le> n
     \<and> (case uint16_decode b 12 of None \<Rightarrow> False
        | Some count \<Rightarrow> (case decode_members b n (unat count) 14 [] of Some (Inl _) \<Rightarrow> True | _ \<Rightarrow> False))"

lemma read_one_member [store_simps]: "h a = Some [Some m] \<Longrightarrow> read_members h (Some a) (Suc 0) = Some [m]"
  by (simp add: read_members_def)

interpretation hello_msg: owned_message message_hello_decode message_hello_decode_heap hello_view
  message_hello_destroy "\<lambda>b n. False"
proof unfold_locales
  fix e b n err e' k m and h :: store and p
  assume h: "h p = None"
  show "message_hello_decode e b n = None \<Longrightarrow> message_hello_decode_heap e h p b n = None"
    by (cases "malloc e") (auto simp: message_hello_decode_def message_hello_decode_heap_def malloc_members_def
        split: Option.bind_splits if_splits sum.splits)
  show "message_hello_decode e b n = Some (Inl err, e') \<Longrightarrow>
      \<exists>h'. message_hello_decode_heap e h p b n = Some (Inl err, h', e')
         \<and> (if fst (malloc e) \<and> False then \<exists>block. h' = h(p \<mapsto> block) else h' = h)"
    by (cases "malloc e") (auto simp: message_hello_decode_def message_hello_decode_heap_def malloc_members_def
        split: Option.bind_splits if_splits sum.splits dest!: cluster_member_decode_Inl)
  show "message_hello_decode e b n = Some (Inr (k, m), e') \<Longrightarrow>
      \<exists>msg block. message_hello_decode_heap e h p b n = Some (Inr (k, msg), h(p \<mapsto> block), e')
         \<and> (\<forall>h'. h' p = Some block \<longrightarrow> hello_view h' msg = Some m)
         \<and> (\<forall>h'. h' p \<noteq> None \<longrightarrow> message_hello_destroy msg h' = Some (h'(p := None)))"
    by (cases "malloc e") (auto simp: message_hello_decode_def message_hello_decode_heap_def store_simps
        hello_view_def message_hello_destroy_def split: Option.bind_splits if_splits sum.splits)
qed

interpretation welcome_msg: owned_message message_welcome_decode message_welcome_decode_heap welcome_view
  message_welcome_destroy "\<lambda>b n. False"
proof unfold_locales
  fix e b n err e' k m and h :: store and p
  assume h: "h p = None"
  have header: "j = 12" if "message_header_decode b n = Some (Inr (j, d))" for j d
    using that by (auto simp: message_header_decode_def split: if_splits Option.bind_splits)
  show "message_welcome_decode e b n = None \<Longrightarrow> message_welcome_decode_heap e h p b n = None"
    by (cases "malloc e") (auto simp: message_welcome_decode_def message_welcome_decode_heap_def malloc_members_def
        Let_def split: Option.bind_splits if_splits sum.splits)
  show "message_welcome_decode e b n = Some (Inl err, e') \<Longrightarrow>
      \<exists>h'. message_welcome_decode_heap e h p b n = Some (Inl err, h', e')
         \<and> (if fst (malloc e) \<and> False then \<exists>block. h' = h(p \<mapsto> block) else h' = h)"
    by (cases "malloc e") (auto simp: message_welcome_decode_def message_welcome_decode_heap_def malloc_members_def
        Let_def split: Option.bind_splits if_splits sum.splits dest!: cluster_member_decode_Inl header)
  show "message_welcome_decode e b n = Some (Inr (k, m), e') \<Longrightarrow>
      \<exists>msg block. message_welcome_decode_heap e h p b n = Some (Inr (k, msg), h(p \<mapsto> block), e')
         \<and> (\<forall>h'. h' p = Some block \<longrightarrow> welcome_view h' msg = Some m)
         \<and> (\<forall>h'. h' p \<noteq> None \<longrightarrow> message_welcome_destroy msg h' = Some (h'(p := None)))"
    by (cases "malloc e") (auto simp: message_welcome_decode_def message_welcome_decode_heap_def store_simps
        welcome_view_def message_welcome_destroy_def Let_def split: Option.bind_splits if_splits sum.splits)
qed

text \<open>
  The loop on the array does what the loop on values does. While it runs, the array holds the members decoded
  so far (\<open>ms\<close>) and the rest is not written.
\<close>

lemma decode_members_heap_block:
  assumes "h a = Some (map Some ms @ replicate k None)"
  shows "\<exists>block. decode_members_heap b n [length ms..<length ms + k] cursor h (Some a) =
       map_option (\<lambda>r. (map_sum (\<lambda>err. err) fst r, h(a \<mapsto> block))) (decode_members b n k cursor ms)
     \<and> length block = length ms + k
     \<and> (\<forall>c ms'. decode_members b n k cursor ms = Some (Inr (c, ms')) \<longrightarrow> block = map Some ms')"
  using assms
proof (induction k arbitrary: ms cursor h)
  case 0
  then show ?case by (intro exI [of _ "map Some ms"]) (auto simp: fun_upd_idem)
next
  case (Suc k)
  let ?r = "cluster_member_decode (drop cursor b) (size_of_diff (int n - int cursor))"
  have upt: "[length ms..<Suc (length ms + k)] = length ms # [Suc (length ms)..<Suc (length ms + k)]" by (rule upt_conv_Cons) simp
  consider "?r = None" | err where "?r = Some (Inl err)" | j m where "?r = Some (Inr (j, m))"
    by (metis option.exhaust sum.exhaust surj_pair)
  then show ?case
  proof cases
    case 1
    then show ?thesis by (intro exI [of _ "replicate (length ms + Suc k) None"]) (simp add: upt del: upt_Suc)
  next
    case 2
    then show ?thesis using Suc.prems
      by (intro exI [of _ "map Some ms @ replicate (Suc k) None"]) (simp add: upt fun_upd_idem del: upt_Suc)
  next
    case 3
    have w: "write_member h (Some a) (length ms) m = Some (h(a \<mapsto> map Some (ms @ [m]) @ replicate k None))"
      using Suc.prems by (simp add: store_simps list_update_append)
    show ?thesis using Suc.IH [of "h(a \<mapsto> map Some (ms @ [m]) @ replicate k None)" "ms @ [m]" "cursor + j"]
      by (simp add: upt 3 w fun_upd_same del: upt_Suc fun_upd_apply)
  qed
qed

lemma map_sum_eq_iff:
  "map_sum f g r = Inl x \<longleftrightarrow> (\<exists>a. r = Inl a \<and> f a = x)" "map_sum f g r = Inr y \<longleftrightarrow> (\<exists>b. r = Inr b \<and> g b = y)"
  by (cases r; auto)+

lemma header_decode_size: "message_header_decode b n = Some (Inr (j, d)) \<Longrightarrow> j = 12"
  by (auto simp: message_header_decode_def split: if_splits Option.bind_splits)

lemma decode_members_count:
  "decode_members b n k cursor ms = Some (Inr (c, ms')) \<Longrightarrow> length ms' = length ms + k"
  by (induction b n k cursor ms rule: decode_members.induct) (auto split: Option.bind_splits sum.splits)

lemma member_list_decode_heap_eq:
  assumes "message_is_payload_valid b n MESSAGE_MEMBER_LIST_TYPE = Some True" "14 \<le> n"
    "message_header_decode b n = Some (Inr (12, d))" "uint16_decode b 12 = Some count"
  shows "message_member_list_decode e b n = (case malloc e of (ok, e') \<Rightarrow>
       if \<not> ok then Some (Inl PITTACUS_ERR_ALLOCATION_FAILED, e')
       else map_option (\<lambda>r. (map_sum (\<lambda>err. err) (\<lambda>(c, ms).
         (c, \<lparr>member_list_header = d, members_n = count, list_members = ms\<rparr>)) r, e'))
         (decode_members b n (unat count) 14 []))"
    and "message_member_list_decode_heap e h p b n = (case malloc e of (ok, e') \<Rightarrow>
       if \<not> ok then Some (Inl PITTACUS_ERR_ALLOCATION_FAILED, h, e')
       else map_option (\<lambda>(r, h). (map_sum (\<lambda>err. err) (\<lambda>c.
         (c, \<lparr>member_list_t_header = d, member_list_t_members_n = count, member_list_t_members = Some p\<rparr>)) r, h, e'))
         (decode_members_heap b n [0..<unat count] 14 (h(p \<mapsto> replicate (unat count) None)) (Some p)))"
  using assms
  by (auto simp: message_member_list_decode_def message_member_list_decode_heap_def malloc_members_def Let_def
      split: prod.splits Option.bind_splits sum.splits)

text \<open>Everything before the allocation is the same on values and on the store.\<close>

lemma member_list_decode_heap_early:
  assumes "\<nexists>d count. message_is_payload_valid b n MESSAGE_MEMBER_LIST_TYPE = Some True \<and> 14 \<le> n
      \<and> message_header_decode b n = Some (Inr (12, d)) \<and> uint16_decode b 12 = Some count"
  shows "(message_member_list_decode e b n = None \<and> message_member_list_decode_heap e h p b n = None
      \<or> (\<exists>err. message_member_list_decode e b n = Some (Inl err, e) \<and> message_member_list_decode_heap e h p b n = Some (Inl err, h, e)))
      \<and> (message_member_list_decode e b n \<noteq> None \<longrightarrow> \<not> cut_short b n)"
proof -
  have decoded: "12 \<le> n \<Longrightarrow> message_header_decode b n = Some r \<Longrightarrow> \<exists>d. r = Inr (12, d)" for r
    by (auto simp: message_header_decode_def split: Option.bind_splits)
  note defs = message_member_list_decode_def message_member_list_decode_heap_def cut_short_def
  show ?thesis
  proof (cases "message_is_payload_valid b n MESSAGE_MEMBER_LIST_TYPE = Some True")
    case False
    then show ?thesis by (cases "message_is_payload_valid b n MESSAGE_MEMBER_LIST_TYPE") (auto simp: defs)
  next
    case valid: True
    show ?thesis
    proof (cases "14 \<le> n")
      case True
      show ?thesis
      proof (cases "message_header_decode b n")
        case (Some r)
        then obtain d where "r = Inr (12, d)" using decoded [OF _ Some] True by auto
        then show ?thesis using assms valid True Some by (cases "uint16_decode b 12") (auto simp: defs)
      qed (use valid True in \<open>simp add: defs\<close>)
    qed (use valid in \<open>simp add: defs\<close>)
  qed
qed

interpretation list_msg: owned_message message_member_list_decode message_member_list_decode_heap member_list_view
  message_member_list_destroy cut_short
proof unfold_locales
  fix e b n err e' k m and h :: store and p
  assume h: "h p = None"
  let ?allocates = "\<lambda>d count. message_is_payload_valid b n MESSAGE_MEMBER_LIST_TYPE = Some True \<and> 14 \<le> n
      \<and> message_header_decode b n = Some (Inr (12, d)) \<and> uint16_decode b 12 = Some count"
  have block: "\<exists>block. decode_members_heap b n [0..<unat count] 14 (h(p \<mapsto> replicate (unat count) None)) (Some p) =
       map_option (\<lambda>r. (map_sum (\<lambda>err. err) fst r, h(p \<mapsto> block))) (decode_members b n (unat count) 14 [])
     \<and> (\<forall>c ms'. decode_members b n (unat count) 14 [] = Some (Inr (c, ms')) \<longrightarrow> block = map Some ms')" for count :: u16
    using decode_members_heap_block [of "h(p \<mapsto> replicate (unat count) None)" p "[]" "unat count" b n 14]
    by (auto simp: fun_upd_same simp del: fun_upd_apply)
  note early = member_list_decode_heap_early [of b n e h p]
  show "message_member_list_decode e b n = None \<Longrightarrow> message_member_list_decode_heap e h p b n = None"
  proof (cases "\<exists>d count. ?allocates d count")
    case True
    then obtain d count where a: "?allocates d count" by blast
    assume "message_member_list_decode e b n = None"
    then show ?thesis using block [of count] a
      by (auto simp: member_list_decode_heap_eq [of b n d count] split: prod.splits if_splits)
  qed (use early in auto)
  show "message_member_list_decode e b n = Some (Inl err, e') \<Longrightarrow>
      \<exists>h'. message_member_list_decode_heap e h p b n = Some (Inl err, h', e')
         \<and> (if fst (malloc e) \<and> cut_short b n then \<exists>block. h' = h(p \<mapsto> block) else h' = h)"
  proof (cases "\<exists>d count. ?allocates d count")
    case True
    then obtain d count where a: "?allocates d count" by blast
    assume "message_member_list_decode e b n = Some (Inl err, e')"
    then show ?thesis using block [of count] a
      by (auto simp: member_list_decode_heap_eq [of b n d count] cut_short_def map_sum_eq_iff split: prod.splits if_splits)
  qed (use early in auto)
  show "message_member_list_decode e b n = Some (Inr (k, m), e') \<Longrightarrow>
      \<exists>msg block. message_member_list_decode_heap e h p b n = Some (Inr (k, msg), h(p \<mapsto> block), e')
         \<and> (\<forall>h'. h' p = Some block \<longrightarrow> member_list_view h' msg = Some m)
         \<and> (\<forall>h'. h' p \<noteq> None \<longrightarrow> message_member_list_destroy msg h' = Some (h'(p := None)))"
  proof (cases "\<exists>d count. ?allocates d count")
    case True
    then obtain d count where a: "?allocates d count" by blast
    assume "message_member_list_decode e b n = Some (Inr (k, m), e')"
    then obtain ms where m: "malloc e = (True, e')" "decode_members b n (unat count) 14 [] = Some (Inr (k, ms))"
      "m = \<lparr>member_list_header = d, members_n = count, list_members = ms\<rparr>"
      using a by (auto simp: member_list_decode_heap_eq [of b n d count] map_sum_eq_iff split: prod.splits if_splits)
    moreover have "length ms = unat count" using decode_members_count [OF m(2)] by simp
    ultimately show ?thesis using block [of count] a
      by (auto simp: member_list_decode_heap_eq [of b n d count] store_simps member_list_view_def message_member_list_destroy_def
          intro!: exI [of _ "map Some ms"])
  qed (use early in auto)
qed

section \<open>The array of \<^verbatim>\<open>gossip_enqueue_member_list\<close>\<close>

lemma fill_to_send_block:
  assumes "those (take (n - j) (drop idx (take (ms_size ms) (ms_set ms)))) = Some xs" "ms_size ms \<le> length (ms_set ms)"
    "h a = Some block" "length block = n" "j \<le> n"
  shows "fill_to_send ms n j idx h (Some a) =
     Some (j + length xs, idx + length xs, h(a \<mapsto> take j block @ map Some xs @ drop (j + length xs) block))"
  using assms
proof (induction ms n j idx h "Some a" arbitrary: block xs rule: fill_to_send.induct)
  case (1 ms n j idx h)
  show ?case
  proof (cases "j < n \<and> idx < ms_size ms")
    case True
    let ?rest = "drop (Suc idx) (take (ms_size ms) (ms_set ms))"
    have "drop idx (take (ms_size ms) (ms_set ms)) = ms_set ms ! idx # ?rest"
      using True 1(3) by (subst Cons_nth_drop_Suc [symmetric]) auto
    moreover have "n - j = Suc (n - Suc j)" using True by (simp add: Suc_diff_Suc)
    ultimately have "those (ms_set ms ! idx # take (n - Suc j) ?rest) = Some xs" using 1(2) by simp
    then obtain m ys where m: "ms_set ms ! idx = Some m" "those (take (n - Suc j) ?rest) = Some ys" "xs = m # ys"
      by (auto split: option.splits)
    let ?h = "h(a \<mapsto> block[j := Some m])"
    have slot: "arr_get (ms_set ms) idx = Some (Some m)" using True 1(3) m(1) by simp
    have w: "write_member h (Some a) j m = Some ?h" using True 1(4,5) by (simp add: store_simps)
    have "fill_to_send ms n (j + 1) (idx + 1) ?h (Some a) =
        Some (j + 1 + length ys, idx + 1 + length ys,
          ?h(a \<mapsto> take (j + 1) (block[j := Some m]) @ map Some ys @ drop (j + 1 + length ys) (block[j := Some m])))"
      using True m(2) 1(3,5) by (intro 1(1) [OF True slot refl w]) auto
    then show ?thesis using True 1(4,5) m(1,3) slot w
      by (subst fill_to_send.simps) (simp add: take_Suc_update drop_update_cancel arr_get_in)
  next
    case False
    then have "xs = []" using 1(2) by (auto simp: those_eq_Some_iff)
    then show ?thesis using False 1(4) by (subst fill_to_send.simps) (auto simp: fun_upd_idem)
  qed
qed

text \<open>Queueing a message does not touch the member set.\<close>

lemma members_enqueue_to_outbound:
  "gossip_enqueue_to_outbound g b n a to len = Some (r, g') \<Longrightarrow> members g' = members g"
  by (auto simp: gossip_enqueue_to_outbound_def Let_def split: Option.bind_splits option.splits)

lemma members_enqueue_to_members:
  "enqueue_to_members g b n a ps res = Some (r, g') \<Longrightarrow> members g' = members g"
proof (induction ps arbitrary: g res)
  case (Cons p ps)
  from Cons.prems show ?case
    by (auto simp: bind_eq_Some_conv split: if_splits dest!: Cons.IH members_enqueue_to_outbound)
qed simp

lemma members_distribute:
  "distribute_message g b n a to len sp = Some (r, g') \<Longrightarrow> members g' = members g"
  by (auto simp: distribute_message_def split: spreading_type.splits Option.bind_splits if_splits
      dest!: members_enqueue_to_outbound members_enqueue_to_members)

lemma members_offset:
  "gossip_update_output_buffer_offset g = Some (off, g') \<Longrightarrow> members g' = members g"
  by (auto simp: gossip_update_output_buffer_offset_def gossip_find_available_output_buffer_def Let_def
      split: Option.bind_splits option.splits if_splits)

lemma members_enqueue_message:
  "gossip_enqueue_message g t m to len sp = Some (r, g') \<Longrightarrow> members g' = members g"
  by (auto simp: gossip_enqueue_message_def Let_def split: Option.bind_splits if_splits
      dest!: members_distribute members_offset)

lemma drop_length_take: "drop n ys = drop (length (take n ys)) ys"
  by (cases "n \<le> length ys") simp_all

lemma send_lists_heap_release:
  assumes "send_member_lists g n (drop idx (take (ms_size (members g)) (ms_set (members g)))) to len res = Some (r, g')"
    "ms_size (members g) \<le> length (ms_set (members g))" "h a = Some block" "length block = n" "0 < n"
  shows "send_lists_heap g n idx h (Some a) to len res = Some (r, g', h(a := None))"
  using assms
proof (induction g n "drop idx (take (ms_size (members g)) (ms_set (members g)))" to len res
    arbitrary: idx h block rule: send_member_lists.induct)
  case (1 g n to len res)
  let ?slots = "drop idx (take (ms_size (members g)) (ms_set (members g)))"
  show ?case
  proof (cases "idx < ms_size (members g)")
    case True
    then have ne: "\<not> (?slots = [] \<or> n = 0)" using 1(3,6) by simp
    then obtain xs r1 g1 where x: "those (take n ?slots) = Some xs"
      and q: "gossip_enqueue_message g MESSAGE_MEMBER_LIST_TYPE
        (Member_List \<lparr>member_list_header = message_header_init MESSAGE_MEMBER_LIST_TYPE 0,
           members_n = of_nat (length xs), list_members = xs\<rparr>) to len GOSSIP_DIRECT = Some (r1, g1)"
      and cont: "if r1 < 0 then r = r1 \<and> g' = g1 else send_member_lists g1 n (drop n ?slots) to len r1 = Some (r, g')"
      using 1(2) by (subst (asm) send_member_lists.simps) (auto split: Option.bind_splits if_splits)
    have ms: "members g1 = members g" using members_enqueue_message [OF q] .
    have "take n ?slots \<noteq> []" using ne by simp
    then have xs: "xs \<noteq> []" "length xs = length (take n ?slots)" using x by (auto simp: those_eq_Some_iff)
    let ?block = "map Some xs @ drop (length xs) block"
    have fill: "fill_to_send (members g) n 0 idx h (Some a) = Some (length xs, idx + length xs, h(a \<mapsto> ?block))"
      using fill_to_send_block [of n 0 idx "members g" xs h a block] x 1(3-5) by simp
    have read: "read_members (h(a \<mapsto> ?block)) (Some a) (length xs) = Some xs" by (simp add: store_simps)
    have len: "length ?block = n" using 1(5) xs(2) by simp
    have rest: "drop n ?slots = drop (idx + length xs) (take (ms_size (members g1)) (ms_set (members g1)))"
      using drop_length_take [of n ?slots] by (simp only: ms xs(2) [symmetric] drop_drop add.commute)
    show ?thesis
    proof (cases "r1 < 0")
      case True
      then show ?thesis using \<open>idx < ms_size (members g)\<close> fill read q xs(1) cont
        by (subst send_lists_heap.simps) (simp add: store_simps)
    next
      case False
      then have "send_lists_heap g1 n (idx + length xs) (h(a \<mapsto> ?block)) (Some a) to len r1 = Some (r, g', (h(a \<mapsto> ?block))(a := None))"
        using 1(1) [OF ne x q refl False rest, of "h(a \<mapsto> ?block)" ?block] cont rest len ms 1(3,6) by simp
      then show ?thesis using \<open>idx < ms_size (members g)\<close> fill read q xs(1) False
        by (subst send_lists_heap.simps) simp
    qed
  next
    case False
    then have "r = res \<and> g' = g" using 1(2) by (simp add: send_member_lists.simps)
    then show ?thesis using False 1(4) by (subst send_lists_heap.simps) (simp add: store_simps)
  qed
qed

lemma enqueue_member_list_heap_releases:
  assumes "gossip_enqueue_member_list g to len = Some (r, g')" "h q = None"
  shows "gossip_enqueue_member_list_heap g h q to len = Some (r, g', h)"
proof (cases "ms_size (members g) = 0")
  case False
  define n where "n = (if ms_size (members g) > MEMBER_LIST_SYNC_SIZE then MEMBER_LIST_SYNC_SIZE else ms_size (members g))"
  have n: "0 < n" using False by (simp add: n_def)
  obtain ok e where m: "malloc (genv g) = (ok, e)" by (cases "malloc (genv g)")
  show ?thesis
  proof (cases ok)
    case True
    let ?g = "g\<lparr>genv := e\<rparr>"
    have "ms_size (members g) \<le> length (ms_set (members g))"
      and "send_member_lists ?g n (take (ms_size (members g)) (ms_set (members g))) to len 0 = Some (r, g')"
      using assms(1) m True False by (auto simp: gossip_enqueue_member_list_def Let_def n_def split: if_splits)
    then have "send_lists_heap ?g n 0 (h(q \<mapsto> replicate n None)) (Some q) to len 0 = Some (r, g', h)"
      using send_lists_heap_release [of ?g n 0 to len 0 r g' "h(q \<mapsto> replicate n None)" q "replicate n None"] n assms(2)
      by (simp add: fun_upd_idem)
    then show ?thesis using m True False
      by (simp add: gossip_enqueue_member_list_heap_def Let_def n_def store_simps)
  qed (use assms(1) m in \<open>auto simp: gossip_enqueue_member_list_heap_def gossip_enqueue_member_list_def Let_def
        store_simps split: if_splits\<close>)
qed (use assms in \<open>simp add: gossip_enqueue_member_list_heap_def gossip_enqueue_member_list_def\<close>)

section \<open>The handlers release what they decode\<close>

lemma handle_hello_heap_releases:
  assumes "gossip_handle_hello g x = Some (r, g')" "h p = None" "h q = None" "p \<noteq> q"
  shows "gossip_handle_hello_heap g h p q x = Some (r, g', h)"
proof (cases "state g = STATE_CONNECTED")
  case True
  then obtain d e where d: "message_hello_decode (genv g) (in_buffer x) (in_buffer_size x) = Some (d, e)"
    using assms(1) by (auto simp: gossip_handle_hello_def split: Option.bind_splits)
  show ?thesis
  proof (cases d)
    case (Inl err)
    then show ?thesis using assms(1,2) True d hello_msg.decode_fails [of _ _ _ err e h p, OF d [unfolded Inl]]
      by (auto simp: gossip_handle_hello_def gossip_handle_hello_heap_def)
  next
    case (Inr km)
    then obtain k m where km: "d = Inr (k, m)" by (cases km) simp
    obtain msg block where dh: "message_hello_decode_heap (genv g) h p (in_buffer x) (in_buffer_size x) =
        Some (Inr (k, msg), h(p \<mapsto> block), e)"
      and view: "hello_view (h(p \<mapsto> block)) msg = Some m"
      and free: "message_hello_destroy msg (h(p \<mapsto> block)) = Some h"
      using hello_msg.decode_owns [OF d [unfolded km], of h p] assms(2) by (auto simp: fun_upd_idem)
    have hd: "hello_t_header msg = hello_header m"
      "read_members (h(p \<mapsto> block)) (hello_t_this_member msg) (Suc 0) = Some [hello_this_member m]"
      using view_reads(1) [OF view] by auto
    have list: "gossip_enqueue_member_list g1 to len = Some (r1, g2) \<Longrightarrow>
        gossip_enqueue_member_list_heap g1 (h(p \<mapsto> block)) q to len = Some (r1, g2, h(p \<mapsto> block))" for g1 to len r1 g2
      using assms(3,4) by (intro enqueue_member_list_heap_releases) auto
    let ?to = "Some (sender x)" and ?len = "sender_len x"
    obtain r1 g1 r2 g2 r3 g3 r4 ms e4 where v:
      "gossip_enqueue_welcome (g\<lparr>genv := e\<rparr>) (header_sequence_num (hello_header m)) ?to ?len = Some (r1, g1)"
      "(if 0 < ms_size (members g1) then gossip_enqueue_member_list g1 ?to ?len else Some (err_code PITTACUS_ERR_NONE, g1)) = Some (r2, g2)"
      "gossip_enqueue_message g2 MESSAGE_MEMBER_LIST_TYPE (Member_List \<lparr>member_list_header =
         message_header_init MESSAGE_MEMBER_LIST_TYPE 0, members_n = 1, list_members = [hello_this_member m]\<rparr>)
         None 0 GOSSIP_BROADCAST = Some (r3, g3)"
      "cluster_member_set_put (genv g3) (members g3) [hello_this_member m] = Some (r4, ms, e4)"
      "r = 0" "g' = g3\<lparr>members := ms, genv := e4\<rparr>"
      using assms(1) True d by (auto simp: km gossip_handle_hello_def bind_eq_Some_conv)
    have "(if 0 < ms_size (members g1) then gossip_enqueue_member_list_heap g1 (h(p \<mapsto> block)) q ?to ?len
        else Some (err_code PITTACUS_ERR_NONE, g1, h(p \<mapsto> block))) = Some (r2, g2, h(p \<mapsto> block))"
      using v(2) list by (auto split: if_splits simp del: fun_upd_apply)
    then show ?thesis using True v(1,3-) hd dh free
      by (simp add: gossip_handle_hello_heap_def del: fun_upd_apply)
  qed
qed (use assms(1) in \<open>simp add: gossip_handle_hello_def gossip_handle_hello_heap_def\<close>)

lemma handle_welcome_heap_releases:
  assumes "gossip_handle_welcome g x = Some (r, g')" "h p = None"
  shows "gossip_handle_welcome_heap g h p x = Some (r, g', h)"
proof -
  obtain d e where d: "message_welcome_decode (genv g) (in_buffer x) (in_buffer_size x) = Some (d, e)"
    using assms(1) by (auto simp: gossip_handle_welcome_def split: Option.bind_splits)
  show ?thesis
  proof (cases d)
    case (Inl err)
    then show ?thesis using assms d welcome_msg.decode_fails [of _ _ _ err e h p, OF d [unfolded Inl]]
      by (auto simp: gossip_handle_welcome_def gossip_handle_welcome_heap_def)
  next
    case (Inr km)
    then obtain k m where km: "d = Inr (k, m)" by (cases km) simp
    obtain msg h' where dh: "message_welcome_decode_heap (genv g) h p (in_buffer x) (in_buffer_size x) =
        Some (Inr (k, msg), h', e)" "welcome_view h' msg = Some m" "message_welcome_destroy msg h' = Some h"
      using welcome_msg.life_cycle [OF d [unfolded km], of h p] assms(2) by auto
    then have "welcome_t_sequence_num msg = hello_sequence_num m"
      "read_members h' (welcome_t_this_member msg) (Suc 0) = Some [welcome_this_member m]"
      using view_reads(2) by auto
    then show ?thesis using assms(1) d dh(1,3)
      by (auto simp: km gossip_handle_welcome_def gossip_handle_welcome_heap_def Let_def bind_eq_Some_conv)
  qed
qed

text \<open>The one exception: the array of a list that is cut short, which was allocated and is returned to nobody.\<close>

definition leaks :: "pittacus_gossip \<Rightarrow> message_envelope_in \<Rightarrow> bool" where
  "leaks g x \<longleftrightarrow> state g = STATE_CONNECTED \<and> fst (malloc (genv g)) \<and> cut_short (in_buffer x) (in_buffer_size x)"

lemma handle_member_list_heap_releases:
  assumes "gossip_handle_member_list g x = Some (r, g')" "h p = None"
  shows "\<exists>h'. gossip_handle_member_list_heap g h p x = Some (r, g', h')
     \<and> (if leaks g x then \<exists>block. h' = h(p \<mapsto> block) else h' = h)"
proof (cases "state g = STATE_CONNECTED")
  case True
  then obtain d e where d: "message_member_list_decode (genv g) (in_buffer x) (in_buffer_size x) = Some (d, e)"
    using assms(1) by (auto simp: gossip_handle_member_list_def split: Option.bind_splits)
  show ?thesis
  proof (cases d)
    case (Inl err)
    then show ?thesis using assms True d list_msg.decode_fails [of _ _ _ err e h p, OF d [unfolded Inl]]
      by (auto simp: gossip_handle_member_list_def gossip_handle_member_list_heap_def leaks_def)
  next
    case (Inr km)
    then obtain k m where km: "d = Inr (k, m)" by (cases km) simp
    obtain msg h' where dh: "message_member_list_decode_heap (genv g) h p (in_buffer x) (in_buffer_size x) =
        Some (Inr (k, msg), h', e)" "member_list_view h' msg = Some m" "message_member_list_destroy msg h' = Some h"
      using list_msg.life_cycle [OF d [unfolded km], of h p] assms(2) by auto
    have "\<not> leaks g x" using d
      by (auto simp: km leaks_def cut_short_def message_member_list_decode_def dest!: header_decode_size
          split: Option.bind_splits sum.splits option.splits if_splits prod.splits)
    then show ?thesis using assms(1) True d dh(1,3) view_reads(3) [OF dh(2)]
      by (auto simp: km gossip_handle_member_list_def gossip_handle_member_list_heap_def Let_def bind_eq_Some_conv)
  qed
qed (use assms(1) in \<open>simp add: gossip_handle_member_list_def gossip_handle_member_list_heap_def leaks_def\<close>)

lemma handle_new_message_heap_releases:
  assumes "gossip_handle_new_message receiver g x = Some (r, g')" "h p = None" "h q = None" "p \<noteq> q"
  shows "\<exists>h'. gossip_handle_new_message_heap receiver g h p q x = Some (r, g', h')
     \<and> (if leaks g x then \<exists>block. h' = h(p \<mapsto> block) else h' = h)"
proof -
  obtain t where t: "message_type_decode (in_buffer x) (in_buffer_size x) = Some t"
    using assms(1) by (auto simp: gossip_handle_new_message_def split: Option.bind_splits)
  have no_leak: "\<not> leaks g x" if "t \<noteq> Inr MESSAGE_MEMBER_LIST_TYPE"
    using that t by (auto simp: leaks_def cut_short_def message_is_payload_valid_def split: if_splits)
  consider "t = Inr MESSAGE_HELLO_TYPE" | "t = Inr MESSAGE_WELCOME_TYPE" | "t = Inr MESSAGE_MEMBER_LIST_TYPE"
    | "t \<notin> {Inr MESSAGE_HELLO_TYPE, Inr MESSAGE_WELCOME_TYPE, Inr MESSAGE_MEMBER_LIST_TYPE}" by blast
  then show ?thesis
  proof cases
    case 1
    then show ?thesis using assms t no_leak handle_hello_heap_releases [of g x r g' h p q]
      by (simp add: gossip_handle_new_message_def gossip_handle_new_message_heap_def)
  next
    case 2
    then show ?thesis using assms t no_leak handle_welcome_heap_releases [of g x r g' h p]
      by (simp add: gossip_handle_new_message_def gossip_handle_new_message_heap_def)
  next
    case 3
    then show ?thesis using assms t handle_member_list_heap_releases [of g x r g' h p]
      by (simp add: gossip_handle_new_message_def gossip_handle_new_message_heap_def)
  next
    case 4
    then show ?thesis using assms(1) t no_leak
      by (auto simp: gossip_handle_new_message_def gossip_handle_new_message_heap_def with_store_def)
  qed
qed

text \<open>Datagrams one after the other, with the addresses the allocator chooses for each.\<close>

fun handle_packets_heap ::
  "data_receiver option \<Rightarrow> pittacus_gossip \<Rightarrow> store \<Rightarrow> (ptr \<times> ptr \<times> message_envelope_in) list
     \<Rightarrow> (int list \<times> pittacus_gossip \<times> store) option" where
  "handle_packets_heap receiver g h [] = Some ([], g, h)"
| "handle_packets_heap receiver g h ((p, q, x) # xs) = do {
     (r, g, h) \<leftarrow> gossip_handle_new_message_heap receiver (g\<lparr>input_buffer := in_buffer x\<rparr>) h p q x;
     (rs, g, h) \<leftarrow> handle_packets_heap receiver g h xs;
     Some (r # rs, g, h)
   }"

text \<open>A datagram of 14 bytes that announces \<open>count\<close> members and carries none.\<close>

definition bare_list :: "u16 \<Rightarrow> message_envelope_in \<Rightarrow> bool" where
  "bare_list count x \<longleftrightarrow> in_buffer_size x = 14
     \<and> (\<exists>n rest. in_buffer x = header_bytes (message_header_init MESSAGE_MEMBER_LIST_TYPE n) @ be16 count @ rest)"

lemma handle_bare_list:
  assumes "bare_list count x" "0 < count" "state g = STATE_CONNECTED" "allocs_ok (genv g)" "h p = None"
  shows "\<exists>e. gossip_handle_new_message_heap receiver g h p q x =
       Some (err_code PITTACUS_ERR_BUFFER_NOT_ENOUGH, g\<lparr>genv := e\<rparr>, h(p \<mapsto> replicate (unat count) None)) \<and> allocs_ok e"
proof -
  obtain n rest where x: "in_buffer_size x = 14"
    "in_buffer x = header_bytes (message_header_init MESSAGE_MEMBER_LIST_TYPE n) @ be16 count @ rest"
    using assms(1) by (auto simp: bare_list_def)
  obtain e where e: "malloc (genv g) = (True, e)" "allocs_ok e" using malloc_ok [OF assms(4)] by blast
  obtain k where k: "unat count = Suc k" using assms(2) by (cases "unat count") (auto simp: unat_eq_0 word_gt_0)
  have idx: "[0..<unat count] = 0 # [1..<unat count]" by (simp add: k upt_conv_Cons del: upt_Suc)
  have type: "message_type_decode (in_buffer x) 14 = Some (Inr MESSAGE_MEMBER_LIST_TYPE)"
    unfolding x(2) by (simp add: message_type_decode_def header_bytes_def message_header_init_def arr_get_def nth_append)
  have valid: "message_is_payload_valid (in_buffer x) 14 MESSAGE_MEMBER_LIST_TYPE = Some True"
    and header: "message_header_decode (in_buffer x) 14 = Some (Inr (12, message_header_init MESSAGE_MEMBER_LIST_TYPE n))"
    and cnt: "uint16_decode (in_buffer x) 12 = Some count"
    unfolding x(2) by (simp_all add: header_init_simps codec_simps)
  have empty: "cluster_member_decode (drop 14 (in_buffer x)) 0 = Some (Inl PITTACUS_ERR_BUFFER_NOT_ENOUGH)"
    by (simp add: cluster_member_decode_def)
  have "message_member_list_decode_heap (genv g) h p (in_buffer x) 14 =
      Some (Inl PITTACUS_ERR_BUFFER_NOT_ENOUGH, h(p \<mapsto> replicate (unat count) None), e)"
    using member_list_decode_heap_eq(2) [OF valid _ header cnt, of "genv g" h p] e(1) empty by (simp add: idx)
  then show ?thesis using assms(3) e(2) type x(1)
    by (intro exI [of _ e]) (simp add: gossip_handle_new_message_heap_def gossip_handle_member_list_heap_def)
qed

lemma handle_bare_lists:
  assumes "\<forall>(p, q, x) \<in> set xs. bare_list count x" "0 < count" "state g = STATE_CONNECTED" "allocs_ok (genv g)"
    "distinct (map fst xs)" "fst ` set xs \<inter> dom h = {}"
  shows "\<exists>e i. handle_packets_heap receiver g h xs =
       Some (replicate (length xs) (err_code PITTACUS_ERR_BUFFER_NOT_ENOUGH), g\<lparr>genv := e, input_buffer := i\<rparr>,
         override_on h (\<lambda>_. Some (replicate (unat count) None)) (fst ` set xs))"
  using assms
proof (induction xs arbitrary: g h)
  case Nil
  show ?case by (intro exI [of _ "genv g"] exI [of _ "input_buffer g"]) simp
next
  case (Cons y xs)
  obtain p q x where y: "y = (p, q, x)" by (cases y)
  let ?block = "replicate (unat count) None"
  let ?g = "g\<lparr>input_buffer := in_buffer x\<rparr>" and ?h = "h(p \<mapsto> ?block)"
  obtain e where e: "gossip_handle_new_message_heap receiver ?g h p q x =
      Some (err_code PITTACUS_ERR_BUFFER_NOT_ENOUGH, ?g\<lparr>genv := e\<rparr>, ?h)" "allocs_ok e"
    using handle_bare_list [of count x ?g h p receiver q] Cons.prems by (auto simp: y)
  have "fst ` set xs \<inter> dom ?h = {}" using Cons.prems(5,6) by (force simp: y)
  then obtain e' i where "handle_packets_heap receiver (?g\<lparr>genv := e\<rparr>) ?h xs =
      Some (replicate (length xs) (err_code PITTACUS_ERR_BUFFER_NOT_ENOUGH), ?g\<lparr>genv := e', input_buffer := i\<rparr>,
        override_on ?h (\<lambda>_. Some ?block) (fst ` set xs))"
    using Cons.IH [of "?g\<lparr>genv := e\<rparr>" ?h] Cons.prems e(2) by (auto simp del: fun_upd_apply)
  moreover have "override_on ?h (\<lambda>_. Some ?block) (fst ` set xs) = override_on h (\<lambda>_. Some ?block) (fst ` set (y # xs))"
    by (auto simp: override_on_def y)
  ultimately show ?case using e(1)
    by (intro exI [of _ e'] exI [of _ i]) (simp add: y)
qed

text \<open>C13. Nothing is used after it was released, released twice, or forgotten when a valid node handles a datagram
  within \<open>packet_ok\<close> from an address of the family's length and no allocation fails (\<open>gossip_inv\<close>,
  \<open>envelope_in_ok\<close>): the handlers that keep a decoded message in allocated memory do what the handlers on values do,
  and afterwards the memory is as it was before the datagram arrived, except when the array of a member list
  is lost, and that happens exactly for a list that ends before the number of members it announces (\<open>leaks\<close>).
  Paths on which an allocation fails, or a decoder leaves the input buffer, are not part of the claim.\<close>

theorem handlers_release_messages:
  assumes "receiver_contract L receiver" "gossip_inv L g" "envelope_in_ok L g x" "h p = None" "h q = None" "p \<noteq> q"
  shows "\<exists>r g' h'. gossip_handle_new_message receiver g x = Some (r, g')
     \<and> gossip_handle_new_message_heap receiver g h p q x = Some (r, g', h')
     \<and> (if leaks g x then \<exists>block. h' = h(p \<mapsto> block) else h' = h)"
proof -
  obtain r g' where "gossip_handle_new_message receiver g x = Some (r, g')"
    using receiver_contract.handle_new_message_ok [OF assms(1-3)] by blast
  with handle_new_message_heap_releases [OF this assms(4-6)] show ?thesis by blast
qed

theorem handlers_release_messages_witness:
  "\<exists>r g' h'. gossip_handle_new_message None ex_joining ex_welcome_packet = Some (r, g')
     \<and> gossip_handle_new_message_heap None ex_joining Map.empty 0 1 ex_welcome_packet = Some (r, g', h')
     \<and> (if leaks ex_joining ex_welcome_packet then \<exists>block. h' = [0 \<mapsto> block] else h' = Map.empty)"
  by (rule handlers_release_messages [OF no_receiver.receiver_contract_axioms [of 16]]) simp_all

text \<open>C37. A datagram of 14 bytes costs a connected node the memory of as many members as it announces, for good: any
  number of member lists that announce members and carry none is refused one by one, the node stays as it was,
  and each of them leaves its array allocated, with no pointer to it.\<close>

theorem bare_lists_exhaust_memory:
  assumes "\<forall>(p, q, x) \<in> set xs. bare_list count x" "0 < count" "state g = STATE_CONNECTED" "allocs_ok (genv g)"
    "distinct (map fst xs)" "fst ` set xs \<inter> dom h = {}"
  shows "\<exists>e i h'. handle_packets_heap receiver g h xs =
       Some (replicate (length xs) (err_code PITTACUS_ERR_BUFFER_NOT_ENOUGH), g\<lparr>genv := e, input_buffer := i\<rparr>, h')
     \<and> dom h' = dom h \<union> fst ` set xs \<and> card (fst ` set xs) = length xs
     \<and> (\<forall>p \<in> fst ` set xs. h' p = Some (replicate (unat count) None))"
proof -
  let ?h = "override_on h (\<lambda>_. Some (replicate (unat count) None)) (fst ` set xs)"
  have "card (fst ` set xs) = length xs" using distinct_card [OF assms(5)] by simp
  moreover have "dom ?h = dom h \<union> fst ` set xs" "\<forall>p \<in> fst ` set xs. ?h p = Some (replicate (unat count) None)"
    by (auto simp: override_on_def dom_def)
  ultimately show ?thesis using handle_bare_lists [OF assms, of receiver] by blast
qed

definition ex_bare :: message_envelope_in where
  "ex_bare = \<lparr>sender = ex_addr, sender_len = 16, in_buffer =
     header_bytes (message_header_init MESSAGE_MEMBER_LIST_TYPE 0) @ be16 65535 @ replicate 498 0, in_buffer_size = 14\<rparr>"

theorem bare_lists_exhaust_memory_witness:
  "\<exists>e i h'. handle_packets_heap None ex_node Map.empty [(0, 1, ex_bare), (2, 3, ex_bare)] =
       Some ([err_code PITTACUS_ERR_BUFFER_NOT_ENOUGH, err_code PITTACUS_ERR_BUFFER_NOT_ENOUGH],
         ex_node\<lparr>genv := e, input_buffer := i\<rparr>, h')
     \<and> dom h' = {0, 2} \<and> h' 2 = Some (replicate 65535 None)"
proof -
  have "bare_list 65535 ex_bare" unfolding bare_list_def ex_bare_def message_envelope_in.simps by blast
  moreover have "state ex_node = STATE_CONNECTED" "allocs_ok (genv ex_node)" by (simp_all add: ex_node_def)
  ultimately show ?thesis
    using bare_lists_exhaust_memory [of "[(0, 1, ex_bare), (2, 3, ex_bare)]" 65535 ex_node Map.empty None]
    by (auto simp del: handle_packets_heap.simps)
qed

end
