(* ===== verification/Pt_Set_Heap.thy ===== *)
theory Pt_Set_Heap
  imports Pt_Queue
begin

text \<open>
  The member set of \<^verbatim>\<open>member.c\<close> in memory. In \<open>Pt_Member\<close> the array of the set holds members; in the program it
  holds pointers to members, each allocated on its own, with a pointer to an address that is
  allocated too. Here the operations are translated pointer by pointer, over a heap with a part for
  each type of block.

  The relation \<open>set_rep\<close> says that a heap consists of a part the set has nothing to do with and of exactly
  the blocks of a set that \<open>Pt_Member\<close> describes by its value. Every operation that is defined on the
  value is defined on the heap, with the same result, and keeps the relation: no pointer dangles, no
  block is shared, freed twice or lost, and nothing else is touched. Destroying the set gives back
  the part that was there without it.
\<close>

section \<open>The heap\<close>

record member_cell =
  cell_version :: u16
  cell_uid :: u32
  cell_address_len :: u32
  cell_address :: "ptr option"

record set_heap =
  arrays :: "ptr \<rightharpoonup> ptr option list"
  cells :: "ptr \<rightharpoonup> member_cell"
  addrs :: "ptr \<rightharpoonup> u8 list"

record cluster_member_set_t =
  set_t_set :: "ptr option"
  set_t_size :: nat
  set_t_capacity :: nat

text \<open>
  The allocator chooses the address of a new block by the addresses in use; that it chooses none
  of them is all that is assumed of it (\<open>fresh_addresses\<close>). Addresses of freed blocks may come again.
\<close>

type_synonym allocator = "ptr set \<Rightarrow> ptr"

locale fresh_addresses =
  fixes new :: allocator
  assumes fresh: "finite A \<Longrightarrow> new A \<notin> A"

definition calloc_array :: "allocator \<Rightarrow> env \<Rightarrow> set_heap \<Rightarrow> nat \<Rightarrow> ptr option \<times> set_heap \<times> env" where
  "calloc_array new e h n =
     (let (ok, e) = malloc e; p = new (dom (arrays h))
      in if ok then (Some p, h\<lparr>arrays := (arrays h)(p \<mapsto> replicate n None)\<rparr>, e) else (None, h, e))"

definition malloc_cell :: "allocator \<Rightarrow> env \<Rightarrow> set_heap \<Rightarrow> ptr option \<times> set_heap \<times> env" where
  "malloc_cell new e h =
     (let (ok, e) = malloc e; p = new (dom (cells h))
      in if ok then (Some p, h\<lparr>cells := (cells h)(p \<mapsto>
             \<lparr>cell_version = 0, cell_uid = 0, cell_address_len = 0, cell_address = None\<rparr>)\<rparr>, e)
         else (None, h, e))"

definition malloc_addr :: "allocator \<Rightarrow> env \<Rightarrow> set_heap \<Rightarrow> nat \<Rightarrow> ptr option \<times> set_heap \<times> env" where
  "malloc_addr new e h n =
     (let (ok, e) = malloc e; p = new (dom (addrs h))
      in if ok then (Some p, h\<lparr>addrs := (addrs h)(p \<mapsto> replicate n 0)\<rparr>, e) else (None, h, e))"

text \<open>\<^verbatim>\<open>free\<close> of each type of block: nothing happens to \<^verbatim>\<open>NULL\<close>, and what is not allocated must not be freed.\<close>

definition free_block :: "(ptr \<rightharpoonup> 'b) \<Rightarrow> ptr option \<Rightarrow> (ptr \<rightharpoonup> 'b) option" where
  "free_block m p = (case p of
       None \<Rightarrow> Some m
     | Some a \<Rightarrow> (case m a of None \<Rightarrow> None | Some _ \<Rightarrow> Some (m(a := None))))"

definition free_array :: "set_heap \<Rightarrow> ptr option \<Rightarrow> set_heap option" where
  "free_array h p = do { m \<leftarrow> free_block (arrays h) p; Some (h\<lparr>arrays := m\<rparr>) }"

definition free_cell :: "set_heap \<Rightarrow> ptr option \<Rightarrow> set_heap option" where
  "free_cell h p = do { m \<leftarrow> free_block (cells h) p; Some (h\<lparr>cells := m\<rparr>) }"

definition free_addr :: "set_heap \<Rightarrow> ptr option \<Rightarrow> set_heap option" where
  "free_addr h p = do { m \<leftarrow> free_block (addrs h) p; Some (h\<lparr>addrs := m\<rparr>) }"

text \<open>Reading the member behind a pointer, its address included, and the slots of the set's array.\<close>

definition view_member :: "set_heap \<Rightarrow> ptr option \<Rightarrow> cluster_member option" where
  "view_member h p = do {
     p \<leftarrow> p;
     c \<leftarrow> cells h p;
     Some \<lparr>version = cell_version c, uid = cell_uid c, address_len = cell_address_len c,
           address = do { a \<leftarrow> cell_address c; addrs h a }\<rparr>
   }"

definition get_slot :: "set_heap \<Rightarrow> ptr option \<Rightarrow> nat \<Rightarrow> ptr option option" where
  "get_slot h array i = do {
     a \<leftarrow> array;
     slots \<leftarrow> arrays h a;
     arr_get slots i
   }"

definition set_slot :: "set_heap \<Rightarrow> ptr option \<Rightarrow> nat \<Rightarrow> ptr option \<Rightarrow> set_heap option" where
  "set_slot h array i p = do {
     a \<leftarrow> array;
     slots \<leftarrow> arrays h a;
     slots \<leftarrow> arr_set slots i p;
     Some (h\<lparr>arrays := (arrays h)(a \<mapsto> slots)\<rparr>)
   }"

section \<open>Operations\<close>

definition cluster_member_copy_heap ::
  "allocator \<Rightarrow> env \<Rightarrow> set_heap \<Rightarrow> ptr \<Rightarrow> cluster_member \<Rightarrow> (pittacus_error \<times> set_heap \<times> env) option" where
  "cluster_member_copy_heap new e h dst src = do {
     _ \<leftarrow> cells h dst;
     let (a, h, e) = malloc_addr new e h (unat (address_len src));
     let h = h\<lparr>cells := (cells h)(dst \<mapsto> \<lparr>cell_version = version src, cell_uid = uid src,
               cell_address_len = address_len src, cell_address = a\<rparr>)\<rparr>;
     case a of
       None \<Rightarrow> Some (PITTACUS_ERR_ALLOCATION_FAILED, h, e)
     | Some a \<Rightarrow> do {
         s \<leftarrow> address src;
         bs \<leftarrow> mem_read s 0 (unat (address_len src));
         block \<leftarrow> addrs h a;
         block \<leftarrow> mem_write block 0 bs;
         Some (PITTACUS_ERR_NONE, h\<lparr>addrs := (addrs h)(a \<mapsto> block)\<rparr>, e)
       }
   }"

definition cluster_member_equals_heap :: "set_heap \<Rightarrow> ptr option \<Rightarrow> cluster_member \<Rightarrow> bool option" where
  "cluster_member_equals_heap h p second = do {
     first \<leftarrow> view_member h p;
     cluster_member_equals first second
   }"

definition cluster_member_destroy_heap :: "set_heap \<Rightarrow> ptr \<Rightarrow> set_heap option" where
  "cluster_member_destroy_heap h p = do {
     c \<leftarrow> cells h p;
     free_addr h (cell_address c)
   }"

definition cluster_member_set_item_destroy :: "set_heap \<Rightarrow> ptr option \<Rightarrow> set_heap option" where
  "cluster_member_set_item_destroy h member = (case member of
       None \<Rightarrow> Some h
     | Some p \<Rightarrow> do {
         h \<leftarrow> cluster_member_destroy_heap h p;
         free_cell h member
       })"

definition cluster_member_set_init_heap ::
  "allocator \<Rightarrow> env \<Rightarrow> set_heap \<Rightarrow> cluster_member_set_t \<Rightarrow> pittacus_error \<times> set_heap \<times> cluster_member_set_t \<times> env" where
  "cluster_member_set_init_heap new e h members =
     (let capacity = MEMBERS_INITIAL_CAPACITY; (member_set, h, e) = calloc_array new e h capacity
      in if member_set = None then (PITTACUS_ERR_ALLOCATION_FAILED, h, members, e)
         else (PITTACUS_ERR_NONE, h, \<lparr>set_t_set = member_set, set_t_size = 0, set_t_capacity = capacity\<rparr>, e))"

definition cluster_member_set_extend_heap ::
  "allocator \<Rightarrow> env \<Rightarrow> set_heap \<Rightarrow> cluster_member_set_t \<Rightarrow> nat
     \<Rightarrow> (bool \<times> set_heap \<times> cluster_member_set_t \<times> env) option" where
  "cluster_member_set_extend_heap new e h members required_size = do {
     new_capacity \<leftarrow> extend_capacity required_size (set_t_capacity members);
     let (new_member_set, h, e) = calloc_array new e h new_capacity;
     if new_member_set = None then Some (False, h, members, e)
     else do {
       h \<leftarrow> for_loop 0 (set_t_size members) (\<lambda>i h. do {
           p \<leftarrow> get_slot h (set_t_set members) i;
           if p \<noteq> None then set_slot h new_member_set i p else Some h
         }) h;
       h \<leftarrow> free_array h (set_t_set members);
       Some (True, h, members\<lparr>set_t_capacity := new_capacity, set_t_set := new_member_set\<rparr>, e)
     }
   }"

fun put_members_heap ::
  "allocator \<Rightarrow> env \<Rightarrow> set_heap \<Rightarrow> cluster_member_set_t \<Rightarrow> cluster_member list
     \<Rightarrow> (pittacus_error \<times> set_heap \<times> cluster_member_set_t \<times> env) option" where
  "put_members_heap new e h members [] = Some (PITTACUS_ERR_NONE, h, members, e)"
| "put_members_heap new e h members (current # rest) = do {
     exists \<leftarrow> find_loop 0 (set_t_size members) (\<lambda>i. do {
         p \<leftarrow> get_slot h (set_t_set members) i;
         cluster_member_equals_heap h p current
       });
     if exists \<noteq> None then put_members_heap new e h members rest
     else do {
       let (new_member, h, e) = malloc_cell new e h;
       case new_member of
         None \<Rightarrow> Some (PITTACUS_ERR_ALLOCATION_FAILED, h, members, e)
       | Some p \<Rightarrow> do {
           (_, h, e) \<leftarrow> cluster_member_copy_heap new e h p current;
           h \<leftarrow> set_slot h (set_t_set members) (set_t_size members) new_member;
           put_members_heap new e h (members\<lparr>set_t_size := set_t_size members + 1\<rparr>) rest
         }
     }
   }"

definition cluster_member_set_put_heap ::
  "allocator \<Rightarrow> env \<Rightarrow> set_heap \<Rightarrow> cluster_member_set_t \<Rightarrow> cluster_member list
     \<Rightarrow> (pittacus_error \<times> set_heap \<times> cluster_member_set_t \<times> env) option" where
  "cluster_member_set_put_heap new e h members new_members =
     (let new_size = (set_t_size members + length new_members) mod 2 ^ 32
      in if over_load_factor new_size (set_t_capacity members)
         then do {
           (extended, h, members, e) \<leftarrow> cluster_member_set_extend_heap new e h members new_size;
           if \<not> extended then Some (PITTACUS_ERR_ALLOCATION_FAILED, h, members, e)
           else put_members_heap new e h members new_members
         }
         else put_members_heap new e h members new_members)"

definition cluster_member_set_destroy_heap :: "set_heap \<Rightarrow> cluster_member_set_t \<Rightarrow> set_heap option" where
  "cluster_member_set_destroy_heap h members = do {
     h \<leftarrow> for_loop 0 (set_t_size members) (\<lambda>i h. do {
         p \<leftarrow> get_slot h (set_t_set members) i;
         cluster_member_set_item_destroy h p
       }) h;
     free_array h (set_t_set members)
   }"

definition cluster_member_set_shift_heap ::
  "set_heap \<Rightarrow> cluster_member_set_t \<Rightarrow> nat \<Rightarrow> (set_heap \<times> cluster_member_set_t) option" where
  "cluster_member_set_shift_heap h members idx = do {
     h \<leftarrow> for_loop idx (pred32 (set_t_size members)) (\<lambda>i h. do {
         p \<leftarrow> get_slot h (set_t_set members) (i + 1);
         set_slot h (set_t_set members) i p
       }) h;
     Some (h, members\<lparr>set_t_size := pred32 (set_t_size members)\<rparr>)
   }"

definition cluster_member_set_remove_heap ::
  "set_heap \<Rightarrow> cluster_member_set_t \<Rightarrow> ptr option \<Rightarrow> (bool \<times> set_heap \<times> cluster_member_set_t) option" where
  "cluster_member_set_remove_heap h members member = do {
     found \<leftarrow> find_loop 0 (set_t_size members) (\<lambda>i. do {
         p \<leftarrow> get_slot h (set_t_set members) i;
         Some (p = member)
       });
     case found of
       None \<Rightarrow> Some (False, h, members)
     | Some i \<Rightarrow> do {
         h \<leftarrow> cluster_member_set_item_destroy h member;
         (h, members) \<leftarrow> cluster_member_set_shift_heap h members i;
         Some (True, h, members)
       }
   }"

text \<open>The test of both look-ups by address on the member in a slot.\<close>

definition addr_matches_heap :: "set_heap \<Rightarrow> cluster_member_set_t \<Rightarrow> u8 list \<Rightarrow> nat \<Rightarrow> nat \<Rightarrow> bool option" where
  "addr_matches_heap h members addr addr_size i = do {
     p \<leftarrow> get_slot h (set_t_set members) i;
     m \<leftarrow> view_member h p;
     memcmp_eq (address m) (Some addr) addr_size
   }"

definition cluster_member_set_find_by_addr_heap ::
  "set_heap \<Rightarrow> cluster_member_set_t \<Rightarrow> u8 list \<Rightarrow> nat \<Rightarrow> ptr option option" where
  "cluster_member_set_find_by_addr_heap h members addr addr_size = do {
     found \<leftarrow> find_loop 0 (set_t_size members) (addr_matches_heap h members addr addr_size);
     case found of
       None \<Rightarrow> Some None
     | Some i \<Rightarrow> get_slot h (set_t_set members) i
   }"

definition cluster_member_set_remove_by_addr_heap ::
  "set_heap \<Rightarrow> cluster_member_set_t \<Rightarrow> u8 list \<Rightarrow> nat \<Rightarrow> (bool \<times> set_heap \<times> cluster_member_set_t) option" where
  "cluster_member_set_remove_by_addr_heap h members addr addr_size = do {
     found \<leftarrow> find_loop 0 (set_t_size members) (addr_matches_heap h members addr addr_size);
     case found of
       None \<Rightarrow> Some (False, h, members)
     | Some i \<Rightarrow> do {
         p \<leftarrow> get_slot h (set_t_set members) i;
         h \<leftarrow> cluster_member_set_item_destroy h p;
         (h, members) \<leftarrow> cluster_member_set_shift_heap h members i;
         Some (True, h, members)
       }
   }"

section \<open>What a set owns\<close>

text \<open>An owned member: the address of its block, that of its address block, and its value.\<close>

type_synonym owned = "ptr \<times> ptr option \<times> cluster_member"

definition cell_list :: "owned list \<Rightarrow> (ptr \<times> member_cell) list" where
  "cell_list own = map (\<lambda>(p, a, m). (p, \<lparr>cell_version = version m, cell_uid = uid m,
     cell_address_len = address_len m, cell_address = a\<rparr>)) own"

definition addr_list :: "owned list \<Rightarrow> (ptr \<times> u8 list) list" where
  "addr_list own = concat (map (\<lambda>(p, a, m). case a of None \<Rightarrow> [] | Some a \<Rightarrow> [(a, the (address m))]) own)"

text \<open>\<open>adds m0 m xs\<close>: the blocks of \<open>m\<close> are those of \<open>m0\<close> and, apart from them, those of \<open>xs\<close>.\<close>

definition adds :: "(ptr \<rightharpoonup> 'b) \<Rightarrow> (ptr \<rightharpoonup> 'b) \<Rightarrow> (ptr \<times> 'b) list \<Rightarrow> bool" where
  "adds m0 m xs \<longleftrightarrow> m = m0 ++ map_of xs \<and> distinct (map fst xs) \<and> fst ` set xs \<inter> dom m0 = {} \<and> finite (dom m0)"

definition owns :: "set_heap \<Rightarrow> set_heap \<Rightarrow> owned list \<Rightarrow> bool" where
  "owns h0 h own \<longleftrightarrow> adds (cells h0) (cells h) (cell_list own) \<and> adds (addrs h0) (addrs h) (addr_list own)
     \<and> (\<forall>(p, a, m) \<in> set own. a = None \<longleftrightarrow> address m = None)"

text \<open>
  The slots in use hold the owned members, in the order of the value; what lies behind them in the
  array does not matter.
\<close>

definition set_rep :: "set_heap \<Rightarrow> set_heap \<Rightarrow> cluster_member_set_t \<Rightarrow> cluster_member_set \<Rightarrow> owned list \<Rightarrow> bool" where
  "set_rep h0 h t s own \<longleftrightarrow> owns h0 h own
     \<and> (\<exists>arr slots. set_t_set t = Some arr \<and> adds (arrays h0) (arrays h) [(arr, slots)]
          \<and> length slots = length (ms_set s) \<and> take (ms_size s) slots = map (\<lambda>(p, a, m). Some p) own)
     \<and> take (ms_size s) (ms_set s) = map (\<lambda>(p, a, m). Some m) own
     \<and> ms_size s \<le> length (ms_set s) \<and> set_t_size t = ms_size s \<and> set_t_capacity t = ms_capacity s"

section \<open>Adding and taking away blocks\<close>

lemma adds_empty [simp]: "adds m0 m [] \<longleftrightarrow> m = m0 \<and> finite (dom m0)"
  by (auto simp: adds_def)

lemma adds_lookup: "adds m0 m xs \<Longrightarrow> (p, b) \<in> set xs \<Longrightarrow> m p = Some b"
  by (auto simp: adds_def map_add_Some_iff)

lemma adds_finite: "adds m0 m xs \<Longrightarrow> finite (dom m)"
  by (auto simp: adds_def finite_dom_map_of)

lemma adds_dom: "adds m0 m xs \<Longrightarrow> dom m = dom m0 \<union> fst ` set xs"
  by (auto simp: adds_def dom_map_of_conv_image_fst)

lemma adds_push:
  assumes "adds m0 m xs" "m p = None"
  shows "adds m0 (m(p \<mapsto> b)) (xs @ [(p, b)])"
proof -
  have p: "p \<notin> fst ` set xs" "m0 p = None" using assms by (auto simp: adds_def map_add_def split: option.splits)
  then have "m(p \<mapsto> b) = m0 ++ map_of (xs @ [(p, b)])"
    using assms(1) by (auto simp: adds_def map_add_def map_of_eq_None_iff fun_eq_iff split: option.splits)
  then show ?thesis using assms(1) p by (auto simp: adds_def)
qed

lemma adds_take:
  assumes "adds m0 m (xs @ (p, b) # ys)"
  shows "m p = Some b" "adds m0 (m(p := None)) (xs @ ys)"
proof -
  show "m p = Some b" using assms by (intro adds_lookup) auto
  have p: "p \<notin> fst ` set xs" "p \<notin> fst ` set ys" "m0 p = None" using assms by (auto simp: adds_def)
  then have none: "map_of xs p = None" "map_of ys p = None" by (simp_all add: map_of_eq_None_iff)
  have "m = m0 ++ map_of (xs @ (p, b) # ys)" using assms by (simp add: adds_def)
  then have "(m(p := None)) x = (m0 ++ map_of (xs @ ys)) x" for x
    using p(3) none by (cases "x = p") (simp_all add: map_add_def split: option.splits)
  then have "m(p := None) = m0 ++ map_of (xs @ ys)" by blast
  then show "adds m0 (m(p := None)) (xs @ ys)" using assms by (auto simp: adds_def)
qed

lemma adds_write:
  assumes "adds m0 m [(p, b)]"
  shows "adds m0 (m(p \<mapsto> c)) [(p, c)]"
  using assms by (auto simp: adds_def)

lemma cell_list_simps [simp]:
  "cell_list [] = []" "cell_list ((p, a, m) # own) = (p, \<lparr>cell_version = version m, cell_uid = uid m,
     cell_address_len = address_len m, cell_address = a\<rparr>) # cell_list own"
  "cell_list (own @ own') = cell_list own @ cell_list own'"
  by (simp_all add: cell_list_def)

lemma addr_list_simps [simp]:
  "addr_list [] = []"
  "addr_list ((p, None, m) # own) = addr_list own"
  "addr_list ((p, Some b, m) # own) = (b, the (address m)) # addr_list own"
  "addr_list (own @ own') = addr_list own @ addr_list own'"
  by (simp_all add: addr_list_def)

lemma owns_view:
  assumes "owns h0 h own" "(p, a, m) \<in> set own"
  shows "view_member h (Some p) = Some m"
proof -
  obtain xs ys where own: "own = xs @ (p, a, m) # ys" using split_list [OF assms(2)] by blast
  have "cells h p = Some \<lparr>cell_version = version m, cell_uid = uid m, cell_address_len = address_len m, cell_address = a\<rparr>"
    using assms(1) by (intro adds_lookup [of "cells h0" _ "cell_list own"]) (auto simp: owns_def own)
  moreover have "(a \<bind> addrs h) = address m"
  proof (cases a)
    case None
    then show ?thesis using assms(1) by (auto simp: owns_def own)
  next
    case (Some b)
    then have "addrs h b = Some (the (address m))"
      using assms(1) by (intro adds_lookup [of "addrs h0" _ "addr_list own"]) (auto simp: owns_def own)
    moreover have "address m \<noteq> None" using assms(1) Some by (auto simp: owns_def own)
    ultimately show ?thesis using Some by auto
  qed
  ultimately show ?thesis by (simp add: view_member_def)
qed

lemma owns_cong: "owns h0 h own \<Longrightarrow> cells h' = cells h \<Longrightarrow> addrs h' = addrs h \<Longrightarrow> owns h0 h' own"
  by (simp add: owns_def)

text \<open>Destroying a member of the set releases its two blocks.\<close>

lemma item_destroy_owned:
  assumes "owns h0 h (xs @ (p, a, m) # ys)"
  shows "\<exists>h'. cluster_member_set_item_destroy h (Some p) = Some h' \<and> owns h0 h' (xs @ ys) \<and> arrays h' = arrays h"
proof -
  have c: "adds (cells h0) (cells h) (cell_list xs @ (p, \<lparr>cell_version = version m, cell_uid = uid m,
      cell_address_len = address_len m, cell_address = a\<rparr>) # cell_list ys)"
    using assms by (simp add: owns_def)
  show ?thesis
  proof (cases a)
    case None
    then show ?thesis using assms adds_take [OF c]
      by (auto simp: cluster_member_set_item_destroy_def cluster_member_destroy_heap_def free_addr_def free_cell_def
          free_block_def owns_def)
  next
    case (Some b)
    then have d: "adds (addrs h0) (addrs h) (addr_list xs @ (b, the (address m)) # addr_list ys)"
      using assms by (simp add: owns_def)
    show ?thesis using assms Some adds_take [OF c] adds_take [OF d]
      by (auto simp: cluster_member_set_item_destroy_def cluster_member_destroy_heap_def free_addr_def free_cell_def
          free_block_def owns_def)
  qed
qed

section \<open>Reading the set\<close>

lemma set_rep_length: "set_rep h0 h t s own \<Longrightarrow> length own = ms_size s"
  by (auto simp: set_rep_def dest: arg_cong [where f = length])

lemma set_rep_slot:
  assumes "set_rep h0 h t s own" "i < ms_size s"
  obtains p a m where "own ! i = (p, a, m)" "(p, a, m) \<in> set own" "get_slot h (set_t_set t) i = Some (Some p)"
    "arr_get (ms_set s) i = Some (Some m)" "view_member h (Some p) = Some m"
proof -
  obtain p a m where own: "own ! i = (p, a, m)" by (cases "own ! i")
  have i: "i < length own" using set_rep_length [OF assms(1)] assms(2) by simp
  then have mem: "(p, a, m) \<in> set own" using own by (metis nth_mem)
  obtain arr slots where arr: "set_t_set t = Some arr" "adds (arrays h0) (arrays h) [(arr, slots)]"
    "length slots = length (ms_set s)" "take (ms_size s) slots = map (\<lambda>(p, a, m). Some p) own"
    and vals: "take (ms_size s) (ms_set s) = map (\<lambda>(p, a, m). Some m) own" "ms_size s \<le> length (ms_set s)"
    using assms(1) by (auto simp: set_rep_def)
  have "slots ! i = Some p" using arg_cong [OF arr(4), of "\<lambda>xs. xs ! i"] i own assms(2) by simp
  moreover have "ms_set s ! i = Some m" using arg_cong [OF vals(1), of "\<lambda>xs. xs ! i"] i own assms(2) by simp
  moreover have "arrays h arr = Some slots" using adds_lookup [OF arr(2)] by simp
  moreover have "view_member h (Some p) = Some m" using owns_view [OF _ mem] assms(1) by (auto simp: set_rep_def)
  ultimately show ?thesis using that [OF own mem] arr(1,3) vals(2) assms(2)
    by (simp add: get_slot_def arr_get_in)
qed

lemma find_loop_cong:
  "(\<And>k. i \<le> k \<Longrightarrow> k < n \<Longrightarrow> test k = test' k) \<Longrightarrow> find_loop i n test = find_loop i n test'"
proof (induction i n test rule: find_loop.induct)
  case (1 i n test)
  show ?case
  proof (cases "i < n")
    case True
    then show ?thesis using 1 by (cases "test' i") (auto simp: find_loop.simps [of i n])
  qed (simp add: find_loop.simps)
qed

lemma find_loop_bound: "find_loop i n test = Some (Some k) \<Longrightarrow> i \<le> k \<and> k < n \<and> test k = Some True"
proof (induction i n test rule: find_loop.induct)
  case (1 i n test)
  then show ?case by (fastforce simp: find_loop.simps [of i n] bind_eq_Some_conv split: if_splits)
qed

lemma find_equal_heap:
  assumes "set_rep h0 h t s own"
  shows "find_loop 0 (set_t_size t) (\<lambda>i. do {
       p \<leftarrow> get_slot h (set_t_set t) i;
       cluster_member_equals_heap h p current
     }) = find_loop 0 (ms_size s) (\<lambda>i. do {
       p \<leftarrow> arr_get (ms_set s) i;
       m \<leftarrow> p;
       cluster_member_equals m current
     })"
proof -
  have "set_t_size t = ms_size s" using assms by (simp add: set_rep_def)
  moreover have "(get_slot h (set_t_set t) i \<bind> (\<lambda>p. cluster_member_equals_heap h p current)) =
      (arr_get (ms_set s) i \<bind> (\<lambda>p. p \<bind> (\<lambda>m. cluster_member_equals m current)))" if i: "i < ms_size s" for i
  proof -
    obtain p a m where "get_slot h (set_t_set t) i = Some (Some p)"
      "arr_get (ms_set s) i = Some (Some m)" "view_member h (Some p) = Some m"
      using set_rep_slot [OF assms i] by metis
    then show ?thesis by (simp add: cluster_member_equals_heap_def del: arr_get_Some_iff)
  qed
  ultimately show ?thesis by (auto intro: find_loop_cong)
qed

lemma find_addr_heap:
  assumes "set_rep h0 h t s own"
  shows "find_loop 0 (set_t_size t) (addr_matches_heap h t addr n) = find_loop 0 (ms_size s) (addr_matches s addr n)"
proof -
  have "set_t_size t = ms_size s" using assms by (simp add: set_rep_def)
  moreover have "addr_matches_heap h t addr n i = addr_matches s addr n i" if i: "i < ms_size s" for i
  proof -
    obtain p a m where "get_slot h (set_t_set t) i = Some (Some p)"
      "arr_get (ms_set s) i = Some (Some m)" "view_member h (Some p) = Some m"
      using set_rep_slot [OF assms i] by metis
    then show ?thesis by (simp add: addr_matches_heap_def addr_matches_def del: arr_get_Some_iff)
  qed
  ultimately show ?thesis by (auto intro: find_loop_cong)
qed

text \<open>The look-up returns the pointer of the member that the look-up on the value finds.\<close>

lemma find_by_addr_heap_refines:
  assumes "set_rep h0 h t s own" "cluster_member_set_find_by_addr s addr n = Some found"
  shows "cluster_member_set_find_by_addr_heap h t addr n = Some (map_option (\<lambda>i. fst (own ! i)) found)"
proof (cases found)
  case (Some i)
  then have "i < ms_size s"
    using assms(2) find_loop_bound [of 0 "ms_size s"] by (auto simp: cluster_member_set_find_by_addr_def)
  from set_rep_slot [OF assms(1) this] show ?thesis
    using assms Some by (metis (mono_tags, lifting) bind.bind_lunit cluster_member_set_find_by_addr_def
        cluster_member_set_find_by_addr_heap_def find_addr_heap fst_conv option.case(2) option.map(2))
qed (use assms find_addr_heap [OF assms(1)] in \<open>simp add: cluster_member_set_find_by_addr_def cluster_member_set_find_by_addr_heap_def\<close>)

section \<open>Adding members\<close>

text \<open>Two loops in step.\<close>

lemma for_loop_sim:
  assumes "for_loop i n f x = Some y" "i \<le> n" "R i x h"
    and "\<And>k x h x'. i \<le> k \<Longrightarrow> k < n \<Longrightarrow> R k x h \<Longrightarrow> f k x = Some x' \<Longrightarrow> \<exists>h'. g k h = Some h' \<and> R (Suc k) x' h'"
  shows "\<exists>h'. for_loop i n g h = Some h' \<and> R n y h'"
  using assms
proof (induction i n f x arbitrary: h rule: for_loop.induct)
  case (1 i n f x)
  show ?case
  proof (cases "i < n")
    case True
    then obtain x' where x': "f i x = Some x'" "for_loop (Suc i) n f x' = Some y"
      using 1(2) by (auto simp: for_loop_step bind_eq_Some_conv)
    obtain h' where h': "g i h = Some h'" "R (Suc i) x' h'" using 1(5) [OF _ True 1(4) x'(1)] by auto
    have "\<exists>h''. for_loop (Suc i) n g h' = Some h'' \<and> R n y h''"
      using 1(1) [OF True x' _ h'(2)] 1(5) True by auto
    then show ?thesis using True h'(1) by (simp add: for_loop_step)
  qed (use 1 in auto)
qed

lemma owns_push:
  assumes "owns h0 h own" "cells h p = None" "a = None \<longleftrightarrow> address m = None"
    "cells h' = (cells h)(p \<mapsto> \<lparr>cell_version = version m, cell_uid = uid m, cell_address_len = address_len m, cell_address = a\<rparr>)"
    "case a of None \<Rightarrow> addrs h' = addrs h | Some b \<Rightarrow> addrs h b = None \<and> addrs h' = (addrs h)(b \<mapsto> the (address m))"
  shows "owns h0 h' (own @ [(p, a, m)])"
  using assms adds_push [of "cells h0" "cells h" "cell_list own" p] adds_push [of "addrs h0" "addrs h" "addr_list own"]
  by (auto simp: owns_def split: option.splits)

context fresh_addresses
begin

lemma copy_heap:
  assumes "cells h p = Some c" "finite (dom (addrs h))" "cluster_member_copy e src = Some (r, m, e')"
  shows "\<exists>a h'. cluster_member_copy_heap new e h p src = Some (r, h', e') \<and> arrays h' = arrays h
     \<and> cells h' = (cells h)(p \<mapsto> \<lparr>cell_version = version m, cell_uid = uid m, cell_address_len = address_len m, cell_address = a\<rparr>)
     \<and> (a = None \<longleftrightarrow> address m = None)
     \<and> (case a of None \<Rightarrow> addrs h' = addrs h | Some b \<Rightarrow> addrs h b = None \<and> addrs h' = (addrs h)(b \<mapsto> the (address m)))"
proof (cases "malloc e")
  case (Pair ok e1)
  let ?b = "new (dom (addrs h))"
  have b: "addrs h ?b = None" using fresh [OF assms(2)] by blast
  show ?thesis
  proof (cases ok)
    case True
    then obtain sa where "address src = Some sa" "unat (address_len src) \<le> length sa" "r = PITTACUS_ERR_NONE" "e1 = e'"
      "m = src\<lparr>address := Some (take (unat (address_len src)) sa)\<rparr>"
      using assms(3) Pair by (auto simp: cluster_member_copy_def mem_read_def bind_eq_Some_conv split: if_splits)
    then show ?thesis using b assms(1) Pair True
      by (intro exI [of _ "Some ?b"])
        (simp add: cluster_member_copy_heap_def malloc_addr_def mem_read_def mem_write_def Let_def)
  qed (use assms Pair in \<open>auto simp: cluster_member_copy_def cluster_member_copy_heap_def malloc_addr_def\<close>)
qed

text \<open>A copy of a member on the heap, stored behind the last slot in use.\<close>

lemma put_new_heap:
  assumes rep: "set_rep h0 h t s own" and v: "cluster_member_copy e1 current = Some (r, m, e2)"
    "arr_set (ms_set s) (ms_size s) (Some m) = Some slots'" and e: "malloc e = (True, e1)"
  shows "\<exists>p h1 h2 h3 own'. malloc_cell new e h = (Some p, h1, e1) \<and> cluster_member_copy_heap new e1 h1 p current = Some (r, h2, e2)
     \<and> set_slot h2 (set_t_set t) (set_t_size t) (Some p) = Some h3
     \<and> set_rep h0 h3 (t\<lparr>set_t_size := set_t_size t + 1\<rparr>) (s\<lparr>ms_set := slots', ms_size := ms_size s + 1\<rparr>) own'"
proof -
  have owns: "owns h0 h own" using rep by (simp add: set_rep_def)
  let ?p = "new (dom (cells h))"
  have p: "cells h ?p = None" using fresh adds_finite owns by (metis domIff owns_def)
  let ?h1 = "h\<lparr>cells := (cells h)(?p \<mapsto> \<lparr>cell_version = 0, cell_uid = 0, cell_address_len = 0, cell_address = None\<rparr>)\<rparr>"
  have "finite (dom (addrs ?h1))" using owns adds_finite by (auto simp: owns_def)
  then obtain a h2 where c: "cluster_member_copy_heap new e1 ?h1 ?p current = Some (r, h2, e2)" "arrays h2 = arrays h"
    "cells h2 = (cells h)(?p \<mapsto> \<lparr>cell_version = version m, cell_uid = uid m, cell_address_len = address_len m, cell_address = a\<rparr>)"
    "a = None \<longleftrightarrow> address m = None"
    "case a of None \<Rightarrow> addrs h2 = addrs h | Some b \<Rightarrow> addrs h b = None \<and> addrs h2 = (addrs h)(b \<mapsto> the (address m))"
    using copy_heap [of ?h1 ?p _ e1 current r m e2] v(1) by auto
  have owns2: "owns h0 h2 (own @ [(?p, a, m)])" by (rule owns_push [OF owns p c(4,3,5)])
  obtain arr slots where arr: "set_t_set t = Some arr" "adds (arrays h0) (arrays h) [(arr, slots)]"
    "length slots = length (ms_set s)" "take (ms_size s) slots = map (\<lambda>(p, a, m). Some p) own"
    using rep by (auto simp: set_rep_def)
  let ?h3 = "h2\<lparr>arrays := (arrays h)(arr \<mapsto> slots[ms_size s := Some ?p])\<rparr>"
  have size: "ms_size s < length (ms_set s)" "slots' = (ms_set s)[ms_size s := Some m]" "set_t_size t = ms_size s"
    using v(2) rep by (auto simp: set_rep_def)
  have slot: "set_slot h2 (set_t_set t) (set_t_size t) (Some ?p) = Some ?h3"
    using arr size adds_lookup [OF arr(2)] by (simp add: set_slot_def c(2) arr_set_in)
  have "owns h0 ?h3 (own @ [(?p, a, m)])" using owns2 by (rule owns_cong) simp_all
  moreover have "adds (arrays h0) (arrays ?h3) [(arr, slots[ms_size s := Some ?p])]" using adds_write [OF arr(2)] by simp
  ultimately have "set_rep h0 ?h3 (t\<lparr>set_t_size := set_t_size t + 1\<rparr>) (s\<lparr>ms_set := slots', ms_size := ms_size s + 1\<rparr>) (own @ [(?p, a, m)])"
    using rep arr size by (auto simp: set_rep_def take_Suc_update)
  moreover have "malloc_cell new e h = (Some ?p, ?h1, e1)" using e by (simp add: malloc_cell_def Let_def)
  ultimately show ?thesis using c(1) slot by blast
qed

lemma put_members_heap_refines:
  assumes "set_rep h0 h t s own" "put_members e s ms = Some (r, s', e')"
  shows "\<exists>h' t' own'. put_members_heap new e h t ms = Some (r, h', t', e') \<and> set_rep h0 h' t' s' own'"
  using assms
proof (induction ms arbitrary: e h t s own)
  case Nil
  then show ?case by auto
next
  case (Cons current rest)
  note find = find_equal_heap [OF Cons.prems(1), of current]
  obtain exists where ex: "find_loop 0 (ms_size s) (\<lambda>i. do {
       p \<leftarrow> arr_get (ms_set s) i;
       m \<leftarrow> p;
       cluster_member_equals m current
     }) = Some exists"
    using Cons.prems(2) by (auto simp: bind_eq_Some_conv)
  obtain ok e1 where m1: "malloc e = (ok, e1)" by (cases "malloc e")
  consider "exists \<noteq> None" | "exists = None" "\<not> ok" | "exists = None" ok by blast
  then show ?case
  proof cases
    case 1
    then show ?thesis using Cons.IH [OF Cons.prems(1)] Cons.prems(2) ex find by (auto simp del: not_None_eq)
  next
    case 2
    then show ?thesis using Cons.prems ex find m1 by (auto simp: malloc_cell_def)
  next
    case 3
    then obtain r2 m e2 slots' where v: "cluster_member_copy e1 current = Some (r2, m, e2)"
      "arr_set (ms_set s) (ms_size s) (Some m) = Some slots'"
      "put_members e2 (s\<lparr>ms_set := slots', ms_size := ms_size s + 1\<rparr>) rest = Some (r, s', e')"
      using Cons.prems(2) ex m1 by (auto simp: bind_eq_Some_conv simp del: arr_set_Some_iff)
    have "malloc e = (True, e1)" using m1 3(2) by simp
    then obtain p h1 h2 h3 own' where h: "malloc_cell new e h = (Some p, h1, e1)"
      "cluster_member_copy_heap new e1 h1 p current = Some (r2, h2, e2)"
      "set_slot h2 (set_t_set t) (set_t_size t) (Some p) = Some h3"
      "set_rep h0 h3 (t\<lparr>set_t_size := set_t_size t + 1\<rparr>) (s\<lparr>ms_set := slots', ms_size := ms_size s + 1\<rparr>) own'"
      using put_new_heap [OF Cons.prems(1) v(1,2)] by blast
    from Cons.IH [OF h(4) v(3)] show ?thesis using find ex 3(1) h(1-3) by auto
  qed
qed

text \<open>The loop that copies the slots in use to a larger array, on values and on the heap.\<close>

lemma copy_slots_heap:
  assumes rep: "set_rep h0 h t s own" and q: "arrays h q = None"
    and v: "for_loop 0 (ms_size s) (\<lambda>i new_set. arr_get (ms_set s) i \<bind> (\<lambda>p. if p \<noteq> None then arr_set new_set i p else Some new_set))
      (replicate c None) = Some new_set"
  shows "\<exists>sl. for_loop 0 (ms_size s) (\<lambda>i h. get_slot h (set_t_set t) i \<bind> (\<lambda>p. if p \<noteq> None then set_slot h (Some q) i p else Some h))
      (h\<lparr>arrays := (arrays h)(q \<mapsto> replicate c None)\<rparr>) = Some (h\<lparr>arrays := (arrays h)(q \<mapsto> sl)\<rparr>)
     \<and> length sl = length new_set \<and> take (ms_size s) sl = map (\<lambda>(p, a, m). Some p) own
     \<and> take (ms_size s) new_set = map (\<lambda>(p, a, m). Some m) own"
    (is "\<exists>sl. for_loop 0 _ ?fh _ = _ \<and> _")
proof -
  obtain arr slots where arr: "set_t_set t = Some arr" using rep by (auto simp: set_rep_def)
  note len = set_rep_length [OF rep]
  let ?fv = "\<lambda>i new_set. arr_get (ms_set s) i \<bind> (\<lambda>p. if p \<noteq> None then arr_set new_set i p else Some new_set)"
  let ?R = "\<lambda>k x h'. \<exists>sl. h' = h\<lparr>arrays := (arrays h)(q \<mapsto> sl)\<rparr> \<and> length sl = length x
     \<and> take k sl = map (\<lambda>(p, a, m). Some p) (take k own) \<and> take k x = map (\<lambda>(p, a, m). Some m) (take k own)"
  have step: "\<exists>h''. ?fh k h' = Some h'' \<and> ?R (Suc k) x' h''"
    if k: "k < ms_size s" and R: "?R k x h'" and f: "?fv k x = Some x'" for k x h' x'
  proof -
    obtain p a m where sl: "own ! k = (p, a, m)" "get_slot h (set_t_set t) k = Some (Some p)"
      "arr_get (ms_set s) k = Some (Some m)"
      using set_rep_slot [OF rep k] by metis
    obtain sl where h': "h' = h\<lparr>arrays := (arrays h)(q \<mapsto> sl)\<rparr>" "length sl = length x"
      "take k sl = map (\<lambda>(p, a, m). Some p) (take k own)" "take k x = map (\<lambda>(p, a, m). Some m) (take k own)"
      using R by blast
    have x: "k < length x" "x' = x[k := Some m]" using f sl(3) by (auto simp del: arr_get_Some_iff)
    have "get_slot h' (set_t_set t) k = Some (Some p)" using sl(2) arr q h'(1)
      by (auto simp: get_slot_def bind_eq_Some_conv)
    moreover have "set_slot h' (Some q) k (Some p) = Some (h\<lparr>arrays := (arrays h)(q \<mapsto> sl[k := Some p])\<rparr>)"
      using h'(1,2) x(1) by (simp add: set_slot_def arr_set_in)
    moreover have "take (Suc k) own = take k own @ [(p, a, m)]" using k len sl(1) by (simp add: take_Suc_conv_app_nth)
    ultimately show ?thesis using h' x
      by (intro exI [of _ "h\<lparr>arrays := (arrays h)(q \<mapsto> sl[k := Some p])\<rparr>"] conjI exI [of _ "sl[k := Some p]"])
        (simp_all add: take_Suc_update)
  qed
  have "?R 0 (replicate c None) (h\<lparr>arrays := (arrays h)(q \<mapsto> replicate c None)\<rparr>)" by auto
  then have "\<exists>h1. for_loop 0 (ms_size s) ?fh (h\<lparr>arrays := (arrays h)(q \<mapsto> replicate c None)\<rparr>) = Some h1
      \<and> ?R (ms_size s) new_set h1"
    by (rule for_loop_sim [where R = ?R and g = ?fh, OF v le0]) (rule step)
  then show ?thesis using len by auto
qed

lemma extend_heap_refines:
  assumes rep: "set_rep h0 h t s own" and v: "cluster_member_set_extend e s n = Some (res, e')"
  shows "\<exists>h' t'. cluster_member_set_extend_heap new e h t n = Some (res \<noteq> None, h', t', e')
     \<and> set_rep h0 h' t' (case res of None \<Rightarrow> s | Some s' \<Rightarrow> s') own"
proof -
  obtain c where c: "extend_capacity n (ms_capacity s) = Some c"
    using v by (auto simp: cluster_member_set_extend_def bind_eq_Some_conv)
  obtain ok e1 where m: "malloc e = (ok, e1)" by (cases "malloc e")
  obtain arr slots where arr: "set_t_set t = Some arr" "adds (arrays h0) (arrays h) [(arr, slots)]"
    and owns: "owns h0 h own" and t: "set_t_size t = ms_size s" "set_t_capacity t = ms_capacity s"
    using rep by (auto simp: set_rep_def)
  note len = set_rep_length [OF rep]
  show ?thesis
  proof (cases ok)
    case False
    then show ?thesis using v rep c m t
      by (auto simp: cluster_member_set_extend_def cluster_member_set_extend_heap_def calloc_array_def Let_def)
  next
    case True
    let ?fv = "\<lambda>i new_set. arr_get (ms_set s) i \<bind> (\<lambda>p. if p \<noteq> None then arr_set new_set i p else Some new_set)"
    obtain new_set where ns: "for_loop 0 (ms_size s) ?fv (replicate c None) = Some new_set"
      "res = Some (s\<lparr>ms_capacity := c, ms_set := new_set\<rparr>)" "e' = e1"
      using v c m True by (auto simp: cluster_member_set_extend_def bind_eq_Some_conv)
    let ?q = "new (dom (arrays h))"
    have q: "arrays h ?q = None" using fresh [OF adds_finite [OF arr(2)]] by blast
    obtain sl where h1: "for_loop 0 (ms_size s) (\<lambda>i h. get_slot h (set_t_set t) i \<bind> (\<lambda>p. if p \<noteq> None then set_slot h (Some ?q) i p else Some h))
      (h\<lparr>arrays := (arrays h)(?q \<mapsto> replicate c None)\<rparr>) = Some (h\<lparr>arrays := (arrays h)(?q \<mapsto> sl)\<rparr>)"
      and sl: "length sl = length new_set" "take (ms_size s) sl = map (\<lambda>(p, a, m). Some p) own"
      "take (ms_size s) new_set = map (\<lambda>(p, a, m). Some m) own"
      using copy_slots_heap [OF rep q ns(1)] by blast
    let ?h1 = "h\<lparr>arrays := (arrays h)(?q \<mapsto> sl)\<rparr>"
    have two: "adds (arrays h0) (arrays ?h1) ([] @ (arr, slots) # [(?q, sl)])" using adds_push [OF arr(2) q, of sl] by simp
    let ?h2 = "?h1\<lparr>arrays := (arrays ?h1)(arr := None)\<rparr>"
    let ?t = "t\<lparr>set_t_capacity := c, set_t_set := Some ?q\<rparr>"
    have "free_array ?h1 (set_t_set t) = Some ?h2" using adds_take(1) [OF two] arr(1) by (simp add: free_array_def free_block_def)
    then have heap: "cluster_member_set_extend_heap new e h t n = Some (True, ?h2, ?t, e')"
      using c m True h1 ns(3) t by (simp add: cluster_member_set_extend_heap_def calloc_array_def Let_def)
    have "owns h0 ?h2 own" using owns by (rule owns_cong) simp_all
    moreover have "ms_size s \<le> length new_set" using arg_cong [OF sl(3), of length] len by simp
    ultimately have "set_rep h0 ?h2 ?t (s\<lparr>ms_capacity := c, ms_set := new_set\<rparr>) own"
      using adds_take(2) [OF two] sl t by (auto simp: set_rep_def)
    then show ?thesis using ns(2) heap by auto
  qed
qed

lemma set_put_heap_refines:
  assumes "set_rep h0 h t s own" "cluster_member_set_put e s ms = Some (r, s', e')"
  shows "\<exists>h' t' own'. cluster_member_set_put_heap new e h t ms = Some (r, h', t', e') \<and> set_rep h0 h' t' s' own'"
proof -
  have t: "set_t_size t = ms_size s" "set_t_capacity t = ms_capacity s" using assms(1) by (auto simp: set_rep_def)
  let ?n = "(ms_size s + length ms) mod 2 ^ 32"
  show ?thesis
  proof (cases "over_load_factor ?n (ms_capacity s)")
    case True
    then obtain res e1 where x: "cluster_member_set_extend e s ?n = Some (res, e1)"
      using assms(2) by (auto simp: cluster_member_set_put_def Let_def bind_eq_Some_conv)
    obtain h1 t1 where h1: "cluster_member_set_extend_heap new e h t ?n = Some (res \<noteq> None, h1, t1, e1)"
      "set_rep h0 h1 t1 (case res of None \<Rightarrow> s | Some s' \<Rightarrow> s') own"
      using extend_heap_refines [OF assms(1) x] by blast
    show ?thesis
    proof (cases res)
      case None
      then show ?thesis using assms(2) True x h1 t by (auto simp: cluster_member_set_put_def cluster_member_set_put_heap_def)
    next
      case (Some s1)
      then have "put_members e1 s1 ms = Some (r, s', e')" "set_rep h0 h1 t1 s1 own"
        using assms(2) True x h1(2) by (auto simp: cluster_member_set_put_def)
      then show ?thesis using put_members_heap_refines True h1(1) t Some
        by (fastforce simp: cluster_member_set_put_heap_def)
    qed
  qed (use assms put_members_heap_refines t in \<open>auto simp: cluster_member_set_put_def cluster_member_set_put_heap_def\<close>)
qed

end

section \<open>Removing members\<close>

lemma shift_loop_heap:
  assumes "for_loop i n (\<lambda>i t. do { p \<leftarrow> arr_get t (i + 1); arr_set t i p }) slots = Some slots'" "i \<le> n"
    "arrays h arr = Some slots"
  shows "for_loop i n (\<lambda>i h. do { p \<leftarrow> get_slot h (Some arr) (i + 1); set_slot h (Some arr) i p }) h =
     Some (h\<lparr>arrays := (arrays h)(arr \<mapsto> slots')\<rparr>)"
proof -
  let ?R = "\<lambda>k x h'. h' = h\<lparr>arrays := (arrays h)(arr \<mapsto> x)\<rparr>"
  have "h = h\<lparr>arrays := (arrays h)(arr \<mapsto> slots)\<rparr>" using assms(3) by (simp add: fun_upd_idem)
  from for_loop_sim [where R = ?R and g = "\<lambda>i h. get_slot h (Some arr) (i + 1) \<bind> set_slot h (Some arr) i", OF assms(1,2) this]
  have "\<exists>h'. for_loop i n (\<lambda>i h. get_slot h (Some arr) (i + 1) \<bind> set_slot h (Some arr) i) h = Some h' \<and> ?R n slots' h'"
    by (auto simp: get_slot_def set_slot_def bind_eq_Some_conv)
  then show ?thesis by simp
qed

text \<open>Removing the member in slot \<open>i\<close>: its blocks are released and the slots behind it move forward.\<close>

lemma remove_slot_heap:
  assumes rep: "set_rep h0 h t s own" and i: "i < ms_size s" and size: "ms_size s < 2 ^ 32"
    and v: "cluster_member_set_shift s i = Some s'"
  shows "\<exists>h1 h' t'. cluster_member_set_item_destroy h (Some (fst (own ! i))) = Some h1
     \<and> cluster_member_set_shift_heap h1 t i = Some (h', t') \<and> set_rep h0 h' t' s' (take i own @ drop (Suc i) own)"
proof -
  obtain arr slots where arr: "set_t_set t = Some arr" "adds (arrays h0) (arrays h) [(arr, slots)]"
    "length slots = length (ms_set s)" "take (ms_size s) slots = map (\<lambda>(p, a, m). Some p) own"
    and vals: "take (ms_size s) (ms_set s) = map (\<lambda>(p, a, m). Some m) own" "ms_size s \<le> length (ms_set s)"
    and owns: "owns h0 h own" and t: "set_t_size t = ms_size s" "set_t_capacity t = ms_capacity s"
    using rep by (auto simp: set_rep_def)
  note len = set_rep_length [OF rep]
  let ?own = "take i own @ drop (Suc i) own"
  obtain p a m where own: "own ! i = (p, a, m)" by (cases "own ! i")
  have "own = take i own @ (p, a, m) # drop (Suc i) own" using i len own id_take_nth_drop [of i own] by simp
  then obtain h1 where h1: "cluster_member_set_item_destroy h (Some p) = Some h1" "owns h0 h1 ?own" "arrays h1 = arrays h"
    using item_destroy_owned [of h0 h "take i own" p a m "drop (Suc i) own"] owns by auto
  obtain slots' where sl: "for_loop i (ms_size s - 1) (\<lambda>i t. do { p \<leftarrow> arr_get t (i + 1); arr_set t i p }) slots = Some slots'"
    "length slots' = length slots" "take (ms_size s - 1) slots' = take i slots @ drop (Suc i) (take (ms_size s) slots)"
    using shift_slots [OF i, of slots] arr(3) vals(2) by auto
  obtain vs where vs: "s' = s\<lparr>ms_set := vs, ms_size := ms_size s - 1\<rparr>" "length vs = length (ms_set s)"
    "take (ms_size s - 1) vs = take i (ms_set s) @ drop (Suc i) (take (ms_size s) (ms_set s))"
    using cluster_member_set_shift_ok [OF i vals(2) size] v by auto
  let ?h2 = "h1\<lparr>arrays := (arrays h1)(arr \<mapsto> slots')\<rparr>" and ?t = "t\<lparr>set_t_size := ms_size s - 1\<rparr>"
  have "arrays h1 arr = Some slots" using adds_lookup [OF arr(2)] h1(3) by simp
  from shift_loop_heap [OF sl(1) _ this] have "cluster_member_set_shift_heap h1 t i = Some (?h2, ?t)"
    using i size t(1) arr(1) by (simp add: cluster_member_set_shift_heap_def)
  moreover have "take i slots = take i (take (ms_size s) slots)" "take i (ms_set s) = take i (take (ms_size s) (ms_set s))"
    using i by simp_all
  then have "take (ms_size s - 1) slots' = map (\<lambda>(p, a, m). Some p) ?own" "take (ms_size s - 1) vs = map (\<lambda>(p, a, m). Some m) ?own"
    unfolding sl(3) vs(3) by (simp_all add: arr(4) vals(1) take_map drop_map)
  then have "set_rep h0 ?h2 ?t s' ?own"
    using owns_cong [OF h1(2), of ?h2] adds_write [OF arr(2)] arr(1,3) sl(2) vs(1,2) vals(2) t(2) h1(3)
    by (auto simp: set_rep_def)
  ultimately show ?thesis using h1(1) own by auto
qed

lemma remove_by_addr_heap_refines:
  assumes "set_rep h0 h t s own" "ms_size s < 2 ^ 32" "cluster_member_set_remove_by_addr s addr n = Some (b, s')"
  shows "\<exists>h' t' own'. cluster_member_set_remove_by_addr_heap h t addr n = Some (b, h', t') \<and> set_rep h0 h' t' s' own'"
proof -
  obtain found where f: "find_loop 0 (ms_size s) (addr_matches s addr n) = Some found"
    using assms(3) by (auto simp: cluster_member_set_remove_by_addr_def bind_eq_Some_conv)
  show ?thesis
  proof (cases found)
    case None
    then show ?thesis using assms(1,3) f find_addr_heap [OF assms(1)]
      by (auto simp: cluster_member_set_remove_by_addr_def cluster_member_set_remove_by_addr_heap_def)
  next
    case (Some i)
    then have i: "i < ms_size s" using find_loop_bound [of 0] f by auto
    have v: "cluster_member_set_shift s i = Some s'" "b"
      using assms(3) f Some by (auto simp: cluster_member_set_remove_by_addr_def bind_eq_Some_conv)
    obtain p a m where "own ! i = (p, a, m)" "get_slot h (set_t_set t) i = Some (Some p)"
      using set_rep_slot [OF assms(1) i] by metis
    then show ?thesis using remove_slot_heap [OF assms(1) i assms(2) v(1)] find_addr_heap [OF assms(1)] f Some v(2)
      by (fastforce simp: cluster_member_set_remove_by_addr_heap_def)
  qed
qed

text \<open>
  Removal by pointer. The pointer of a member in the set removes that member; a pointer to no member of the
  set, such as one to a member that was removed, is compared and not followed.
\<close>

lemma owned_distinct: "owns h0 h own \<Longrightarrow> distinct (map fst own)"
proof -
  have "map fst (cell_list own) = map fst own" by (auto simp: cell_list_def)
  then show "owns h0 h own \<Longrightarrow> distinct (map fst own)" by (auto simp: owns_def adds_def)
qed

lemma find_pointer_heap:
  assumes "set_rep h0 h t s own"
  shows "find_loop 0 (set_t_size t) (\<lambda>i. do { p \<leftarrow> get_slot h (set_t_set t) i; Some (p = member) }) =
     Some (List.find (\<lambda>i. Some (fst (own ! i)) = member) [0..<ms_size s])"
proof -
  have "set_t_size t = ms_size s" using assms by (simp add: set_rep_def)
  moreover have "(get_slot h (set_t_set t) i \<bind> (\<lambda>p. Some (p = member))) = Some (Some (fst (own ! i)) = member)"
    if i: "i < ms_size s" for i
    using set_rep_slot [OF assms i] by (metis bind.bind_lunit fst_conv)
  ultimately show ?thesis by (auto intro: find_loop_eq_find)
qed

lemma remove_heap_refines:
  assumes "set_rep h0 h t s own" "i < ms_size s" "ms_size s < 2 ^ 32" "cluster_member_set_remove s (Some i) = Some (b, s')"
  shows "\<exists>h' t'. cluster_member_set_remove_heap h t (Some (fst (own ! i))) = Some (b, h', t')
     \<and> set_rep h0 h' t' s' (take i own @ drop (Suc i) own)"
proof -
  have "find_loop 0 (ms_size s) (\<lambda>k. do { p \<leftarrow> arr_get (ms_set s) k; Some (Some i = Some k) }) =
      Some (List.find (\<lambda>k. i = k) [0..<ms_size s])"
    using assms(1) by (intro find_loop_eq_find) (auto simp: set_rep_def arr_get_in)
  moreover have "List.find (\<lambda>k. i = k) [0..<ms_size s] = Some i" using assms(2) by (simp add: find_upt_Some_iff)
  ultimately have v: "cluster_member_set_shift s i = Some s'" "b"
    using assms(4) by (auto simp: cluster_member_set_remove_def bind_eq_Some_conv)
  have len: "length own = ms_size s" by (rule set_rep_length [OF assms(1)])
  have "distinct (map fst own)" using assms(1) owned_distinct by (auto simp: set_rep_def)
  then have "fst (own ! j) \<noteq> fst (own ! i)" if "j < i" for j
    using that assms(2) len nth_eq_iff_index_eq [of "map fst own" j i] by auto
  then have "List.find (\<lambda>k. Some (fst (own ! k)) = Some (fst (own ! i))) [0..<ms_size s] = Some i"
    using assms(2) by (auto simp: find_upt_Some_iff)
  then show ?thesis
    using remove_slot_heap [OF assms(1-3) v(1)] find_pointer_heap [OF assms(1)] v(2)
    by (fastforce simp: cluster_member_set_remove_heap_def)
qed

lemma remove_heap_unknown:
  assumes "set_rep h0 h t s own" "p \<notin> fst ` set own"
  shows "cluster_member_set_remove_heap h t (Some p) = Some (False, h, t)"
proof -
  have "List.find (\<lambda>i. Some (fst (own ! i)) = Some p) [0..<ms_size s] = None"
    using assms set_rep_length [OF assms(1)] by (force simp: find_upt_None_iff)
  then show ?thesis using find_pointer_heap [OF assms(1), of "Some p"] by (simp add: cluster_member_set_remove_heap_def)
qed

section \<open>The life of a set\<close>

lemma set_heap_eqI:
  "arrays h = arrays h' \<Longrightarrow> cells h = cells h' \<Longrightarrow> addrs h = addrs h' \<Longrightarrow> h = (h' :: set_heap)"
  by simp

lemma destroy_heap_releases:
  assumes rep: "set_rep h0 h t s own"
  shows "cluster_member_set_destroy_heap h t = Some h0"
proof -
  let ?I = "\<lambda>k h'. owns h0 h' (drop k own) \<and> arrays h' = arrays h"
  let ?body = "\<lambda>i h. get_slot h (set_t_set t) i \<bind> cluster_member_set_item_destroy h"
  have len: "length own = ms_size s" by (rule set_rep_length [OF rep])
  have "\<exists>h''. ?body k h' = Some h'' \<and> ?I (Suc k) h''" if k: "k < ms_size s" and I: "?I k h'" for k h'
  proof -
    obtain p a m where s: "own ! k = (p, a, m)" "get_slot h (set_t_set t) k = Some (Some p)"
      using set_rep_slot [OF rep k] by metis
    have "get_slot h' (set_t_set t) k = Some (Some p)" using s(2) I by (simp add: get_slot_def)
    moreover have "drop k own = [] @ (p, a, m) # drop (Suc k) own" using k len s(1) Cons_nth_drop_Suc [of k own] by simp
    ultimately show ?thesis using item_destroy_owned [of h0 h' "[]" p a m "drop (Suc k) own"] I by auto
  qed
  then have "\<exists>h1. for_loop 0 (ms_size s) ?body h = Some h1 \<and> ?I (ms_size s) h1"
    using rep by (intro for_loop_total [where I = ?I]) (auto simp: set_rep_def)
  then obtain h1 where h1: "for_loop 0 (ms_size s) ?body h = Some h1" "owns h0 h1 []" "arrays h1 = arrays h" using len by auto
  obtain arr slots where arr: "set_t_set t = Some arr" "adds (arrays h0) (arrays h) ([] @ (arr, slots) # [])"
    and t: "set_t_size t = ms_size s" using rep by (auto simp: set_rep_def)
  have "free_array h1 (set_t_set t) = Some (h1\<lparr>arrays := (arrays h)(arr := None)\<rparr>)"
    using adds_take(1) [OF arr(2)] arr(1) h1(3) by (simp add: free_array_def free_block_def)
  moreover have "h1\<lparr>arrays := (arrays h)(arr := None)\<rparr> = h0"
    using adds_take(2) [OF arr(2)] h1(2) by (intro set_heap_eqI) (auto simp: owns_def)
  ultimately show ?thesis using h1(1) t by (simp add: cluster_member_set_destroy_heap_def)
qed

text \<open>
  The calls a program makes on a set, with the integer each returns, on the value and on the heap.
  A member is removed by its address, or by the pointer that a look-up returned, which may be \<^verbatim>\<open>NULL\<close>.
\<close>

datatype set_call = Put_Members "cluster_member list" | Find_By_Addr "u8 list" nat | Remove_By_Addr "u8 list" nat
  | Remove_Found "u8 list" nat

fun run_calls :: "env \<Rightarrow> cluster_member_set \<Rightarrow> set_call list \<Rightarrow> (int list \<times> cluster_member_set \<times> env) option" where
  "run_calls e s [] = Some ([], s, e)"
| "run_calls e s (Put_Members ms # cs) = do {
     (r, s, e) \<leftarrow> cluster_member_set_put e s ms;
     (rs, s, e) \<leftarrow> run_calls e s cs;
     Some (err_code r # rs, s, e)
   }"
| "run_calls e s (Find_By_Addr addr n # cs) = do {
     found \<leftarrow> cluster_member_set_find_by_addr s addr n;
     (rs, s, e) \<leftarrow> run_calls e s cs;
     Some (of_bool (found \<noteq> None) # rs, s, e)
   }"
| "run_calls e s (Remove_By_Addr addr n # cs) = do {
     (removed, s) \<leftarrow> cluster_member_set_remove_by_addr s addr n;
     (rs, s, e) \<leftarrow> run_calls e s cs;
     Some (of_bool removed # rs, s, e)
   }"
| "run_calls e s (Remove_Found addr n # cs) = do {
     found \<leftarrow> cluster_member_set_find_by_addr s addr n;
     (removed, s) \<leftarrow> cluster_member_set_remove s found;
     (rs, s, e) \<leftarrow> run_calls e s cs;
     Some (of_bool removed # rs, s, e)
   }"

fun run_calls_heap ::
  "allocator \<Rightarrow> env \<Rightarrow> set_heap \<Rightarrow> cluster_member_set_t \<Rightarrow> set_call list
     \<Rightarrow> (int list \<times> set_heap \<times> cluster_member_set_t \<times> env) option" where
  "run_calls_heap new e h t [] = Some ([], h, t, e)"
| "run_calls_heap new e h t (Put_Members ms # cs) = do {
     (r, h, t, e) \<leftarrow> cluster_member_set_put_heap new e h t ms;
     (rs, h, t, e) \<leftarrow> run_calls_heap new e h t cs;
     Some (err_code r # rs, h, t, e)
   }"
| "run_calls_heap new e h t (Find_By_Addr addr n # cs) = do {
     found \<leftarrow> cluster_member_set_find_by_addr_heap h t addr n;
     (rs, h, t, e) \<leftarrow> run_calls_heap new e h t cs;
     Some (of_bool (found \<noteq> None) # rs, h, t, e)
   }"
| "run_calls_heap new e h t (Remove_By_Addr addr n # cs) = do {
     (removed, h, t) \<leftarrow> cluster_member_set_remove_by_addr_heap h t addr n;
     (rs, h, t, e) \<leftarrow> run_calls_heap new e h t cs;
     Some (of_bool removed # rs, h, t, e)
   }"
| "run_calls_heap new e h t (Remove_Found addr n # cs) = do {
     found \<leftarrow> cluster_member_set_find_by_addr_heap h t addr n;
     (removed, h, t) \<leftarrow> cluster_member_set_remove_heap h t found;
     (rs, h, t, e) \<leftarrow> run_calls_heap new e h t cs;
     Some (of_bool removed # rs, h, t, e)
   }"

fun call_size :: "set_call \<Rightarrow> nat" where
  "call_size (Put_Members ms) = length ms"
| "call_size _ = 0"

lemma put_members_size: "put_members e s ms = Some (r, s', e') \<Longrightarrow> ms_size s' \<le> ms_size s + length ms"
proof (induction ms arbitrary: e s)
  case (Cons m ms)
  from Cons.prems show ?case
    by (auto simp: bind_eq_Some_conv Let_def split: if_splits prod.splits dest!: Cons.IH)
qed simp

lemma set_put_size: "cluster_member_set_put e s ms = Some (r, s', e') \<Longrightarrow> ms_size s' \<le> ms_size s + length ms"
  by (auto simp: cluster_member_set_put_def cluster_member_set_extend_def Let_def bind_eq_Some_conv
      split: if_splits option.splits prod.splits dest!: put_members_size)

lemma shift_size:
  "cluster_member_set_shift s i = Some s' \<Longrightarrow> i < ms_size s \<Longrightarrow> ms_size s < 2 ^ 32 \<Longrightarrow> ms_size s' \<le> ms_size s"
  by (auto simp: cluster_member_set_shift_def bind_eq_Some_conv)

lemma remove_by_addr_size:
  assumes "cluster_member_set_remove_by_addr s addr n = Some (b, s')" "ms_size s < 2 ^ 32"
  shows "ms_size s' \<le> ms_size s"
  using assms shift_size
  by (auto simp: cluster_member_set_remove_by_addr_def bind_eq_Some_conv split: option.splits dest!: find_loop_bound)

lemma remove_size:
  assumes "cluster_member_set_remove s m = Some (b, s')" "ms_size s < 2 ^ 32"
  shows "ms_size s' \<le> ms_size s"
  using assms shift_size
  by (auto simp: cluster_member_set_remove_def bind_eq_Some_conv split: option.splits dest!: find_loop_bound)

lemma remove_found_heap_refines:
  assumes "set_rep h0 h t s own" "ms_size s < 2 ^ 32" "cluster_member_set_find_by_addr s addr n = Some found"
    "cluster_member_set_remove s found = Some (b, s')"
  shows "\<exists>p h' t' own'. cluster_member_set_find_by_addr_heap h t addr n = Some p
     \<and> cluster_member_set_remove_heap h t p = Some (b, h', t') \<and> set_rep h0 h' t' s' own'"
proof (cases found)
  case None
  have none: "List.find (\<lambda>k. False) [0..<ms_size s] = None" by (simp add: find_None_iff)
  have "find_loop 0 (ms_size s) (\<lambda>k. do { p \<leftarrow> arr_get (ms_set s) k; Some False }) =
      Some (List.find (\<lambda>k. False) [0..<ms_size s])"
    using assms(1) by (intro find_loop_eq_find) (auto simp: set_rep_def arr_get_in)
  then have "\<not> b" "s' = s" using assms(4) None none by (simp_all add: cluster_member_set_remove_def)
  moreover have "cluster_member_set_remove_heap h t None = Some (False, h, t)"
    using find_pointer_heap [OF assms(1), of None] none by (simp add: cluster_member_set_remove_heap_def)
  ultimately show ?thesis using find_by_addr_heap_refines [OF assms(1,3)] None assms(1) by auto
next
  case (Some i)
  then have "i < ms_size s"
    using assms(3) find_loop_bound [of 0 "ms_size s"] by (auto simp: cluster_member_set_find_by_addr_def)
  then show ?thesis
    using remove_heap_refines [OF assms(1) _ assms(2), of i] assms(4) find_by_addr_heap_refines [OF assms(1,3)] Some by auto
qed

context fresh_addresses
begin

lemma init_heap_refines:
  assumes "cluster_member_set_init e s0 = (PITTACUS_ERR_NONE, s, e')"
    "finite (dom (arrays h0))" "finite (dom (cells h0))" "finite (dom (addrs h0))"
  shows "\<exists>h t. cluster_member_set_init_heap new e h0 t0 = (PITTACUS_ERR_NONE, h, t, e') \<and> set_rep h0 h t s []"
proof -
  have e: "malloc e = (True, e')" "s = s0\<lparr>ms_size := 0, ms_capacity := 32, ms_set := replicate 32 None\<rparr>"
    using assms(1) by (auto simp: cluster_member_set_init_def Let_def split: prod.splits if_splits)
  let ?p = "new (dom (arrays h0))"
  have "arrays h0 ?p = None" using fresh [OF assms(2)] by blast
  then have "adds (arrays h0) ((arrays h0)(?p \<mapsto> replicate 32 None)) [(?p, replicate 32 None)]"
    using adds_push [of "arrays h0" "arrays h0" "[]" ?p] assms(2) by simp
  then show ?thesis using e assms(3,4)
    by (auto simp: cluster_member_set_init_heap_def calloc_array_def set_rep_def owns_def Let_def)
qed

lemma run_calls_heap_refines:
  assumes "set_rep h0 h t s own" "run_calls e s cs = Some (rs, s', e')" "ms_size s + sum_list (map call_size cs) < 2 ^ 32"
  shows "\<exists>h' t' own'. run_calls_heap new e h t cs = Some (rs, h', t', e') \<and> set_rep h0 h' t' s' own'"
  using assms
proof (induction e s cs arbitrary: h t own rs rule: run_calls.induct)
  case (1 e s)
  then show ?case by auto
next
  case (2 e s ms cs)
  obtain r s1 e1 rs1 where v: "cluster_member_set_put e s ms = Some (r, s1, e1)" "run_calls e1 s1 cs = Some (rs1, s', e')"
    "rs = err_code r # rs1" using 2(3) by (auto simp: bind_eq_Some_conv)
  obtain h1 t1 own1 where h1: "cluster_member_set_put_heap new e h t ms = Some (r, h1, t1, e1)" "set_rep h0 h1 t1 s1 own1"
    using set_put_heap_refines [OF 2(2) v(1)] by blast
  from 2(1) [OF v(1) refl refl h1(2) v(2)] show ?case using h1(1) v(3) set_put_size [OF v(1)] 2(4) by auto
next
  case (3 e s addr n cs)
  obtain found rs1 where v: "cluster_member_set_find_by_addr s addr n = Some found" "run_calls e s cs = Some (rs1, s', e')"
    "rs = of_bool (found \<noteq> None) # rs1" using 3(3) by (auto simp: bind_eq_Some_conv)
  from 3(1) [OF v(1) 3(2) v(2)] show ?case using find_by_addr_heap_refines [OF 3(2) v(1)] v(3) 3(4) by auto
next
  case (4 e s addr n cs)
  obtain b s1 rs1 where v: "cluster_member_set_remove_by_addr s addr n = Some (b, s1)" "run_calls e s1 cs = Some (rs1, s', e')"
    "rs = of_bool b # rs1" using 4(3) by (auto simp: bind_eq_Some_conv)
  have size: "ms_size s < 2 ^ 32" using 4(4) by simp
  obtain h1 t1 own1 where h1: "cluster_member_set_remove_by_addr_heap h t addr n = Some (b, h1, t1)" "set_rep h0 h1 t1 s1 own1"
    using remove_by_addr_heap_refines [OF 4(2) size v(1)] by blast
  from 4(1) [OF v(1) refl h1(2) v(2)] show ?case using h1(1) v(3) remove_by_addr_size [OF v(1) size] 4(4) by auto
next
  case (5 e s addr n cs)
  obtain found b s1 rs1 where v: "cluster_member_set_find_by_addr s addr n = Some found"
    "cluster_member_set_remove s found = Some (b, s1)" "run_calls e s1 cs = Some (rs1, s', e')"
    "rs = of_bool b # rs1" using 5(3) by (auto simp: bind_eq_Some_conv)
  have size: "ms_size s < 2 ^ 32" using 5(4) by simp
  obtain p h1 t1 own1 where h1: "cluster_member_set_find_by_addr_heap h t addr n = Some p"
    "cluster_member_set_remove_heap h t p = Some (b, h1, t1)" "set_rep h0 h1 t1 s1 own1"
    using remove_found_heap_refines [OF 5(2) size v(1,2)] by blast
  from 5(1) [OF v(1,2) refl h1(3) v(3)] show ?case using h1(1,2) v(4) remove_size [OF v(2) size] 5(4) by auto
qed

text \<open>A set from its creation to its end.\<close>

lemma life_on_heap:
  assumes "finite (dom (arrays h0))" "finite (dom (cells h0))" "finite (dom (addrs h0))"
    "cluster_member_set_init e s0 = (PITTACUS_ERR_NONE, s, e1)" "run_calls e1 s cs = Some (rs, s', e')"
    "sum_list (map call_size cs) < 2 ^ 32"
  shows "\<exists>h t h' t'. cluster_member_set_init_heap new e h0 t0 = (PITTACUS_ERR_NONE, h, t, e1)
     \<and> run_calls_heap new e1 h t cs = Some (rs, h', t', e') \<and> set_t_size t' = ms_size s'
     \<and> (\<forall>i < ms_size s'. \<exists>p m. get_slot h' (set_t_set t') i = Some p
          \<and> arr_get (ms_set s') i = Some (Some m) \<and> view_member h' p = Some m)
     \<and> cluster_member_set_destroy_heap h' t' = Some h0"
proof -
  obtain h t where h: "cluster_member_set_init_heap new e h0 t0 = (PITTACUS_ERR_NONE, h, t, e1)" "set_rep h0 h t s []"
    using init_heap_refines [OF assms(4,1-3)] by blast
  moreover have "ms_size s = 0" using set_rep_length [OF h(2)] by simp
  ultimately obtain h' t' own where h': "run_calls_heap new e1 h t cs = Some (rs, h', t', e')" "set_rep h0 h' t' s' own"
    using run_calls_heap_refines [OF h(2) assms(5)] assms(6) by auto
  have "\<exists>p m. get_slot h' (set_t_set t') i = Some p \<and> arr_get (ms_set s') i = Some (Some m) \<and> view_member h' p = Some m"
    if "i < ms_size s'" for i using set_rep_slot [OF h'(2) that] by metis
  moreover have "set_t_size t' = ms_size s'" using h'(2) by (simp add: set_rep_def)
  ultimately show ?thesis using h(1) h' destroy_heap_releases [OF h'(2)] by blast
qed

end

text \<open>An allocator that never reuses the highest address.\<close>

definition next_address :: allocator where
  "next_address A = (if A = {} then 0 else Suc (Max A))"

interpretation bump: fresh_addresses next_address
proof
  show "next_address A \<notin> A" if "finite A" for A
    using that Max_ge [of A "Suc (Max A)"] Suc_n_not_le_n by (auto simp: next_address_def simp del: Max_ge)
qed

section \<open>Properties\<close>

text \<open>C20. The member set in memory. Let a set be created on any heap, with any allocator that hands
  out unused addresses and may fail at any time, and let members be put, looked up and removed, by
  address or by the pointer found, as the calls on values allow. Then the calls on pointers return the
  same results and touch only blocks that are allocated; the slots of the array point to the members of
  the value, in its order; and destroying the set leaves the heap exactly as it was before: no block of
  an array, a member or an address is lost, freed twice, or anyone else's.\<close>

theorem member_set_memory:
  assumes "fresh_addresses new" "finite (dom (arrays h0))" "finite (dom (cells h0))" "finite (dom (addrs h0))"
    "cluster_member_set_init e s0 = (PITTACUS_ERR_NONE, s, e1)" "run_calls e1 s cs = Some (rs, s', e')"
    "sum_list (map call_size cs) < 2 ^ 32"
  shows "\<exists>h t h' t'. cluster_member_set_init_heap new e h0 t0 = (PITTACUS_ERR_NONE, h, t, e1)
     \<and> run_calls_heap new e1 h t cs = Some (rs, h', t', e') \<and> set_t_size t' = ms_size s'
     \<and> (\<forall>i < ms_size s'. \<exists>p m. get_slot h' (set_t_set t') i = Some p
          \<and> arr_get (ms_set s') i = Some (Some m) \<and> view_member h' p = Some m)
     \<and> cluster_member_set_destroy_heap h' t' = Some h0"
  by (rule fresh_addresses.life_on_heap [OF assms])

text \<open>
  Two members are put into a set, a third one cannot be allocated, the first one is found and removed
  through the pointer, the second one by its address, and then nothing is left to remove.
\<close>

definition ex_memory :: "bool stream \<Rightarrow> env" where
  "ex_memory rest = \<lparr>env_allocs = True ## True ## True ## True ## True ## False ## rest, env_randoms = undefined,
     env_clock = undefined, env_sends = undefined, env_recvs = undefined, env_wire = [], env_app = []\<rparr>"

definition ex_calls :: "set_call list" where
  "ex_calls = [Put_Members [ex_member, ex_member\<lparr>uid := 8\<rparr>, ex_member], Put_Members [ex_member\<lparr>uid := 9\<rparr>],
     Remove_Found ex_addr 16, Find_By_Addr ex_addr 16, Remove_By_Addr ex_addr 16, Remove_Found ex_addr 16]"

definition ex_results :: "int list" where
  "ex_results = [0, err_code PITTACUS_ERR_ALLOCATION_FAILED, 1, 1, 1, 0]"

lemma ex_run:
  "case cluster_member_set_init (ex_memory rest) \<lparr>ms_set = [], ms_size = 0, ms_capacity = 0\<rparr> of (r, s, e) \<Rightarrow>
     r = PITTACUS_ERR_NONE \<and> (case run_calls e s ex_calls of Some (rs, s', _) \<Rightarrow> rs = ex_results \<and> ms_size s' = 0 | None \<Rightarrow> False)"
  by code_simp

theorem member_set_memory_witness:
  "\<exists>h t h' t' e1 e'. cluster_member_set_init_heap next_address (ex_memory (sconst False))
         \<lparr>arrays = Map.empty, cells = Map.empty, addrs = [0 \<mapsto> ex_addr]\<rparr> \<lparr>set_t_set = None, set_t_size = 0, set_t_capacity = 0\<rparr>
       = (PITTACUS_ERR_NONE, h, t, e1)
     \<and> run_calls_heap next_address e1 h t ex_calls = Some (ex_results, h', t', e') \<and> set_t_size t' = 0
     \<and> cluster_member_set_destroy_heap h' t' = Some \<lparr>arrays = Map.empty, cells = Map.empty, addrs = [0 \<mapsto> ex_addr]\<rparr>"
proof -
  let ?h0 = "\<lparr>arrays = Map.empty, cells = Map.empty, addrs = [0 \<mapsto> ex_addr]\<rparr>"
  obtain s e1 s' e' where run: "cluster_member_set_init (ex_memory (sconst False)) \<lparr>ms_set = [], ms_size = 0, ms_capacity = 0\<rparr>
      = (PITTACUS_ERR_NONE, s, e1)" "run_calls e1 s ex_calls = Some (ex_results, s', e')" "ms_size s' = 0"
    using ex_run [of "sconst False"] by (auto split: prod.splits option.splits)
  show ?thesis
    using member_set_memory [OF bump.fresh_addresses_axioms, of ?h0, OF _ _ _ run(1,2),
        of "\<lparr>set_t_set = None, set_t_size = 0, set_t_capacity = 0\<rparr>"] run(3)
    by (auto simp: ex_calls_def)
qed

end
