(* ===== verification/Pt_Tests.thy ===== *)
theory Pt_Tests
  imports Pt_Messages
begin

text \<open>
  The unit tests of \<^verbatim>\<open>src/test\<close>, run on the model. A test is a program that stops at the first assertion
  that fails; the lemmas say that each one runs to its end, so the model gives every answer the
  authors wrote down for the code. Allocations succeed, the clock stands at five seconds, and bytes the
  tests leave indeterminate are zero; the releases at the end of a test are left out.
\<close>

definition check :: "bool \<Rightarrow> unit option" where
  "check b = (if b then Some () else None)"

text \<open>\<^verbatim>\<open>strcmp(a, b) == 0\<close>; reading past the end of either memory has no value.\<close>

fun strcmp_eq :: "u8 list \<Rightarrow> u8 list \<Rightarrow> bool option" where
  "strcmp_eq (a # as) (b # bs) = (if a \<noteq> b then Some False else if a = 0 then Some True else strcmp_eq as bs)"
| "strcmp_eq _ _ = None"

text \<open>The member that \<^verbatim>\<open>create_test_member\<close> creates, with zeros for the padding it leaves indeterminate.\<close>

definition create_test_member :: "u16 \<Rightarrow> cluster_member" where
  "create_test_member port = \<lparr>version = 1, uid = 5, address_len = 16,
     address = Some ([2, 0] @ mem_of_word (PT_HTONS port) @ [127, 0, 0, 1] @ replicate 8 0)\<rparr>"

lemma create_test_member_init:
  "\<exists>e. cluster_member_init ex_env (mem_of_word AF_INET @ mem_of_word (PT_HTONS port) @ [127, 0, 0, 1] @ replicate 8 0) 16 =
     Some (PITTACUS_ERR_NONE, create_test_member port, e)"
proof -
  have "mem_of_word AF_INET = [2, 0]" by code_simp
  then show ?thesis
    by (simp add: create_test_member_def cluster_member_init_def pt_time_def malloc_def ex_env_def mem_read_def)
qed

section \<open>\<^verbatim>\<open>vector_clock_test.c\<close>\<close>

text \<open>The bytes of the clock are compared with zeros, so every field is.\<close>

definition test_vector_clock_init :: "vector_clock \<Rightarrow> unit option" where
  "test_vector_clock_init clock = do {
     let (res, clock) = vector_clock_init (Some clock);
     check (res = PITTACUS_ERR_NONE);
     clock \<leftarrow> clock;
     check (vc_size clock = 0 \<and> current_idx clock = 0 \<and> length (records clock) = MAX_VECTOR_SIZE
       \<and> list_all (\<lambda>r. sequence_number r = 0 \<and> member_id r = 0) (records clock))
   }"

lemma test_vector_clock_init_passes: "test_vector_clock_init clock = Some ()"
  by code_simp

definition test_vector_clock_set :: "unit option" where
  "test_vector_clock_set = do {
     let member = create_test_member 12345;
     (set_result1, clock) \<leftarrow> vector_clock_set vector_clock_zero member 1;
     r \<leftarrow> arr_get (records clock) set_result1;
     check (sequence_number r = 1);
     check (vc_size clock = 1 \<and> current_idx clock = 1);
     (set_result2, clock) \<leftarrow> vector_clock_set clock member 2;
     r \<leftarrow> arr_get (records clock) set_result2;
     check (sequence_number r = 2);
     check (vc_size clock = 1 \<and> current_idx clock = 1);
     check (set_result1 = set_result2);
     let member2 = create_test_member 12346;
     (set_result3, clock) \<leftarrow> vector_clock_set clock member2 3;
     r \<leftarrow> arr_get (records clock) set_result3;
     check (sequence_number r = 3);
     check (vc_size clock = 2 \<and> current_idx clock = 2);
     check (set_result3 \<noteq> set_result2)
   }"

lemma test_vector_clock_set_passes: "test_vector_clock_set = Some ()"
  by code_simp

text \<open>The loop of the overflow test; its index is also the number that is stored.\<close>

fun set_members :: "nat list \<Rightarrow> vector_clock \<Rightarrow> vector_clock option" where
  "set_members [] clock = Some clock"
| "set_members (i # is) clock = do {
     (set_result, clock) \<leftarrow> vector_clock_set clock (create_test_member (1000 + of_nat i)) (of_nat i);
     r \<leftarrow> arr_get (records clock) set_result;
     check (sequence_number r = of_nat i);
     set_members is clock
   }"

definition test_vector_clock_set_overflow :: "unit option" where
  "test_vector_clock_set_overflow = do {
     clock \<leftarrow> set_members [0..<21] vector_clock_zero;
     check (vc_size clock = 20);
     check (current_idx clock = 21 - MAX_VECTOR_SIZE);
     r \<leftarrow> arr_get (records clock) (MAX_VECTOR_SIZE - 1);
     check (sequence_number r = of_nat (MAX_VECTOR_SIZE - 1));
     r \<leftarrow> arr_get (records clock) 0;
     check (sequence_number r = of_nat MAX_VECTOR_SIZE)
   }"

lemma test_vector_clock_set_overflow_passes: "test_vector_clock_set_overflow = Some ()"
  by code_simp

definition test_vector_clock_increment :: "unit option" where
  "test_vector_clock_increment = do {
     let member = create_test_member 12345;
     (none, clock) \<leftarrow> vector_clock_increment vector_clock_zero member;
     check (none = None);
     (set_result, clock) \<leftarrow> vector_clock_set clock member 1;
     r \<leftarrow> arr_get (records clock) set_result;
     check (sequence_number r = 1);
     check (vc_size clock = 1 \<and> current_idx clock = 1);
     (increment_result, clock) \<leftarrow> vector_clock_increment clock member;
     check (increment_result = Some set_result);
     r \<leftarrow> arr_get (records clock) set_result;
     check (sequence_number r = 2);
     check (vc_size clock = 1 \<and> current_idx clock = 1)
   }"

lemma test_vector_clock_increment_passes: "test_vector_clock_increment = Some ()"
  by code_simp

definition check_record :: "vector_clock \<Rightarrow> nat \<Rightarrow> u32 \<Rightarrow> unit option" where
  "check_record clock i n = do {
     r \<leftarrow> arr_get (records clock) i;
     check (sequence_number r = n)
   }"

definition test_vector_clock_compare :: "unit option" where
  "test_vector_clock_compare = do {
     let member1 = create_test_member 12345;
     let member2 = create_test_member 12346;
     (_, clock1) \<leftarrow> vector_clock_set vector_clock_zero member1 1;
     (_, clock2) \<leftarrow> vector_clock_set vector_clock_zero member2 1;
     (res, clock1) \<leftarrow> vector_clock_compare clock1 clock2 True;
     check (res = VC_CONFLICT);
     check (vc_size clock1 = 2);
     check_record clock1 0 1;
     check_record clock1 1 1;
     (incremented, clock1) \<leftarrow> vector_clock_increment clock1 member2;
     check (incremented \<noteq> None);
     check_record clock1 1 2;
     (res, clock2) \<leftarrow> vector_clock_compare clock2 clock1 False;
     check (res = VC_BEFORE);
     check (vc_size clock2 = 1);
     check_record clock2 0 1;
     (res, clock1) \<leftarrow> vector_clock_compare clock1 clock2 False;
     check (res = VC_AFTER);
     (res, clock2) \<leftarrow> vector_clock_compare clock2 clock1 True;
     check (res = VC_BEFORE);
     (res, clock2) \<leftarrow> vector_clock_compare clock2 clock1 True;
     check (res = VC_EQUAL);
     (res, clock1) \<leftarrow> vector_clock_compare clock1 clock2 True;
     check (res = VC_EQUAL);
     (_, clock1) \<leftarrow> vector_clock_set clock1 member1 3;
     (_, clock2) \<leftarrow> vector_clock_set clock2 member2 3;
     (res, clock2) \<leftarrow> vector_clock_compare clock2 clock1 False;
     check (res = VC_CONFLICT);
     (res, clock1) \<leftarrow> vector_clock_compare clock1 clock2 False;
     check (res = VC_CONFLICT)
   }"

lemma test_vector_clock_compare_passes: "test_vector_clock_compare = Some ()"
  by code_simp

definition test_vector_clock_compare_with_record :: "unit option" where
  "test_vector_clock_compare_with_record = do {
     let member = create_test_member 12345;
     (i, actual_clock) \<leftarrow> vector_clock_set vector_clock_zero member 1;
     test_record \<leftarrow> arr_get (records actual_clock) i;
     (res, test_clock) \<leftarrow> vector_clock_compare_with_record vector_clock_zero test_record True;
     check (res = VC_BEFORE);
     check (vc_size test_clock = 1 \<and> current_idx test_clock = 1);
     check_record test_clock 0 1;
     (res, test_clock) \<leftarrow> vector_clock_compare_with_record test_clock test_record False;
     check (res = VC_EQUAL);
     (incremented, test_clock) \<leftarrow> vector_clock_increment test_clock member;
     check (incremented \<noteq> None);
     (res, test_clock) \<leftarrow> vector_clock_compare_with_record test_clock test_record False;
     check (res = VC_AFTER);
     (i, actual_clock) \<leftarrow> vector_clock_set actual_clock member 3;
     test_record \<leftarrow> arr_get (records actual_clock) i;
     (res, test_clock) \<leftarrow> vector_clock_compare_with_record test_clock test_record False;
     check (res = VC_BEFORE);
     check (vc_size test_clock = 1 \<and> current_idx test_clock = 1);
     check_record test_clock 0 2
   }"

lemma test_vector_clock_compare_with_record_passes: "test_vector_clock_compare_with_record = Some ()"
  by code_simp

definition test_vector_clock_copy :: "unit option" where
  "test_vector_clock_copy = do {
     (_, clock1) \<leftarrow> vector_clock_set vector_clock_zero (create_test_member 12345) 1;
     (_, clock2) \<leftarrow> vector_clock_set vector_clock_zero (create_test_member 12346) 1;
     clock1 \<leftarrow> vector_clock_copy clock1 clock2;
     check (vc_size clock1 = 1 \<and> current_idx clock1 = 1);
     r1 \<leftarrow> arr_get (records clock1) 0;
     r2 \<leftarrow> arr_get (records clock2) 0;
     check (member_id r1 = member_id r2);
     check (sequence_number r1 = sequence_number r2)
   }"

lemma test_vector_clock_copy_passes: "test_vector_clock_copy = Some ()"
  by code_simp

definition test_vector_clock_record_copy :: "unit option" where
  "test_vector_clock_record_copy = do {
     (i, clock1) \<leftarrow> vector_clock_set vector_clock_zero (create_test_member 12345) 1;
     record1 \<leftarrow> arr_get (records clock1) i;
     (j, clock2) \<leftarrow> vector_clock_set vector_clock_zero (create_test_member 12346) 1;
     record2 \<leftarrow> arr_get (records clock2) j;
     let record1 = vector_clock_record_copy record1 record2;
     check (member_id record1 = member_id record2);
     check (sequence_number record1 = sequence_number record2)
   }"

lemma test_vector_clock_record_copy_passes: "test_vector_clock_record_copy = Some ()"
  by code_simp

section \<open>\<^verbatim>\<open>messages_test.c\<close>\<close>

text \<open>The buffer on the stack, with zeros for its indeterminate bytes, and an environment whose next
  five allocations succeed.\<close>

abbreviation (input) test_buf :: "u8 list" where "test_buf \<equiv> replicate 512 0"

definition test_env :: "bool stream \<Rightarrow> env" where
  "test_env rest = \<lparr>env_allocs = True ## True ## True ## True ## True ## rest, env_randoms = undefined, env_clock = undefined, env_sends = undefined,
     env_recvs = undefined, env_wire = [], env_app = []\<rparr>"

definition validate_headers :: "message_header \<Rightarrow> message_header \<Rightarrow> unit option" where
  "validate_headers expected actual = do {
     eq \<leftarrow> strcmp_eq (protocol_id expected) (protocol_id actual);
     check eq;
     check (message_type expected = message_type actual);
     check (header_sequence_num expected = header_sequence_num actual)
   }"

definition test_message_ack_enc_dec :: "unit option" where
  "test_message_ack_enc_dec = do {
     let msg = \<lparr>ack_header = message_header_init MESSAGE_ACK_TYPE 1, ack_sequence_num = 2\<rparr>;
     (encode_result, buf) \<leftarrow> as_int (message_ack_encode msg test_buf 0 MESSAGE_MAX_SIZE);
     check (encode_result > 0);
     decode_result \<leftarrow> message_ack_decode buf (nat encode_result);
     case decode_result of
       Inl _ \<Rightarrow> None
     | Inr (n, out_msg) \<Rightarrow> do {
         check (int n = encode_result);
         validate_headers (ack_header msg) (ack_header out_msg);
         check (ack_sequence_num msg = ack_sequence_num out_msg);
         (r, buf) \<leftarrow> message_ack_encode msg buf 0 1;
         check (r = Inl PITTACUS_ERR_BUFFER_NOT_ENOUGH);
         r \<leftarrow> message_ack_decode buf 12;
         check (r = Inl PITTACUS_ERR_BUFFER_NOT_ENOUGH)
       }
   }"

lemma test_message_ack_enc_dec_passes: "test_message_ack_enc_dec = Some ()"
  by code_simp

definition test_message_hello_enc_dec :: "bool stream \<Rightarrow> unit option" where
  "test_message_hello_enc_dec rest = do {
     let msg = \<lparr>hello_header = message_header_init MESSAGE_HELLO_TYPE 1, hello_this_member = create_test_member 12345\<rparr>;
     (encode_result, buf) \<leftarrow> message_hello_encode msg test_buf 0 MESSAGE_MAX_SIZE;
     check (encode_result > 0);
     (decode_result, e) \<leftarrow> message_hello_decode (test_env rest) buf (nat encode_result);
     case decode_result of
       Inl _ \<Rightarrow> None
     | Inr (n, out_msg) \<Rightarrow> do {
         check (int n = encode_result);
         validate_headers (hello_header msg) (hello_header out_msg);
         eq \<leftarrow> cluster_member_equals (hello_this_member msg) (hello_this_member out_msg);
         check eq;
         (r, buf) \<leftarrow> message_hello_encode msg buf 0 1;
         check (r = err_code PITTACUS_ERR_BUFFER_NOT_ENOUGH);
         (r, _) \<leftarrow> message_hello_decode e buf 12;
         check (r = Inl PITTACUS_ERR_BUFFER_NOT_ENOUGH)
       }
   }"

lemma test_message_hello_enc_dec_passes: "test_message_hello_enc_dec rest = Some ()"
  by code_simp

definition test_message_header :: "unit option" where
  "test_message_header = do {
     let header = message_header_init MESSAGE_ACK_TYPE 1;
     check (message_type header = MESSAGE_ACK_TYPE);
     check (header_sequence_num header = 1);
     eq \<leftarrow> strcmp_eq (protocol_id header) [0x70, 0x74, 0x63, 0x73, 0];
     check eq
   }"

lemma test_message_header_passes: "test_message_header = Some ()"
  by code_simp

definition test_message_welcome_enc_dec :: "bool stream \<Rightarrow> unit option" where
  "test_message_welcome_enc_dec rest = do {
     let msg = \<lparr>welcome_header = message_header_init MESSAGE_WELCOME_TYPE 1, hello_sequence_num = 2,
       welcome_this_member = create_test_member 12345\<rparr>;
     (encode_result, buf) \<leftarrow> message_welcome_encode msg test_buf 0 MESSAGE_MAX_SIZE;
     check (encode_result > 0);
     (decode_result, e) \<leftarrow> message_welcome_decode (test_env rest) buf (nat encode_result);
     case decode_result of
       Inl _ \<Rightarrow> None
     | Inr (n, out_msg) \<Rightarrow> do {
         check (int n = encode_result);
         validate_headers (welcome_header msg) (welcome_header out_msg);
         eq \<leftarrow> cluster_member_equals (welcome_this_member msg) (welcome_this_member out_msg);
         check eq;
         check (hello_sequence_num msg = hello_sequence_num out_msg);
         (r, buf) \<leftarrow> message_welcome_encode msg buf 0 1;
         check (r = err_code PITTACUS_ERR_BUFFER_NOT_ENOUGH);
         (r, _) \<leftarrow> message_welcome_decode e buf 12;
         check (r = Inl PITTACUS_ERR_BUFFER_NOT_ENOUGH)
       }
   }"

lemma test_message_welcome_enc_dec_passes: "test_message_welcome_enc_dec rest = Some ()"
  by code_simp

fun check_members :: "cluster_member list \<Rightarrow> cluster_member list \<Rightarrow> unit option" where
  "check_members (m # ms) (n # ns) = do {
     eq \<leftarrow> cluster_member_equals m n;
     check eq;
     check_members ms ns
   }"
| "check_members [] _ = Some ()"
| "check_members _ [] = None"

definition test_message_member_list_enc_dec :: "bool stream \<Rightarrow> unit option" where
  "test_message_member_list_enc_dec rest = do {
     let msg = \<lparr>member_list_header = message_header_init MESSAGE_MEMBER_LIST_TYPE 1, members_n = 2,
       list_members = [create_test_member 12345, create_test_member 12346]\<rparr>;
     (encode_result, buf) \<leftarrow> message_member_list_encode msg test_buf 0 MESSAGE_MAX_SIZE;
     check (encode_result > 0);
     (decode_result, e) \<leftarrow> message_member_list_decode (test_env rest) buf (nat encode_result);
     case decode_result of
       Inl _ \<Rightarrow> None
     | Inr (n, out_msg) \<Rightarrow> do {
         check (int n = encode_result);
         validate_headers (member_list_header msg) (member_list_header out_msg);
         check (members_n msg = members_n out_msg);
         check_members (list_members msg) (list_members out_msg);
         (r, buf) \<leftarrow> message_member_list_encode msg buf 0 1;
         check (r = err_code PITTACUS_ERR_BUFFER_NOT_ENOUGH);
         (r, _) \<leftarrow> message_member_list_decode e buf 12;
         check (r = Inl PITTACUS_ERR_BUFFER_NOT_ENOUGH)
       }
   }"

lemma test_message_member_list_enc_dec_passes: "test_message_member_list_enc_dec rest = Some ()"
  by code_simp

definition test_message_data_enc_dec :: "unit option" where
  "test_message_data_enc_dec = do {
     let payload = ([0x64, 0x61, 0x74, 0x61, 0] :: u8 list);
     (i, clock) \<leftarrow> vector_clock_set vector_clock_zero (create_test_member 12345) 2;
     data_version \<leftarrow> arr_get (records clock) i;
     let msg = \<lparr>data_header = message_header_init MESSAGE_DATA_TYPE 1,
       data_record = vector_clock_record_copy \<lparr>sequence_number = 0, member_id = 0\<rparr> data_version,
       data_size = 5, data = Some payload\<rparr>;
     (encode_result, buf) \<leftarrow> as_int (message_data_encode msg test_buf 0 MESSAGE_MAX_SIZE);
     check (encode_result > 0);
     decode_result \<leftarrow> message_data_decode buf (nat encode_result);
     case decode_result of
       Inl _ \<Rightarrow> None
     | Inr (n, out_msg) \<Rightarrow> do {
         check (int n = encode_result);
         validate_headers (data_header msg) (data_header out_msg);
         check (data_size msg = data_size out_msg);
         received \<leftarrow> data out_msg;
         eq \<leftarrow> strcmp_eq payload received;
         check eq;
         check (member_id (data_record out_msg) = member_id data_version);
         check (sequence_number (data_record out_msg) = sequence_number data_version);
         (r, buf) \<leftarrow> message_data_encode msg buf 0 1;
         check (r = Inl PITTACUS_ERR_BUFFER_NOT_ENOUGH);
         r \<leftarrow> message_data_decode buf 12;
         check (r = Inl PITTACUS_ERR_BUFFER_NOT_ENOUGH)
       }
   }"

lemma test_message_data_enc_dec_passes: "test_message_data_enc_dec = Some ()"
  by code_simp

definition test_message_status_enc_dec :: "unit option" where
  "test_message_status_enc_dec = do {
     (i, clock) \<leftarrow> vector_clock_set vector_clock_zero (create_test_member 12345) 2;
     (j, clock) \<leftarrow> vector_clock_set clock (create_test_member 12346) 3;
     clock_record1 \<leftarrow> arr_get (records clock) i;
     clock_record2 \<leftarrow> arr_get (records clock) j;
     data_version \<leftarrow> vector_clock_copy vector_clock_zero clock;
     let msg = \<lparr>status_header = message_header_init MESSAGE_STATUS_TYPE 1, status_version = data_version\<rparr>;
     (encode_result, buf) \<leftarrow> as_int (message_status_encode msg test_buf 0 MESSAGE_MAX_SIZE);
     check (encode_result > 0);
     decode_result \<leftarrow> message_status_decode buf (nat encode_result) vector_clock_zero;
     case decode_result of
       Inl _ \<Rightarrow> None
     | Inr (n, out_msg) \<Rightarrow> do {
         check (int n = encode_result);
         validate_headers (status_header msg) (status_header out_msg);
         check (vc_size (status_version out_msg) = 2);
         check (current_idx (status_version out_msg) = 0);
         r0 \<leftarrow> arr_get (records (status_version out_msg)) 0;
         check (sequence_number r0 = sequence_number clock_record1 \<and> member_id r0 = member_id clock_record1);
         r1 \<leftarrow> arr_get (records (status_version out_msg)) 1;
         check (sequence_number r1 = sequence_number clock_record2 \<and> member_id r1 = member_id clock_record2);
         (r, buf) \<leftarrow> message_status_encode msg buf 0 1;
         check (r = Inl PITTACUS_ERR_BUFFER_NOT_ENOUGH);
         r \<leftarrow> message_status_decode buf 12 vector_clock_zero;
         check (r = Inl PITTACUS_ERR_BUFFER_NOT_ENOUGH)
       }
   }"

lemma test_message_status_enc_dec_passes: "test_message_status_enc_dec = Some ()"
  by code_simp

definition test_message_invalid_message_type :: "bool stream \<Rightarrow> unit option" where
  "test_message_invalid_message_type rest = do {
     let msg = \<lparr>ack_header = message_header_init 0xFF 1, ack_sequence_num = 2\<rparr>;
     (encode_result, buf) \<leftarrow> as_int (message_ack_encode msg test_buf 0 MESSAGE_MAX_SIZE);
     check (encode_result > 0);
     let n = nat encode_result;
     (r, e) \<leftarrow> message_hello_decode (test_env rest) buf n;
     check (r = Inl PITTACUS_ERR_INVALID_MESSAGE);
     (r, e) \<leftarrow> message_welcome_decode e buf n;
     check (r = Inl PITTACUS_ERR_INVALID_MESSAGE);
     (r, e) \<leftarrow> message_member_list_decode e buf n;
     check (r = Inl PITTACUS_ERR_INVALID_MESSAGE);
     r \<leftarrow> message_ack_decode buf n;
     check (r = Inl PITTACUS_ERR_INVALID_MESSAGE);
     r \<leftarrow> message_data_decode buf n;
     check (r = Inl PITTACUS_ERR_INVALID_MESSAGE);
     r \<leftarrow> message_status_decode buf n vector_clock_zero;
     check (r = Inl PITTACUS_ERR_INVALID_MESSAGE)
   }"

lemma test_message_invalid_message_type_passes: "test_message_invalid_message_type rest = Some ()"
  by code_simp

section \<open>\<^verbatim>\<open>member_test.c\<close>\<close>

definition test_cluster_member_equals :: "unit option" where
  "test_cluster_member_equals = do {
     let member1 = create_test_member 12345;
     let member2 = (create_test_member 12345)\<lparr>uid := uid member1\<rparr>;
     eq \<leftarrow> cluster_member_equals member1 member1;
     check eq;
     eq \<leftarrow> cluster_member_equals member1 member2;
     check eq;
     eq \<leftarrow> cluster_member_equals member2 member1;
     check eq;
     let member2 = create_test_member 12346;
     eq \<leftarrow> cluster_member_equals member1 member2;
     check (\<not> eq);
     eq \<leftarrow> cluster_member_equals member2 member1;
     check (\<not> eq)
   }"

lemma test_cluster_member_equals_passes: "test_cluster_member_equals = Some ()"
  by code_simp

text \<open>Before its initialisation the set holds \<open>slots\<close>, \<open>n\<close> and \<open>c\<close>. The pointer that the look-up returned
  points to no element once the element is removed.\<close>

definition test_cluster_member_set_put_remove ::
  "bool stream \<Rightarrow> cluster_member option list \<Rightarrow> nat \<Rightarrow> nat \<Rightarrow> unit option" where
  "test_cluster_member_set_put_remove rest slots n c = do {
     let (res, s, e) = cluster_member_set_init (test_env rest) \<lparr>ms_set = slots, ms_size = n, ms_capacity = c\<rparr>;
     check (res = PITTACUS_ERR_NONE);
     check (ms_capacity s > 0);
     check (ms_size s = 0);
     let init_capacity = ms_capacity s;
     let member1 = create_test_member 12345;
     (res, s, e) \<leftarrow> cluster_member_set_put e s [member1];
     check (res = PITTACUS_ERR_NONE \<and> ms_size s = 1 \<and> ms_capacity s = init_capacity);
     (res, s, e) \<leftarrow> cluster_member_set_put e s [member1];
     check (res = PITTACUS_ERR_NONE \<and> ms_size s = 1 \<and> ms_capacity s = init_capacity);
     let member2 = create_test_member 12346;
     (res, s, e) \<leftarrow> cluster_member_set_put e s [member2];
     check (res = PITTACUS_ERR_NONE \<and> ms_size s = 2 \<and> ms_capacity s = init_capacity);
     addr1 \<leftarrow> address member1;
     found \<leftarrow> cluster_member_set_find_by_addr s addr1 (unat (address_len member1));
     k \<leftarrow> found;
     slot \<leftarrow> arr_get (ms_set s) k;
     search_result \<leftarrow> slot;
     eq \<leftarrow> cluster_member_equals search_result member1;
     check eq;
     (removed, s) \<leftarrow> cluster_member_set_remove s found;
     check (removed \<and> ms_size s = 1 \<and> ms_capacity s = init_capacity);
     (removed, s) \<leftarrow> cluster_member_set_remove s None;
     check (\<not> removed);
     found \<leftarrow> cluster_member_set_find_by_addr s addr1 (unat (address_len member1));
     check (found = None);
     addr2 \<leftarrow> address member2;
     (removed, s) \<leftarrow> cluster_member_set_remove_by_addr s addr2 (unat (address_len member2));
     check (removed \<and> ms_size s = 0 \<and> ms_capacity s = init_capacity);
     (removed, s) \<leftarrow> cluster_member_set_remove_by_addr s addr2 (unat (address_len member2));
     check (\<not> removed);
     found \<leftarrow> cluster_member_set_find_by_addr s addr2 (unat (address_len member2));
     check (found = None)
   }"

lemma test_cluster_member_set_put_remove_passes: "test_cluster_member_set_put_remove rest slots n c = Some ()"
  by code_simp

text \<open>
  The remaining tests put up to 96 members into the set. They are not evaluated but proved, for any random numbers,
  from the lemmas on the set: after a successful \<^verbatim>\<open>put\<close> the set holds the keys of the test members, in order.
\<close>

definition test_members :: "nat \<Rightarrow> cluster_member list" where
  "test_members n = map (\<lambda>i. create_test_member (1000 + of_nat i)) [0..<n]"

definition check_found :: "cluster_member_set \<Rightarrow> cluster_member \<Rightarrow> unit option" where
  "check_found s m = do {
     addr \<leftarrow> address m;
     search_result \<leftarrow> cluster_member_set_find_by_addr s addr (unat (address_len m));
     check (search_result \<noteq> None)
   }"

fun check_all :: "('a \<Rightarrow> unit option) \<Rightarrow> 'a list \<Rightarrow> unit option" where
  "check_all f [] = Some ()"
| "check_all f (x # xs) = do { f x; check_all f xs }"

definition test_cluster_member_set_extension :: "env \<Rightarrow> cluster_member_set \<Rightarrow> unit option" where
  "test_cluster_member_set_extension e s = do {
     let (res, s, e) = cluster_member_set_init e s;
     check (res = PITTACUS_ERR_NONE);
     let members_size = ms_capacity s * 3;
     let ms = test_members members_size;
     (res, s, e) \<leftarrow> cluster_member_set_put e s ms;
     check (res = PITTACUS_ERR_NONE);
     check (ms_size s = members_size);
     check (ms_capacity s > members_size);
     check_all (check_found s) ms;
     (res, s, e) \<leftarrow> cluster_member_set_put e s ms;
     check (res = PITTACUS_ERR_NONE);
     check (ms_size s = members_size)
   }"

text \<open>Pointers to members are compared by the slots they come from.\<close>

fun put_one_by_one :: "env \<Rightarrow> cluster_member_set \<Rightarrow> cluster_member list \<Rightarrow> (cluster_member_set \<times> env) option" where
  "put_one_by_one e s [] = Some (s, e)"
| "put_one_by_one e s (m # ms) = do {
     (res, s, e) \<leftarrow> cluster_member_set_put e s [m];
     check (res = PITTACUS_ERR_NONE);
     put_one_by_one e s ms
   }"

definition check_sampled :: "cluster_member_set \<Rightarrow> cluster_member option \<Rightarrow> unit option" where
  "check_sampled s p = do {
     m \<leftarrow> p;
     addr \<leftarrow> address m;
     search_result \<leftarrow> cluster_member_set_find_by_addr s addr (unat (address_len m));
     k \<leftarrow> search_result;
     q \<leftarrow> arr_get (ms_set s) k;
     check (q = p)
   }"

definition test_cluster_member_set_random_members :: "env \<Rightarrow> cluster_member_set \<Rightarrow> unit option" where
  "test_cluster_member_set_random_members e s = do {
     let (res, s, e) = cluster_member_set_init e s;
     check (res = PITTACUS_ERR_NONE);
     let members_size = 10;
     (s, e) \<leftarrow> put_one_by_one e s (test_members members_size);
     (rnd_members1, e) \<leftarrow> cluster_member_set_random_members e s 5;
     check (length rnd_members1 = 5);
     check_all (check_sampled s) rnd_members1;
     (rnd_members2, e) \<leftarrow> cluster_member_set_random_members e s 10;
     check (length rnd_members2 = 10);
     check (rnd_members2 = take 10 (ms_set s));
     (rnd_members3, e) \<leftarrow> cluster_member_set_random_members e s 15;
     check (length rnd_members3 = members_size)
   }"

lemma check_True [simp]: "check True = Some ()"
  by (simp add: check_def)

lemma check_all_ok: "(\<And>x. x \<in> set xs \<Longrightarrow> f x = Some ()) \<Longrightarrow> check_all f xs = Some ()"
  by (induction xs) auto

definition test_addr :: "nat \<Rightarrow> u8 list" where
  "test_addr i = [2, 0] @ be16 (1000 + of_nat i) @ [127, 0, 0, 1] @ replicate 8 0"

lemma test_member_fields [simp]:
  "version (create_test_member (1000 + of_nat i)) = 1" "uid (create_test_member (1000 + of_nat i)) = 5"
  "address_len (create_test_member (1000 + of_nat i)) = 16"
  "address (create_test_member (1000 + of_nat i)) = Some (test_addr i)"
  by (simp_all add: create_test_member_def test_addr_def mem_of_htons)

lemma length_test_addr [simp]: "length (test_addr i) = 16"
  by (simp add: test_addr_def)

lemma test_addr_inj:
  assumes "test_addr i = test_addr j" "i < 2 ^ 16" "j < 2 ^ 16"
  shows "i = j"
proof -
  have "be16 (1000 + of_nat i) = be16 (1000 + of_nat j)" using assms(1) by (simp add: test_addr_def)
  then have "(1000 + of_nat i :: u16) = 1000 + of_nat j" using htons_of_be by metis
  then have "unat (of_nat i :: u16) = unat (of_nat j :: u16)" by simp
  then show ?thesis using assms(2,3) by (simp add: unat_of_nat)
qed

lemma test_member_key: "member_key (create_test_member (1000 + of_nat i)) = (1, 5, 16, test_addr i)"
  by (simp add: member_key_def member_addr_def)

lemma test_members_ok: "\<forall>m \<in> set (test_members n). member_ok m"
  by (simp add: test_members_def member_ok_def)

lemma test_members_keys: "map member_key (test_members n) = map (\<lambda>i. (1, 5, 16, test_addr i)) [0..<n]"
  by (simp add: test_members_def test_member_key)

text \<open>A set that holds the first \<open>n\<close> test members.\<close>

definition holds :: "cluster_member_set \<Rightarrow> nat \<Rightarrow> bool" where
  "holds s n \<longleftrightarrow> members_inv s \<and> ms_keys s = map (\<lambda>i. (1, 5, 16, test_addr i)) [0..<n] \<and> n < 2 ^ 16"

lemma holds_size: "holds s n \<Longrightarrow> ms_size s = n"
  using length_ms_list [of s] by (auto simp: holds_def ms_keys_def dest: arg_cong [where f = length])

lemma holds_member:
  assumes "holds s n" "i < n"
  shows "member_key (ms_list s ! i) = (1, 5, 16, test_addr i)"
proof -
  have "ms_keys s ! i = (1, 5, 16, test_addr i)" using assms by (simp add: holds_def)
  moreover have "ms_keys s ! i = member_key (ms_list s ! i)"
  proof -
    have "length (ms_list s) = n" using assms(1) length_ms_list [of s] holds_size [OF assms(1)] by (simp add: holds_def)
    then show ?thesis using assms(2) unfolding ms_keys_def by simp
  qed
  ultimately show ?thesis by simp
qed

lemma holds_find:
  assumes "holds s n" "i < n" "take 16 addr = test_addr i"
  shows "cluster_member_set_find_by_addr s addr 16 = Some (Some i)"
proof -
  have inv: "members_inv s" using assms(1) by (simp add: holds_def)
  note size = holds_size [OF assms(1)]
  have slot: "16 \<le> length (the (address (ms_list s ! j))) \<and> take 16 (the (address (ms_list s ! j))) = test_addr j" if "j < n" for j
    using holds_member [OF assms(1) that] members_inv_slot(2) [OF inv, of j] that size
    by (auto simp: member_key_def member_addr_def member_ok_def split: option.splits)
  have "addr_readable 16 s"
    using slot length_ms_list [OF inv] size by (auto simp: addr_readable_def in_set_conv_nth)
  moreover have "16 \<le> length addr" using arg_cong [OF assms(3), of length] by simp
  ultimately have "addr_matches s addr 16 j = Some (addr_prefix 16 addr (ms_list s ! j))" if "j < ms_size s" for j
    using addr_matches_ok [OF inv _ _ that] by blast
  then have "cluster_member_set_find_by_addr s addr 16 = Some (List.find (\<lambda>j. addr_prefix 16 addr (ms_list s ! j)) [0..<n])"
    unfolding cluster_member_set_find_by_addr_def size [symmetric] by (intro find_loop_eq_find) auto
  moreover have "addr_prefix 16 addr (ms_list s ! j) \<longleftrightarrow> j = i" if "j < n" for j
    using slot [OF that] assms test_addr_inj [of j i] that by (auto simp: addr_prefix_def holds_def)
  ultimately show ?thesis using assms(2) by (auto simp: find_upt_Some_iff)
qed

lemma init_holds:
  assumes "allocs_ok e"
  shows "\<exists>s' e'. cluster_member_set_init e s = (PITTACUS_ERR_NONE, s', e') \<and> allocs_ok e' \<and> holds s' 0 \<and> ms_capacity s' = 32"
  using malloc_ok [OF assms]
  by (auto simp: cluster_member_set_init_def holds_def members_inv_def ms_keys_def ms_list_def)

lemma add_new_append: "distinct (ks @ xs) \<Longrightarrow> add_new ks xs = ks @ xs"
  by (induction ks xs rule: add_new.induct) auto

lemma distinct_test_keys: "n < 2 ^ 16 \<Longrightarrow> distinct (map (\<lambda>i. (1 :: u16, 5 :: u32, 16 :: u32, test_addr i)) [0..<n])"
  by (auto simp: distinct_map inj_on_def dest: test_addr_inj)

lemma put_holds:
  assumes "holds s k" "allocs_ok e" "k \<le> n" "n < 2 ^ 16"
    "map member_key ms = map (\<lambda>i. (1, 5, 16, test_addr i)) [j..<n]" "j = k \<or> n = k" "\<forall>m \<in> set ms. member_ok m"
  shows "\<exists>s' e'. cluster_member_set_put e s ms = Some (PITTACUS_ERR_NONE, s', e') \<and> allocs_ok e' \<and> holds s' n
     \<and> \<not> over_load_factor (ms_size s') (ms_capacity s')"
proof -
  have len: "length ms = n - j" using arg_cong [OF assms(5), of length] by simp
  have small: "ms_size s + length ms < 3 * 2 ^ 29" using holds_size [OF assms(1)] assms(3,4) len by auto
  obtain s' e' where s': "cluster_member_set_put e s ms = Some (PITTACUS_ERR_NONE, s', e')" "allocs_ok e'" "members_inv s'"
    "ms_keys s' = add_new (ms_keys s) (map member_key ms)" "\<not> over_load_factor (ms_size s') (ms_capacity s')"
    using cluster_member_set_put_ok [OF _ assms(2,7) small] assms(1) by (auto simp: holds_def)
  let ?key = "\<lambda>i. (1 :: u16, 5 :: u32, 16 :: u32, test_addr i)"
  have "add_new (map ?key [0..<k]) (map ?key [j..<n]) = map ?key [0..<n]"
  proof (cases "j = k")
    case True
    then have "map ?key [0..<n] = map ?key [0..<k] @ map ?key [j..<n]"
      using upt_add_eq_append [of 0 k "n - k"] assms(3) by simp
    then show ?thesis using distinct_test_keys [OF assms(4)] by (metis add_new_append)
  next
    case False
    then have "n = k" using assms(6) by simp
    then show ?thesis by (intro add_new_known [THEN trans]) auto
  qed
  then have "holds s' n" using s'(3,4) assms(1,4,5) by (simp add: holds_def)
  then show ?thesis using s' by blast
qed

lemma test_cluster_member_set_extension_passes:
  assumes "allocs_ok e"
  shows "test_cluster_member_set_extension e s = Some ()"
proof -
  obtain s0 e0 where 0: "cluster_member_set_init e s = (PITTACUS_ERR_NONE, s0, e0)" "allocs_ok e0" "holds s0 0" "ms_capacity s0 = 32"
    using init_holds [OF assms] by blast
  obtain s1 e1 where 1: "cluster_member_set_put e0 s0 (test_members 96) = Some (PITTACUS_ERR_NONE, s1, e1)" "allocs_ok e1" "holds s1 96"
    "\<not> over_load_factor (ms_size s1) (ms_capacity s1)"
    using put_holds [OF 0(3,2) _ _ test_members_keys [of 96] _ test_members_ok] by auto
  obtain s2 e2 where 2: "cluster_member_set_put e1 s1 (test_members 96) = Some (PITTACUS_ERR_NONE, s2, e2)" "holds s2 96"
    using put_holds [OF 1(3,2) _ _ test_members_keys [of 96] _ test_members_ok] by auto
  have "check_all (check_found s1) (test_members 96) = Some ()"
    using holds_find [OF 1(3)] by (intro check_all_ok) (auto simp: check_found_def test_members_def)
  moreover have "96 < ms_capacity s1" using 1(4) holds_size [OF 1(3)] by (simp add: over_load_factor_def)
  ultimately show ?thesis using 0 1 2 holds_size [OF 1(3)] holds_size [OF 2(2)]
    by (simp add: test_cluster_member_set_extension_def)
qed

lemma put_one_by_one_holds:
  assumes "holds s k" "allocs_ok e" "k \<le> n" "n < 2 ^ 16"
  shows "\<exists>s' e'. put_one_by_one e s (map (\<lambda>i. create_test_member (1000 + of_nat i)) [k..<n]) = Some (s', e') \<and> allocs_ok e' \<and> holds s' n"
  using assms
proof (induction "n - k" arbitrary: k e s)
  case (Suc d)
  then have "k < n" by simp
  obtain s' e' where s': "cluster_member_set_put e s [create_test_member (1000 + of_nat k)] = Some (PITTACUS_ERR_NONE, s', e')"
    "allocs_ok e'" "holds s' (Suc k)"
    using put_holds [OF Suc.prems(1,2), of "Suc k" "[create_test_member (1000 + of_nat k)]" k] \<open>k < n\<close> Suc.prems(4)
    by (auto simp: test_member_key member_ok_def)
  then show ?case using Suc.hyps(1) [of "Suc k" s' e'] Suc.hyps(2) Suc.prems(4) \<open>k < n\<close>
    by (simp add: upt_conv_Cons)
qed auto

lemma random_members_all:
  assumes "ms_size s \<le> k" "ms_size s \<le> length (ms_set s)"
  shows "cluster_member_set_random_members e s k = Some (take (ms_size s) (ms_set s), e)"
  using assms fill_reservoir [of "ms_size s" "ms_set s"] by (simp add: cluster_member_set_random_members_def)

lemma test_cluster_member_set_random_members_passes:
  assumes "allocs_ok e"
  shows "test_cluster_member_set_random_members e s = Some ()"
proof -
  obtain s0 e0 where 0: "cluster_member_set_init e s = (PITTACUS_ERR_NONE, s0, e0)" "allocs_ok e0" "holds s0 0"
    using init_holds [OF assms] by blast
  obtain s1 e1 where 1: "put_one_by_one e0 s0 (test_members 10) = Some (s1, e1)" "holds s1 10"
    using put_one_by_one_holds [OF 0(3,2), of 10] by (auto simp: test_members_def)
  note size = holds_size [OF 1(2)]
  have inv: "members_inv s1" using 1(2) by (simp add: holds_def)
  then have room: "ms_size s1 \<le> length (ms_set s1)" by (auto simp: members_inv_def)
  obtain idxs e2 where r: "cluster_member_set_random_members e1 s1 5 = Some (map ((!) (ms_set s1)) idxs, e2)"
    "set idxs \<subseteq> {..<10}" "length idxs = 5"
    using cluster_member_set_random_members_ok [OF room, of e1 5] size by auto
  have sampled: "check_sampled s1 (ms_set s1 ! i) = Some ()" if i: "i < 10" for i
  proof -
    obtain a where a: "address (ms_list s1 ! i) = Some a" "take 16 a = test_addr i" "address_len (ms_list s1 ! i) = 16"
      using holds_member [OF 1(2) i] members_inv_slot(2) [OF inv, of i] i size
      by (auto simp: member_key_def member_addr_def member_ok_def split: option.splits)
    then show ?thesis using holds_find [OF 1(2) i a(2)] members_inv_slot(1,3) [OF inv, of i] i size
      by (simp add: check_sampled_def arr_get_in)
  qed
  then have "check_all (check_sampled s1) (map ((!) (ms_set s1)) idxs) = Some ()"
    using r(2) by (intro check_all_ok) auto
  then show ?thesis using 0(1) 1(1) r(1,3) room size random_members_all [OF _ room]
    by (simp add: test_cluster_member_set_random_members_def)
qed

end
