(* ===== verification/Spec2Isabelle.thy ===== *)
theory Spec2Isabelle
  imports Pt_Queue_Loops Pt_Demo Pt_Handshake Pt_Release Pt_Set_Heap Pt_Tests
begin

text \<open>
  \<^bold>\<open>Pittacus: a gossip library, its model and its correctness.\<close>

  Pittacus (\<^verbatim>\<open>src/src\<close>) is a C library by which the nodes of a cluster spread application data
  epidemically over UDP. A node greets the seed nodes (hello, answered by welcome), learns the other
  members (member lists), publishes payloads that are passed on to three random members each time they
  are new (data), has them acknowledged and repeated (ack), and once a second sends its version to
  random members, which answer with what it lacks, or ask for what they lack (status). Versions are
  vector clocks with a record per originator.

  \<^bold>\<open>The parts, from the bottom up, and the theories that model them.\<close> Definitions carry the names of
  the functions they translate; a loop inside a function is a definition of its own, named in the text
  above it.

  \<^item> \<^verbatim>\<open>Pt_Prelude\<close>: machine integers as words, the constants of \<^verbatim>\<open>config.h\<close>, the error codes of
    \<^verbatim>\<open>errors.h\<close>, reads and writes of byte arrays, the combinators for loops, and the rewrite rules
    (\<^verbatim>\<open>mem_simps\<close>, \<^verbatim>\<open>codec_simps\<close>) that the codecs' proofs share.
  \<^item> \<^verbatim>\<open>Pt_Utils\<close>: \<^verbatim>\<open>utils.c\<close> (byte order, \<^verbatim>\<open>pt_time\<close>, \<^verbatim>\<open>pt_random\<close>) and the datagram calls of
    \<^verbatim>\<open>network.c\<close>, with the environment record \<^typ>\<open>env\<close>: the future answers of \<^verbatim>\<open>malloc\<close>,
    \<^verbatim>\<open>gettimeofday\<close>, \<^verbatim>\<open>rand\<close>, \<^verbatim>\<open>sendto\<close> and \<^verbatim>\<open>recvfrom\<close> as streams, the datagrams written so far and
    what the application was handed.
  \<^item> \<^verbatim>\<open>Pt_Member\<close>: \<^verbatim>\<open>member.c\<close>, members and the growing member set with its reservoir sampling.
  \<^item> \<^verbatim>\<open>Pt_Set_Heap\<close>: the member set again, as an array of pointers to allocated members with allocated
    addresses (\<^verbatim>\<open>cluster_member_set_*\<close> with the suffix \<^verbatim>\<open>_heap\<close>).
  \<^item> \<^verbatim>\<open>Pt_Vector_Clock\<close>: \<^verbatim>\<open>vector_clock.c\<close>, clocks of at most 20 records with the bitmap comparison.
  \<^item> \<^verbatim>\<open>Pt_Text\<close>: \<^verbatim>\<open>vector_clock_to_string\<close> and the conversions of \<^verbatim>\<open>sprintf\<close>.
  \<^item> \<^verbatim>\<open>Pt_Messages\<close>: \<^verbatim>\<open>messages.c\<close>, the header and the encoders and decoders of the six messages.
  \<^item> \<^verbatim>\<open>Pt_Queue\<close>: the doubly linked outbound queue of \<^verbatim>\<open>gossip.c\<close> over a heap (create, enqueue, remove,
    find, clear).
  \<^item> \<^verbatim>\<open>Pt_Data_Log\<close>: the log of the latest payload of each originator (\<^verbatim>\<open>gossip_data_log\<close>).
  \<^item> \<^verbatim>\<open>Pt_Gossip\<close>: the state \<^typ>\<open>pittacus_gossip\<close> of a node, the allocation of regions of the output
    buffer, \<^verbatim>\<open>gossip_enqueue_message\<close> and all \<^verbatim>\<open>gossip_enqueue_*\<close> functions.
  \<^item> \<^verbatim>\<open>Pt_Handlers\<close>: every \<^verbatim>\<open>gossip_handle_*\<close> function and the dispatcher.
  \<^item> \<^verbatim>\<open>Pt_Api\<close>: the public functions of \<^verbatim>\<open>gossip.h\<close> and the life of a node as a sequence of calls.
  \<^item> \<^verbatim>\<open>Pt_Frame\<close>: what each function leaves alone, without any assumption on the node.
  \<^item> \<^verbatim>\<open>Pt_Retransmission\<close>, \<^verbatim>\<open>Pt_Sync\<close>, \<^verbatim>\<open>Pt_Handshake\<close>: what rounds of sending, the exchange of data
    between two nodes and the greeting of a seed node achieve.
  \<^item> \<^verbatim>\<open>Pt_Cluster\<close>: any number of nodes and the network between them as a step relation.
  \<^item> \<^verbatim>\<open>Pt_Release\<close>: who owns the memory of a decoded message: the decoders, the handlers and the
    \<^verbatim>\<open>message_*_destroy\<close> functions of hello, welcome and member lists on a store of blocks.
  \<^item> \<^verbatim>\<open>Pt_Queue_Loops\<close>: the two loops of \<^verbatim>\<open>gossip.c\<close> that walk the queue and remove from it while they
    walk, on the linked list.
  \<^item> \<^verbatim>\<open>Pt_Demo\<close>: the two programs of \<^verbatim>\<open>src/demos\<close>, a node and a seed node, as users of the library.
  \<^item> \<^verbatim>\<open>Pt_Tests\<close>: the unit tests of \<^verbatim>\<open>src/test\<close>, run on the model.

  \<^bold>\<open>How the code is read.\<close>

  \<^item> A C function is a HOL function on the memory it uses. Its result is an \<open>option\<close>: \<^term>\<open>None\<close> stands
    for what C leaves undefined (access out of bounds or through NULL, an over-wide shift) and, for the
    loops on the linked list, for not ending. So \<open>f x = Some y\<close> in a theorem says that the call returns
    and touches only memory it may touch. Error codes are values: a sum with \<^typ>\<open>pittacus_error\<close> or the
    negative integer of \<^const>\<open>err_code\<close>.
  \<^item> Integers have their widths: \<^verbatim>\<open>uint16_t\<close>, \<^verbatim>\<open>uint32_t\<close> and \<^verbatim>\<open>uint64_t\<close> are words and wrap. The layout
    is the one of 64-bit little-endian Linux (\<^verbatim>\<open>sizeof(cluster_member_t)\<close> 24,
    \<^verbatim>\<open>sizeof(pt_sockaddr_storage)\<close> 128); byte order conversions are written out on memory images.
  \<^item> A pointer into a byte array is an offset; a pointer a decoder leaves in its result is the bytes
    readable behind it; the pointers of the queue are addresses of a heap. From \<^verbatim>\<open>Pt_Gossip\<close> on the
    queue is the list of its envelopes. \<^verbatim>\<open>Pt_Queue\<close> and \<^verbatim>\<open>Pt_Queue_Loops\<close> show that each operation and
    loop on the linked list does to the represented list what is used there. The member set is an array
    of values there; \<^verbatim>\<open>Pt_Set_Heap\<close> shows that the array of pointers does the same.
  \<^item> The operating system and \<^verbatim>\<open>malloc\<close> are parameters: any stream of answers. \<^const>\<open>allocs_ok\<close> restricts
    theorems that speak about success to runs in which no allocation fails; the failing branches are
    part of the definitions. The application's callback \<^verbatim>\<open>data_receiver\<close> is a function argument.

  \<^bold>\<open>Interfaces.\<close> \<^verbatim>\<open>version_order\<close> (what a comparison of clocks promises) and \<^verbatim>\<open>version_store\<close> (what
  storing and observing records promises) are interpreted by the clocks; \<^verbatim>\<open>message_codec\<close> (an encoder
  writes the specified bytes, a decoder reads them back) by each of the six messages;
  \<^verbatim>\<open>outbound_queue\<close> (append, remove, find, clear against a list) by the linked list;
  \<^verbatim>\<open>receiver_contract\<close> (the callback keeps the node valid) by the absent receiver and by a receiver
  that records what it is handed, and by one that prints like the demos; \<^verbatim>\<open>event_loop\<close> (a pass of a
  program's loop goes well) by the loops of both demos; \<^verbatim>\<open>owned_message\<close> (decoding allocates one block,
  from which the message is read, and destroying it gives the block back) by the three messages that
  are allocated; \<^verbatim>\<open>fresh_addresses\<close> (the allocator hands out unused addresses) by one that counts up.

  \<^bold>\<open>What is shown.\<close>

  \<^item> Memory and state: \<^const>\<open>gossip_inv\<close> is the invariant of a node for addresses of \<open>L\<close> bytes,
    \<open>12 \<le> L \<le> 128\<close>, in runs in which no allocation fails. Creation establishes it, every public call in any
    order and every datagram within \<^const>\<open>packet_ok\<close> keeps it, returns, and moves the state forward only.
    \<^const>\<open>packet_ok\<close> lists, as conditions on the bytes, what the decoders and handlers do not test: that the addresses
    in an accepted message have the length \<open>L\<close>, that a clock has no more records than its array, and that the members
    a list makes the decoder walk over end within the input buffer (\<^const>\<open>members_within\<close>). \<open>decoders_within_buffer\<close>
    shows that each decoder stays within memory exactly under the respective condition.
  \<^item> Clocks: the bitmap comparison decides the order of partial maps, merging is their join, verdicts
    of several comparisons agree, a record is new exactly once as long as the clock is not full, and
    what is forgotten when it is full.
  \<^item> Wire format: members, clocks and messages survive encoding and decoding at any offset of a large
    enough buffer; each decoder rejects foreign bytes.
  \<^item> Queue and regions: the linked list implements a list, no operation follows a freed pointer; the
    region chosen for a message is free or freed; what eviction removes.
  \<^item> Spreading: which members a message is queued for, with which bytes; each datagram on the wire is
    a queued message with the number of its envelope; data reaches the application once, in order of
    its originator, whatever the order and number of its copies.
  \<^item> Liveness: with successful writes four rounds of sending at least 10 seconds apart empty the queue;
    a node that answers a status with its log brings the other one up to date; hello and welcome connect
    a new node, and it and the seed know each other.
  \<^item> Clusters: whatever the nodes queue can be received by the others and is read as what was sent. In
    any run of a cluster, over a network that may lose, repeat, reorder and misroute datagrams and add
    any that are not data, nodes deliver, log and claim only what was published under that originator
    and number, and two logs never disagree about it, as long as every datagram is within \<^const>\<open>packet_ok\<close>, payloads
    have at most 512 bytes and no counter wraps. The key is that a node queues data only from its
    log (\<^const>\<open>evolves\<close>), and that a datagram is taken for data only as a whole message, also when an
    envelope outlived its message (\<^const>\<open>genuine\<close>).
  \<^item> Members in memory: whatever calls are made on a member set, those on pointers return what those on
    values do (\<^const>\<open>set_rep\<close> relates the two), no pointer dangles, and destroying the set gives back the
    heap as it was before the set was made.
  \<^item> Release: unless an allocation fails, handling a datagram within \<^const>\<open>packet_ok\<close> releases every block it allocated, once and after its last use, except
    for a member list that is cut short (\<^const>\<open>leaks\<close>), by which memory can be exhausted.
  \<^item> Use: the demos run for any number of passes without undefined behaviour, on datagrams within the
    bounds that can be printed and with clocks away from the ends of \<^verbatim>\<open>time_t\<close>, and close their socket when they end, unless the tick failed; what one
    publishes the other one prints; a foreign datagram ends them.

  \<^bold>\<open>Bounds.\<close> Loops over arrays run over their index lists and need no fuel; the two loops with a
  computed end (\<^const>\<open>merge_missing\<close>, \<^const>\<open>process_send_loop\<close>) have termination proofs; the loops on
  the linked list are partial functions, and the refinement theorems show that they end. The endless
  loops of the demos are any number of passes. Theorems about
  several datagrams assume that the originators fit into the clock (20), that the envelopes fit into the
  100 regions, and that the member set is far from the 32-bit limit of its capacity.

  \<^bold>\<open>Not modelled.\<close> One heap for all blocks at once: the queue, the member set and the decoded messages
  have heaps of their own, each with a part for what the others hold. The random members drawn for
  sending are values, not pointers. The values of indeterminate bytes: a fresh allocation has arbitrary
  content of the right size, or zeros where it is overwritten at once.
\<close>

end
